(* ===== verification/Prelude.thy ===== *)
theory Prelude
  imports Main "HOL-Library.Word" "HOL-Library.AList"
begin

text \<open>
  Shared vocabulary of the development. A Go \<open>byte\<close> is an Isabelle \<open>char\<close> (exactly the 256
  values of a byte, so JSON text can be written as a string literal) and a \<open>[]byte\<close> or Go
  \<open>string\<close> is a list of them; \<open>byte_val\<close> reads the numeric value where the code compares bytes.
  A \<open>uint64\<close> counter is a \<open>64 word\<close>. The generic lemmas on \<open>drop\<close> and slices are collected
  here because every scanner proof uses them.
\<close>

type_synonym bytes = "char list"
type_synonym u64 = "64 word"

abbreviation byte_val :: "char \<Rightarrow> nat" where
  "byte_val c \<equiv> of_char c"

abbreviation dquote :: char where "dquote \<equiv> CHR 0x22"
abbreviation backslash :: char where "backslash \<equiv> CHR 0x5C"

text \<open>The Go slice expression \<open>b[s:e]\<close>, for \<open>s \<le> e \<le> len(b)\<close>.\<close>

definition slice :: "'a list \<Rightarrow> nat \<Rightarrow> nat \<Rightarrow> 'a list" where
  "slice b s e = take (e - s) (drop s b)"

text \<open>Facts about what an operation does to the counters are collected in one bundle.\<close>

named_theorems counter_simps

lemma drop_eq_Cons:
  "i < length b \<Longrightarrow> drop i b = b ! i # drop (Suc i) b"
  by (simp add: Cons_nth_drop_Suc)

lemma drop_Cons_iff:
  "drop i b = c # cs \<longleftrightarrow> i < length b \<and> b ! i = c \<and> drop (Suc i) b = cs"
  by (metis drop_eq_Cons drop_eq_Nil linorder_not_le list.distinct(1) list.inject)

lemma drop_Nil_iff: "drop i b = [] \<longleftrightarrow> length b \<le> i"
  by simp

lemma slice_append: "slice (p @ x @ s) (length p) (length p + length x) = x"
  by (simp add: slice_def)

lemma slice_append_gen:
  "i = length p \<Longrightarrow> j = i + length x \<Longrightarrow> slice (p @ x @ s) i j = x"
  by (simp add: slice_def)

lemma length_slice [simp]: "e \<le> length b \<Longrightarrow> length (slice b s e) = e - s"
  by (simp add: slice_def)

lemma slice_drop: "slice (drop n b) s e = slice b (n + s) (n + e)"
  by (simp add: slice_def add.commute)

lemma map_option_add_0 [simp]: "map_option ((+) (0::nat)) x = x"
  by (cases x) auto

lemma take_length_append: "n = length p \<Longrightarrow> take n (p @ s) = p"
  by simp

end
