(* ===== verification/Scanner.thy ===== *)
theory Scanner
  imports Prelude
begin

text \<open>
  The hand-rolled JSON scanner of \<open>src/routing.go\<close> (\<open>scanWS\<close>, \<open>scanStringBody\<close>, \<open>isHex\<close>,
  \<open>scanValue\<close>, \<open>scanContainer\<close>, \<open>scanNumber\<close>) and \<open>isJSONSpace\<close> of \<open>src/events.go\<close>. Each
  function keeps the code's offset interface: it takes the buffer and the offset of the next
  byte and returns the offset just past what it consumed; the code's \<open>(_, false)\<close> results are
  \<open>None\<close>. A byte is only ever read below an explicit length check, as in the code.
\<close>

section \<open>Whitespace and strings\<close>

definition isJSONSpace :: "char \<Rightarrow> bool" where
  "isJSONSpace c \<longleftrightarrow> c = CHR '' '' \<or> c = CHR 0x09 \<or> c = CHR 0x0D \<or> c = CHR 0x0A"

function scanWS :: "bytes \<Rightarrow> nat \<Rightarrow> nat" where
  "scanWS b i =
     (if i < length b then
        (let c = b ! i in
         if c = CHR '' '' \<or> c = CHR 0x09 \<or> c = CHR 0x0A \<or> c = CHR 0x0D
         then scanWS b (i + 1) else i)
      else i)"
  by pat_completeness auto
termination by (relation "measure (\<lambda>(b, i). length b - i)") auto

definition isHex :: "char \<Rightarrow> bool" where
  "isHex c \<longleftrightarrow>
     (byte_val CHR ''0'' \<le> byte_val c \<and> byte_val c \<le> byte_val CHR ''9'') \<or>
     (byte_val CHR ''a'' \<le> byte_val c \<and> byte_val c \<le> byte_val CHR ''f'') \<or>
     (byte_val CHR ''A'' \<le> byte_val c \<and> byte_val c \<le> byte_val CHR ''F'')"

function scanStringBody :: "bytes \<Rightarrow> nat \<Rightarrow> nat option" where
  "scanStringBody b i =
     (if i < length b then
        (let c = b ! i in
         if c = dquote then Some i
         else if c = backslash then
           (if i + 1 \<ge> length b then None
            else if b ! (i + 1) = CHR ''u'' then
              (if i + 6 > length b then None
               else if \<not> list_all (\<lambda>k. isHex (b ! k)) [i + 2 ..< i + 6] then None
               else scanStringBody b (i + 6))
            else scanStringBody b (i + 2))
         else if byte_val c < 0x20 then None
         else scanStringBody b (i + 1))
      else None)"
  by pat_completeness auto
termination by (relation "measure (\<lambda>(b, i). length b - i)") auto

declare scanWS.simps [simp del] scanStringBody.simps [simp del]

lemma scanStringBody_bounds:
  "scanStringBody b i = Some j \<Longrightarrow> i \<le> j \<and> j < length b \<and> b ! j = dquote"
proof (induction "length b - i" arbitrary: i rule: less_induct)
  case less
  have IH: "k \<le> j \<and> j < length b \<and> b ! j = dquote"
    if "scanStringBody b k = Some j" and "i < k" and "i < length b" for k
    using that by (intro less.hyps) auto
  from less.prems show ?case
    by (subst (asm) scanStringBody.simps) (auto simp: Let_def split: if_splits dest!: IH)
qed

section \<open>Numbers\<close>

definition isDigit :: "char \<Rightarrow> bool" where
  "isDigit c \<longleftrightarrow> byte_val CHR ''0'' \<le> byte_val c \<and> byte_val c \<le> byte_val CHR ''9''"

text \<open>The digit loop that \<open>scanNumber\<close> repeats three times.\<close>

function scanDigits :: "bytes \<Rightarrow> nat \<Rightarrow> nat" where
  "scanDigits b i = (if i < length b \<and> isDigit (b ! i) then scanDigits b (i + 1) else i)"
  by pat_completeness auto
termination by (relation "measure (\<lambda>(b, i). length b - i)") auto

declare scanDigits.simps [simp del]

text \<open>The three parts of \<open>scanNumber\<close>: integer part, optional fraction, optional exponent.\<close>

definition scanIntPart :: "bytes \<Rightarrow> nat \<Rightarrow> nat option" where
  "scanIntPart b i =
     (if i \<ge> length b then None
      else if b ! i = CHR ''0'' then Some (i + 1)
      else if byte_val CHR ''1'' \<le> byte_val (b ! i) \<and> byte_val (b ! i) \<le> byte_val CHR ''9''
      then Some (scanDigits b i)
      else None)"

definition scanFrac :: "bytes \<Rightarrow> nat \<Rightarrow> nat option" where
  "scanFrac b i =
     (if i < length b \<and> b ! i = CHR ''.'' then
        (if i + 1 \<ge> length b \<or> \<not> isDigit (b ! (i + 1)) then None
         else Some (scanDigits b (i + 1)))
      else Some i)"

definition scanExp :: "bytes \<Rightarrow> nat \<Rightarrow> nat option" where
  "scanExp b i =
     (if i < length b \<and> (b ! i = CHR ''e'' \<or> b ! i = CHR ''E'') then
        (let k = i + 1;
             k' = (if k < length b \<and> (b ! k = CHR ''+'' \<or> b ! k = CHR ''-'') then k + 1 else k)
         in if k' \<ge> length b \<or> \<not> isDigit (b ! k') then None else Some (scanDigits b k'))
      else Some i)"

definition scanNumber :: "bytes \<Rightarrow> nat \<Rightarrow> nat option" where
  "scanNumber b start =
     (let i = (if start < length b \<and> b ! start = CHR ''-'' then start + 1 else start) in
      case scanIntPart b i of
        None \<Rightarrow> None
      | Some i1 \<Rightarrow>
          (case scanFrac b i1 of
             None \<Rightarrow> None
           | Some i2 \<Rightarrow>
               (case scanExp b i2 of
                  None \<Rightarrow> None
                | Some i3 \<Rightarrow> (if i3 = start then None else Some i3))))"

section \<open>Containers\<close>

definition maxScanDepth :: nat where "maxScanDepth = 256"

text \<open>
  The bracket stack of \<open>scanContainer\<close>: a fixed array \<open>stack\<close> with its \<open>depth\<close>. The list holds
  the live part of the array, innermost bracket first, so \<open>depth\<close> is its length.
\<close>

definition push :: "char \<Rightarrow> char list \<Rightarrow> char list option" where
  "push open stack = (if length stack \<ge> maxScanDepth then None else Some (open # stack))"

definition pop :: "char \<Rightarrow> char list \<Rightarrow> char list option" where
  "pop close stack =
     (case stack of
        [] \<Rightarrow> None
      | open # rest \<Rightarrow>
          (let want = (if open = CHR ''['' then CHR '']'' else CHR ''}'')
           in if want = close then Some rest else None))"

function containerLoop :: "bytes \<Rightarrow> nat \<Rightarrow> char list \<Rightarrow> nat option" where
  "containerLoop b i stack =
     (if i < length b \<and> stack \<noteq> [] then
        (let c = b ! i in
         if c = dquote then
           (case scanStringBody b (i + 1) of
              None \<Rightarrow> None
            | Some cq \<Rightarrow> containerLoop b (cq + 1) stack)
         else if c = CHR ''{'' \<or> c = CHR ''['' then
           (case push c stack of None \<Rightarrow> None | Some st \<Rightarrow> containerLoop b (i + 1) st)
         else if c = CHR ''}'' \<or> c = CHR '']'' then
           (case pop c stack of None \<Rightarrow> None | Some st \<Rightarrow> containerLoop b (i + 1) st)
         else containerLoop b (i + 1) stack)
      else if stack \<noteq> [] then None else Some i)"
  by pat_completeness auto
termination
  by (relation "measure (\<lambda>(b, i, st). length b - i)") (auto dest: scanStringBody_bounds)

declare containerLoop.simps [simp del]

definition scanContainer :: "bytes \<Rightarrow> nat \<Rightarrow> nat option" where
  "scanContainer b i =
     (case push (b ! i) [] of None \<Rightarrow> None | Some st \<Rightarrow> containerLoop b (i + 1) st)"

section \<open>Values\<close>

datatype valueKind =
  kindUnknown | kindString | kindNumber | kindObject | kindArray | kindTrue | kindFalse | kindNull

definition scanValue :: "bytes \<Rightarrow> nat \<Rightarrow> (nat \<times> valueKind) option" where
  "scanValue b i =
     (if i \<ge> length b then None
      else if b ! i = dquote then
        map_option (\<lambda>cq. (cq + 1, kindString)) (scanStringBody b (i + 1))
      else if b ! i = CHR ''{'' \<or> b ! i = CHR ''['' then
        map_option (\<lambda>e. (e, if b ! i = CHR ''['' then kindArray else kindObject))
          (scanContainer b i)
      else if b ! i = CHR ''t'' then
        (if i + 4 \<le> length b \<and> slice b i (i + 4) = ''true'' then Some (i + 4, kindTrue) else None)
      else if b ! i = CHR ''f'' then
        (if i + 5 \<le> length b \<and> slice b i (i + 5) = ''false'' then Some (i + 5, kindFalse) else None)
      else if b ! i = CHR ''n'' then
        (if i + 4 \<le> length b \<and> slice b i (i + 4) = ''null'' then Some (i + 4, kindNull) else None)
      else map_option (\<lambda>e. (e, kindNumber)) (scanNumber b i))"

end
