(* ===== verification/Scanner_Spec.thy ===== *)
theory Scanner_Spec
  imports Scanner
begin

text \<open>
  Reference definitions for the scanner, by structural recursion on the bytes that remain:
  each returns how many bytes the token takes. The offset functions of \<open>Scanner\<close> are proved
  equal to them, which gives three facts every client needs and which the locale
  \<open>suffix_scanner\<close> derives once: the result lies inside the buffer, the scan does not depend on
  what precedes the offset, and it depends on what follows the token only as far as the token's
  end condition says.
\<close>

section \<open>The interface: scanners determined by the suffix\<close>

locale suffix_scanner =
  fixes scan :: "bytes \<Rightarrow> nat \<Rightarrow> nat option"
    and len :: "bytes \<Rightarrow> nat option"
    and boundary :: "bytes \<Rightarrow> bool"
  assumes scan_len: "i \<le> length b \<Longrightarrow> scan b i = map_option ((+) i) (len (drop i b))"
    and len_le: "len xs = Some n \<Longrightarrow> n \<le> length xs"
    and len_local: "len xs = Some n \<Longrightarrow> boundary ys \<Longrightarrow> len (take n xs @ ys) = Some n"
begin

lemma scan_bounds:
  assumes "scan b i = Some j" and "i \<le> length b"
  shows "i \<le> j" and "j \<le> length b"
  using assms by (auto simp: scan_len dest: len_le)

lemma scan_shift:
  "i \<le> length s \<Longrightarrow> scan (p @ s) (length p + i) = map_option ((+) (length p)) (scan s i)"
  by (cases "len (drop i s)") (simp_all add: scan_len)

lemma scan_replace_tail:
  assumes "scan (p @ x @ s) (length p) = Some (length p + length x)" and "boundary t"
  shows "scan (q @ x @ t) (length q) = Some (length q + length x)"
proof -
  have "len (x @ s) = Some (length x)"
    using assms(1) by (auto simp: scan_len)
  from len_local [OF this assms(2)] show ?thesis
    by (simp add: scan_len)
qed

lemma len_of_scan:
  "scan b i = Some j \<Longrightarrow> i \<le> length b \<Longrightarrow> len (drop i b) = Some (j - i)"
  by (auto simp: scan_len)

end

section \<open>Strings\<close>

fun str_len :: "bytes \<Rightarrow> nat option" where
  "str_len [] = None"
| "str_len (c # cs) =
     (if c = dquote then Some 0
      else if c = backslash then
        (case cs of
           [] \<Rightarrow> None
         | d # ds \<Rightarrow>
             (if d = CHR ''u'' then
                (case ds of
                   h1 # h2 # h3 # h4 # rest \<Rightarrow>
                     (if isHex h1 \<and> isHex h2 \<and> isHex h3 \<and> isHex h4
                      then map_option ((+) 6) (str_len rest) else None)
                 | _ \<Rightarrow> None)
              else map_option ((+) 2) (str_len ds)))
      else if byte_val c < 0x20 then None
      else map_option Suc (str_len cs))"

lemma hex4_drop:
  "list_all (\<lambda>k. isHex (b ! k)) [Suc (Suc i) ..< i + 6] \<longleftrightarrow>
    isHex (b ! Suc (Suc i)) \<and> isHex (b ! (i + 3)) \<and> isHex (b ! (i + 4)) \<and> isHex (b ! (i + 5))"
proof -
  have "[Suc (Suc i) ..< i + 6] = [Suc (Suc i), i + 3, i + 4, i + 5]"
    by (simp add: upt_rec)
  then show ?thesis by simp
qed

lemma drop_unfold6:
  assumes "i + 6 \<le> length b"
  shows "drop i b = b ! i # b ! (i + 1) # b ! (i + 2) # b ! (i + 3) # b ! (i + 4) # b ! (i + 5)
     # drop (i + 6) b"
  using assms by (simp add: drop_eq_Cons eval_nat_numeral)

lemma drop_unfold2:
  "i + 2 \<le> length b \<Longrightarrow> drop i b = b ! i # b ! (i + 1) # drop (i + 2) b"
  by (simp add: drop_eq_Cons)

lemma short_no_hex4:
  "length ds < 4 \<Longrightarrow>
   (case ds of h1 # h2 # h3 # h4 # rest \<Rightarrow> f h1 h2 h3 h4 rest | _ \<Rightarrow> None) = None"
  by (auto split: list.splits)

lemma map_option_add_comp:
  "map_option ((+) (i::nat)) (map_option ((+) k) x) = map_option ((+) (i + k)) x"
  by (cases x) auto

lemma map_option_add_Suc:
  "map_option ((+) (i::nat)) (map_option Suc x) = map_option ((+) (Suc i)) x"
  by (cases x) auto

lemma scanStringBody_len:
  "scanStringBody b i = map_option ((+) i) (str_len (drop i b))"
proof (induction "length b - i" arbitrary: i rule: less_induct)
  case less
  have IH: "scanStringBody b k = map_option ((+) k) (str_len (drop k b))"
    if "i < k" and "i < length b" for k
    using that by (intro less.hyps) auto
  show ?case
  proof (cases "i < length b")
    case False
    then show ?thesis by (subst scanStringBody.simps) simp
  next
    case True
    note D1 = drop_eq_Cons [OF True]
    consider (plain) "b ! i \<noteq> backslash" | (last) "b ! i = backslash" "i + 1 \<ge> length b"
      | (hex) "b ! i = backslash" "i + 1 < length b" "b ! (i + 1) = CHR ''u''" "i + 6 \<le> length b"
      | (hexshort) "b ! i = backslash" "i + 1 < length b" "b ! (i + 1) = CHR ''u''" "i + 6 > length b"
      | (esc) "b ! i = backslash" "i + 1 < length b" "b ! (i + 1) \<noteq> CHR ''u''"
      by linarith
    then show ?thesis
    proof cases
      case plain
      then show ?thesis using True
        by (subst scanStringBody.simps) (simp add: Let_def D1 IH map_option_add_Suc)
    next
      case last
      then show ?thesis using True
        by (subst scanStringBody.simps) (simp add: Let_def D1)
    next
      case hex
      then show ?thesis using True
        by (subst scanStringBody.simps)
           (simp add: Let_def hex4_drop drop_unfold6 IH map_option_add_comp)
    next
      case hexshort
      then have S: "length (drop (Suc (Suc i)) b) < 4" by simp
      have "str_len (drop i b) = None"
        using hexshort by (simp add: drop_unfold2 short_no_hex4 [OF S])
      then show ?thesis using hexshort True
        by (subst scanStringBody.simps) (simp add: Let_def)
    next
      case esc
      then show ?thesis using True
        by (subst scanStringBody.simps)
           (simp add: Let_def drop_unfold2 IH map_option_add_comp)
    qed
  qed
qed

lemma str_len_quote:
  "str_len xs = Some n \<Longrightarrow> n < length xs \<and> xs ! n = dquote"
  by (induction xs arbitrary: n rule: str_len.induct)
     (auto split: if_splits list.splits simp: nth_Cons' Suc_diff_Suc)

lemma str_len_local:
  "str_len xs = Some n \<Longrightarrow> str_len (take n xs @ dquote # ys) = Some n"
  by (induction xs arbitrary: n rule: str_len.induct)
     (auto split: if_splits list.splits simp: eval_nat_numeral)

lemma str_len_min: "str_len xs = Some n \<Longrightarrow> n \<le> length xs"
  using str_len_quote by fastforce

text \<open>A string scan stops at its own closing quote, whatever follows it.\<close>

interpretation str: suffix_scanner
  scanStringBody str_len "\<lambda>ys. \<exists>zs. ys = dquote # zs"
  by unfold_locales (auto simp: scanStringBody_len str_len_min str_len_local)

section \<open>Whitespace and digits\<close>

definition stops :: "(char \<Rightarrow> bool) \<Rightarrow> bytes \<Rightarrow> bool" where
  "stops P ys \<longleftrightarrow> (case ys of [] \<Rightarrow> True | y # _ \<Rightarrow> \<not> P y)"

lemma stops_simps [simp]: "stops P []" "stops P (y # ys) \<longleftrightarrow> \<not> P y"
  by (simp_all add: stops_def)

definition span_len :: "(char \<Rightarrow> bool) \<Rightarrow> bytes \<Rightarrow> nat" where
  "span_len P xs = length (takeWhile P xs)"

lemma span_len_simps [simp]:
  "span_len P [] = 0" "span_len P (x # xs) = (if P x then Suc (span_len P xs) else 0)"
  by (simp_all add: span_len_def)

lemma span_len_le: "span_len P xs \<le> length xs"
  by (simp add: span_len_def length_takeWhile_le)

lemma span_len_append_all: "list_all P xs \<Longrightarrow> span_len P (xs @ ys) = length xs + span_len P ys"
  by (induction xs) auto

lemma span_len_stops: "stops P ys \<Longrightarrow> span_len P ys = 0"
  by (cases ys) auto

lemma take_span_all: "list_all P (take (span_len P xs) xs)"
  by (induction xs) auto

lemma drop_span_stops: "stops P (drop (span_len P xs) xs)"
  by (induction xs) auto

lemma span_len_local: "stops P ys \<Longrightarrow> span_len P (take (span_len P xs) xs @ ys) = span_len P xs"
  by (simp add: span_len_append_all take_span_all span_len_stops span_len_le min_absorb2)

lemma scanWS_len: "scanWS b i = i + span_len isJSONSpace (drop i b)"
proof (induction "length b - i" arbitrary: i rule: less_induct)
  case less
  have IH: "scanWS b (Suc i) = Suc i + span_len isJSONSpace (drop (Suc i) b)" if "i < length b"
    using that by (intro less.hyps) auto
  show ?case
  proof (cases "i < length b")
    case True
    then show ?thesis
      by (subst scanWS.simps) (auto simp: Let_def drop_eq_Cons isJSONSpace_def IH)
  qed (subst scanWS.simps, simp)
qed

lemma scanDigits_len: "scanDigits b i = i + span_len isDigit (drop i b)"
proof (induction "length b - i" arbitrary: i rule: less_induct)
  case less
  have IH: "scanDigits b (Suc i) = Suc i + span_len isDigit (drop (Suc i) b)" if "i < length b"
    using that by (intro less.hyps) auto
  show ?case
  proof (cases "i < length b")
    case True
    then show ?thesis by (subst scanDigits.simps) (simp add: drop_eq_Cons IH)
  qed (subst scanDigits.simps, simp)
qed

section \<open>Numbers\<close>

definition nonzeroDigit :: "char \<Rightarrow> bool" where
  "nonzeroDigit c \<longleftrightarrow> byte_val CHR ''1'' \<le> byte_val c \<and> byte_val c \<le> byte_val CHR ''9''"

fun int_len :: "bytes \<Rightarrow> nat option" where
  "int_len [] = None"
| "int_len (c # cs) =
     (if c = CHR ''0'' then Some 1
      else if nonzeroDigit c then Some (span_len isDigit (c # cs)) else None)"

fun frac_len :: "bytes \<Rightarrow> nat option" where
  "frac_len [] = Some 0"
| "frac_len (c # cs) =
     (if c = CHR ''.''
      then (if stops isDigit cs \<or> cs = [] then None else Some (Suc (span_len isDigit cs)))
      else Some 0)"

definition sign_len :: "bytes \<Rightarrow> nat" where
  "sign_len xs = (case xs of [] \<Rightarrow> 0 | c # _ \<Rightarrow> if c = CHR ''+'' \<or> c = CHR ''-'' then 1 else 0)"

fun exp_len :: "bytes \<Rightarrow> nat option" where
  "exp_len [] = Some 0"
| "exp_len (c # cs) =
     (if c = CHR ''e'' \<or> c = CHR ''E''
      then (let ds = drop (sign_len cs) cs
            in if stops isDigit ds \<or> ds = [] then None
               else Some (Suc (sign_len cs) + span_len isDigit ds))
      else Some 0)"

definition minus_len :: "bytes \<Rightarrow> nat" where
  "minus_len xs = (case xs of [] \<Rightarrow> 0 | c # _ \<Rightarrow> if c = CHR ''-'' then 1 else 0)"

definition num_len :: "bytes \<Rightarrow> nat option" where
  "num_len xs =
     (let m = minus_len xs in
      case int_len (drop m xs) of
        None \<Rightarrow> None
      | Some n1 \<Rightarrow>
          (case frac_len (drop (m + n1) xs) of
             None \<Rightarrow> None
           | Some n2 \<Rightarrow>
               (case exp_len (drop (m + n1 + n2) xs) of
                  None \<Rightarrow> None
                | Some n3 \<Rightarrow> Some (m + n1 + n2 + n3))))"

lemma nonzeroDigit_isDigit: "nonzeroDigit c \<Longrightarrow> isDigit c"
  by (simp add: nonzeroDigit_def isDigit_def)

lemma scanIntPart_len: "scanIntPart b i = map_option ((+) i) (int_len (drop i b))"
proof (cases "i < length b")
  case True
  then show ?thesis
    by (auto simp: scanIntPart_def drop_eq_Cons nonzeroDigit_def scanDigits_len)
qed (simp add: scanIntPart_def)

lemma stops_drop:
  "stops P (drop i b) \<or> drop i b = [] \<longleftrightarrow> length b \<le> i \<or> \<not> P (b ! i)"
  by (cases "i < length b") (auto simp: drop_eq_Cons)

lemma scanFrac_len: "scanFrac b i = map_option ((+) i) (frac_len (drop i b))"
proof (cases "i < length b")
  case True
  show ?thesis
    using stops_drop [of isDigit "Suc i" b] True
    by (auto simp: scanFrac_def drop_eq_Cons scanDigits_len simp del: drop_eq_Nil)
qed (simp add: scanFrac_def)

lemma scanExp_len: "scanExp b i = map_option ((+) i) (exp_len (drop i b))"
proof (cases "i < length b")
  case True
  let ?k = "Suc i"
  have sign: "sign_len (drop ?k b) =
      (if ?k < length b \<and> (b ! ?k = CHR ''+'' \<or> b ! ?k = CHR ''-'') then 1 else 0)"
    by (cases "?k < length b") (simp_all add: sign_len_def drop_eq_Cons)
  show ?thesis
    using stops_drop [of isDigit "?k" b] stops_drop [of isDigit "Suc ?k" b] True
    by (auto simp: scanExp_def drop_eq_Cons [OF True] scanDigits_len sign Let_def
        simp del: drop_eq_Nil)
qed (simp add: scanExp_def)

lemma int_len_pos: "int_len xs = Some n \<Longrightarrow> 0 < n \<and> n \<le> length xs"
  by (cases xs) (auto split: if_splits simp: nonzeroDigit_isDigit span_len_le)

lemma frac_len_le: "frac_len xs = Some n \<Longrightarrow> n \<le> length xs"
  by (cases xs) (auto split: if_splits simp: span_len_le)

lemma sign_len_le: "sign_len xs \<le> length xs"
  by (simp add: sign_len_def split: list.split)

lemma exp_len_le: "exp_len xs = Some n \<Longrightarrow> n \<le> length xs"
proof (cases xs)
  case (Cons c cs)
  moreover assume "exp_len xs = Some n"
  ultimately show ?thesis
    using span_len_le [of isDigit "drop (sign_len cs) cs"] sign_len_le [of cs]
    by (auto split: if_splits simp: Let_def)
qed simp

lemma scanNumber_len: "scanNumber b i = map_option ((+) i) (num_len (drop i b))"
proof -
  have m: "(if i < length b \<and> b ! i = CHR ''-'' then i + 1 else i) = i + minus_len (drop i b)"
    by (cases "i < length b") (simp_all add: minus_len_def drop_eq_Cons)
  show ?thesis
    unfolding scanNumber_def num_len_def m Let_def
    by (auto simp: scanIntPart_len scanFrac_len scanExp_len add.commute add.left_commute
        split: option.splits dest!: int_len_pos)
qed

text \<open>What may follow a number without being read as part of it.\<close>

definition num_boundary :: "bytes \<Rightarrow> bool" where
  "num_boundary ys \<longleftrightarrow> stops (\<lambda>c. isDigit c \<or> c = CHR ''.'' \<or> c = CHR ''e'' \<or> c = CHR ''E'') ys"

lemma num_boundary_simps [simp]:
  "num_boundary []"
  "num_boundary (y # ys) \<longleftrightarrow> \<not> isDigit y \<and> y \<noteq> CHR ''.'' \<and> y \<noteq> CHR ''e'' \<and> y \<noteq> CHR ''E''"
  by (simp_all add: num_boundary_def)

lemma int_len_local:
  assumes "int_len xs = Some n" and "stops isDigit ys"
  shows "int_len (take n xs @ ys) = Some n"
proof (cases xs)
  case (Cons c cs)
  have "take (Suc (span_len isDigit cs)) (c # cs) @ ys = c # take (span_len isDigit cs) cs @ ys"
    by simp
  with assms Cons show ?thesis
    by (auto split: if_splits simp: span_len_local nonzeroDigit_isDigit)
qed (use assms in simp)

lemma stops_take_span:
  "\<not> stops P xs \<Longrightarrow> \<exists>z zs. take (span_len P xs) xs = z # zs \<and> P z"
  by (cases xs) auto

lemma frac_len_local:
  assumes "frac_len xs = Some n" and "stops (\<lambda>c. isDigit c \<or> c = CHR ''.'') ys"
  shows "frac_len (take n xs @ ys) = Some n"
proof (cases "\<exists>cs. xs = CHR ''.'' # cs")
  case True
  then obtain cs where xs: "xs = CHR ''.'' # cs" by blast
  with assms have n: "n = Suc (span_len isDigit cs)" and cs: "\<not> stops isDigit cs"
    by (auto split: if_splits)
  have ys: "stops isDigit ys"
    using assms(2) by (cases ys) auto
  obtain z zs where z: "take (span_len isDigit cs) cs = z # zs" "isDigit z"
    using stops_take_span [OF cs] by blast
  show ?thesis
    using span_len_local [OF ys, of cs] z by (simp add: xs n)
next
  case False
  with assms(1) have "n = 0" by (cases xs) (auto split: if_splits)
  with assms(2) show ?thesis by (cases ys) auto
qed

lemma exp_len_local:
  assumes "exp_len xs = Some n" and "stops (\<lambda>c. isDigit c \<or> c = CHR ''e'' \<or> c = CHR ''E'') ys"
  shows "exp_len (take n xs @ ys) = Some n"
proof (cases "\<exists>c cs. xs = c # cs \<and> (c = CHR ''e'' \<or> c = CHR ''E'')")
  case True
  then obtain c cs where xs: "xs = c # cs" and c: "c = CHR ''e'' \<or> c = CHR ''E''" by blast
  let ?s = "sign_len cs" let ?ds = "drop ?s cs"
  from assms xs c have n: "n = Suc (?s + span_len isDigit ?ds)" and ds: "\<not> stops isDigit ?ds"
    by (auto split: if_splits simp: Let_def)
  have ys: "stops isDigit ys"
    using assms(2) by (cases ys) auto
  obtain z zs where z: "take (span_len isDigit ?ds) ?ds = z # zs" "isDigit z"
    using stops_take_span [OF ds] by blast
  have t: "take n xs @ ys = c # take ?s cs @ (z # zs @ ys)"
    using z by (simp add: xs n take_add)
  have "z \<noteq> CHR ''+'' \<and> z \<noteq> CHR ''-''"
    using z(2) by (auto simp: isDigit_def)
  then have s: "sign_len (take ?s cs @ (z # zs @ ys)) = ?s"
    by (cases cs) (auto simp: sign_len_def)
  show ?thesis
    unfolding t using span_len_local [OF ys, of ?ds] z c
    by (simp add: s n Let_def sign_len_le min_absorb2)
next
  case False
  with assms(1) have "n = 0" by (cases xs) (auto split: if_splits)
  with assms(2) show ?thesis by (cases ys) auto
qed

lemma exp_start_stops:
  "exp_len xs = Some n \<Longrightarrow> num_boundary ys \<Longrightarrow>
   stops (\<lambda>c. isDigit c \<or> c = CHR ''.'') (take n xs @ ys)"
  by (cases xs; cases ys) (auto split: if_splits simp: isDigit_def Let_def)

lemma frac_start_stops:
  "frac_len xs = Some n \<Longrightarrow> stops isDigit zs \<Longrightarrow> stops isDigit (take n xs @ zs)"
  by (cases xs) (auto split: if_splits simp: isDigit_def)

lemma minus_len_le: "minus_len xs \<le> length xs"
  by (simp add: minus_len_def split: list.split)

lemma minus_len_local:
  "int_len (drop (minus_len xs) xs @ []) = Some n \<Longrightarrow> 0 < k \<Longrightarrow>
   minus_len (take (minus_len xs + k) xs @ ys) = minus_len xs"
  by (cases xs) (auto simp: minus_len_def take_Cons')

lemma stops_mono: "stops P ys \<Longrightarrow> (\<And>c. Q c \<Longrightarrow> P c) \<Longrightarrow> stops Q ys"
  by (cases ys) auto

lemma take_drop_split:
  "take (a + b) xs = take a xs @ take b (drop a xs)"
  by (simp add: take_add)

lemma num_len_local:
  assumes "num_len xs = Some n" and ys: "num_boundary ys"
  shows "num_len (take n xs @ ys) = Some n"
proof -
  let ?m = "minus_len xs"
  from assms(1) obtain n1 n2 n3 where
    n1: "int_len (drop ?m xs) = Some n1" and n2: "frac_len (drop (?m + n1) xs) = Some n2"
    and n3: "exp_len (drop (?m + n1 + n2) xs) = Some n3" and n: "n = ?m + n1 + n2 + n3"
    by (auto simp: num_len_def Let_def split: option.splits)
  let ?z3 = "take n3 (drop (?m + n1 + n2) xs) @ ys"
  let ?z2 = "take n2 (drop (?m + n1) xs) @ ?z3"
  let ?z1 = "take n1 (drop ?m xs) @ ?z2"
  have z: "take n xs @ ys = take ?m xs @ ?z1"
    by (simp add: n take_add)
  have e: "exp_len ?z3 = Some n3"
    using n3 ys by (intro exp_len_local) (auto simp: num_boundary_def elim: stops_mono)
  have f: "frac_len ?z2 = Some n2"
    using n2 exp_start_stops [OF n3 ys] by (rule frac_len_local)
  have s2: "stops isDigit ?z2"
    using frac_start_stops [OF n2 stops_mono [OF exp_start_stops [OF n3 ys]]] by simp
  have i: "int_len ?z1 = Some n1"
    using n1 s2 by (rule int_len_local)
  have m: "minus_len (take ?m xs @ ?z1) = ?m"
    using minus_len_local [of xs n1 "n1 + n2 + n3" ys] int_len_pos [OF n1] n1 z
    by (simp add: n add.assoc)
  have l: "length (take ?m xs) = ?m" "length (take n1 (drop ?m xs)) = n1"
    "length (take n2 (drop (?m + n1) xs)) = n2"
    using int_len_pos [OF n1] frac_len_le [OF n2] minus_len_le [of xs] by auto
  have d: "drop ?m (take ?m xs @ ?z1) = ?z1" "drop (?m + n1) (take ?m xs @ ?z1) = ?z2"
    "drop (?m + n1 + n2) (take ?m xs @ ?z1) = ?z3"
    using l by simp_all
  have "num_len (take ?m xs @ ?z1) = Some n"
    unfolding num_len_def m Let_def d i option.case f e n ..
  then show ?thesis
    by (simp only: z)
qed

lemma num_len_le: "num_len xs = Some n \<Longrightarrow> 0 < n \<and> n \<le> length xs"
  by (auto simp: num_len_def Let_def split: option.splits
      dest!: int_len_pos frac_len_le exp_len_le)

interpretation num: suffix_scanner scanNumber num_len num_boundary
  by unfold_locales (auto simp: scanNumber_len num_len_local dest: num_len_le)

section \<open>Containers\<close>

function cont_len :: "char list \<Rightarrow> bytes \<Rightarrow> nat option" where
  "cont_len st xs =
     (if st = [] then Some 0
      else case xs of
        [] \<Rightarrow> None
      | c # cs \<Rightarrow>
          if c = dquote then
            (case str_len cs of
               None \<Rightarrow> None
             | Some n \<Rightarrow> map_option ((+) (n + 2)) (cont_len st (drop (Suc n) cs)))
          else if c = CHR ''{'' \<or> c = CHR ''['' then
            (case push c st of None \<Rightarrow> None | Some st' \<Rightarrow> map_option Suc (cont_len st' cs))
          else if c = CHR ''}'' \<or> c = CHR '']'' then
            (case pop c st of None \<Rightarrow> None | Some st' \<Rightarrow> map_option Suc (cont_len st' cs))
          else map_option Suc (cont_len st cs))"
  by pat_completeness auto
termination by (relation "measure (\<lambda>(st, xs). length xs)") auto

declare cont_len.simps [simp del]

lemma cont_len_Nil [simp]: "cont_len [] xs = Some 0" "st \<noteq> [] \<Longrightarrow> cont_len st [] = None"
  by (simp_all add: cont_len.simps)

lemma containerLoop_len:
  "containerLoop b i st = map_option ((+) i) (cont_len st (drop i b))"
proof (induction "length b - i" arbitrary: i st rule: less_induct)
  case less
  have IH: "containerLoop b k st' = map_option ((+) k) (cont_len st' (drop k b))"
    if "i < k" and "i < length b" for k st'
    using that by (intro less.hyps) auto
  show ?case
  proof (cases "i < length b \<and> st \<noteq> []")
    case True
    then show ?thesis
      by (subst containerLoop.simps, subst cont_len.simps)
         (auto simp: Let_def drop_eq_Cons [of i b] IH map_option_add_comp map_option_add_Suc
           scanStringBody_len add.commute split: option.splits)
  next
    case False
    then show ?thesis
      by (subst containerLoop.simps, subst cont_len.simps) auto
  qed
qed

lemma cont_len_Cons:
  "st \<noteq> [] \<Longrightarrow> cont_len st (c # cs) =
     (if c = dquote then
        Option.bind (str_len cs) (\<lambda>n. map_option ((+) (n + 2)) (cont_len st (drop (Suc n) cs)))
      else map_option Suc
        (Option.bind
          (if c = CHR ''{'' \<or> c = CHR ''['' then push c st
           else if c = CHR ''}'' \<or> c = CHR '']'' then pop c st else Some st)
          (\<lambda>st'. cont_len st' cs)))"
  by (subst cont_len.simps) (auto split: option.splits)

text \<open>
  Induction over a container scan: the rest of the bytes is either what follows a string or the
  tail, under whatever stack the bracket leaves.
\<close>

lemma cont_len_induct [consumes 1, case_names closed quote skip]:
  assumes "cont_len st xs = Some n"
    and "\<And>xs. P [] xs 0"
    and "\<And>st cs m k. st \<noteq> [] \<Longrightarrow> str_len cs = Some m \<Longrightarrow>
      cont_len st (drop (Suc m) cs) = Some k \<Longrightarrow> P st (drop (Suc m) cs) k \<Longrightarrow>
      P st (dquote # cs) (m + 2 + k)"
    and "\<And>st c cs st' k. st \<noteq> [] \<Longrightarrow> c \<noteq> dquote \<Longrightarrow>
      (if c = CHR ''{'' \<or> c = CHR ''['' then push c st
       else if c = CHR ''}'' \<or> c = CHR '']'' then pop c st else Some st) = Some st' \<Longrightarrow>
      cont_len st' cs = Some k \<Longrightarrow> P st' cs k \<Longrightarrow> P st (c # cs) (Suc k)"
  shows "P st xs n"
  using assms(1)
proof (induction "length xs" arbitrary: st xs n rule: less_induct)
  case less
  show ?case
  proof (cases "st = [] \<or> xs = []")
    case True
    with less.prems assms(2) show ?thesis by (cases "st = []") auto
  next
    case False
    then obtain c cs where xs: "xs = c # cs" by (cases xs) auto
    show ?thesis
    proof (cases "c = dquote")
      case True
      with less.prems False obtain m k where m: "str_len cs = Some m"
        and k: "cont_len st (drop (Suc m) cs) = Some k" and n: "n = m + 2 + k"
        by (auto simp: xs cont_len_Cons bind_eq_Some_conv)
      have "P st (drop (Suc m) cs) k"
        using k by (intro less.hyps) (simp_all add: xs)
      with assms(3) False m k show ?thesis by (simp add: xs True n)
    next
      case nq: False
      with less.prems False obtain st' k where
        st': "(if c = CHR ''{'' \<or> c = CHR ''['' then push c st
           else if c = CHR ''}'' \<or> c = CHR '']'' then pop c st else Some st) = Some st'"
        and k: "cont_len st' cs = Some k" and n: "n = Suc k"
        by (auto simp: xs cont_len_Cons bind_eq_Some_conv)
      have "P st' cs k"
        using k by (intro less.hyps) (simp_all add: xs)
      with assms(4) [OF _ nq st' k] False show ?thesis by (simp add: xs n)
    qed
  qed
qed

lemma cont_len_le: "cont_len st xs = Some n \<Longrightarrow> n \<le> length xs"
proof (induction rule: cont_len_induct)
  case (quote st cs m k)
  then show ?case using str_len_quote [of cs m] by auto
qed simp_all

lemma cont_len_local: "cont_len st xs = Some n \<Longrightarrow> cont_len st (take n xs @ ys) = Some n"
proof (induction rule: cont_len_induct)
  case (quote st cs m k)
  then have m: "m < length cs" "cs ! m = dquote"
    using str_len_quote by blast+
  have "take (Suc m + k) cs = take m cs @ dquote # take k (drop (Suc m) cs)"
    using m by (simp only: take_add) (simp add: take_Suc_conv_app_nth)
  then have split: "take (m + 2 + k) (dquote # cs) @ ys
      = dquote # take m cs @ dquote # (take k (drop (Suc m) cs) @ ys)"
    by simp
  show ?case
    unfolding split using quote str_len_local [OF quote(2)] m
    by (simp add: cont_len_Cons min_absorb2)
next
  case (skip st c cs st' k)
  then show ?case by (simp add: cont_len_Cons)
qed simp

interpretation container: suffix_scanner
  "\<lambda>b i. containerLoop b i st" "cont_len st" "\<lambda>ys. True" for st
  by unfold_locales (auto simp: containerLoop_len cont_len_local dest: cont_len_le)

section \<open>Values\<close>

fun val_scan :: "bytes \<Rightarrow> (nat \<times> valueKind) option" where
  "val_scan [] = None"
| "val_scan (c # cs) =
     (if c = dquote then map_option (\<lambda>n. (n + 2, kindString)) (str_len cs)
      else if c = CHR ''{'' \<or> c = CHR ''['' then
        map_option (\<lambda>n. (Suc n, if c = CHR ''['' then kindArray else kindObject)) (cont_len [c] cs)
      else if c = CHR ''t'' then
        (if take 4 (c # cs) = ''true'' then Some (4, kindTrue) else None)
      else if c = CHR ''f'' then
        (if take 5 (c # cs) = ''false'' then Some (5, kindFalse) else None)
      else if c = CHR ''n'' then
        (if take 4 (c # cs) = ''null'' then Some (4, kindNull) else None)
      else map_option (\<lambda>n. (n, kindNumber)) (num_len (c # cs)))"

abbreviation scanValueEnd :: "bytes \<Rightarrow> nat \<Rightarrow> nat option" where
  "scanValueEnd b i \<equiv> map_option fst (scanValue b i)"

abbreviation val_len :: "bytes \<Rightarrow> nat option" where
  "val_len xs \<equiv> map_option fst (val_scan xs)"

lemma slice_literal:
  assumes "length w = n" and "0 < n"
  shows "i + n \<le> length b \<and> slice b i (i + n) = w \<longleftrightarrow> take n (drop i b) = w"
proof -
  have "i + n \<le> length b" if "take n (drop i b) = w"
    using assms arg_cong [OF that, of length] by simp
  then show ?thesis by (auto simp: slice_def)
qed

lemma scanValue_len:
  "scanValue b i = map_option (\<lambda>(n, k). (i + n, k)) (val_scan (drop i b))"
proof (cases "i < length b")
  case True
  note D = drop_eq_Cons [OF True]
  have lits: "i + 4 \<le> length b \<and> slice b i (i + 4) = ''true'' \<longleftrightarrow> take 4 (drop i b) = ''true''"
    "i + 5 \<le> length b \<and> slice b i (i + 5) = ''false'' \<longleftrightarrow> take 5 (drop i b) = ''false''"
    "i + 4 \<le> length b \<and> slice b i (i + 4) = ''null'' \<longleftrightarrow> take 4 (drop i b) = ''null''"
    by (rule slice_literal; simp)+
  show ?thesis
    using True unfolding scanValue_def lits
    by (auto simp: D scanContainer_def push_def maxScanDepth_def containerLoop_len
        scanStringBody_len scanNumber_len option.map_comp comp_def simp del: take_Suc_Cons)
qed (simp add: scanValue_def)

lemma val_len_pos: "val_scan xs = Some (n, k) \<Longrightarrow> 0 < n \<and> n \<le> length xs"
proof (cases xs)
  case (Cons c cs)
  assume v: "val_scan xs = Some (n, k)"
  have lit: "m \<le> length cs" if "take m cs = w" and "length w = m" for m w
    using that by auto
  from v show ?thesis
    using lit [of 3 "''rue''"] lit [of 4 "''alse''"] lit [of 3 "''ull''"]
    by (auto simp: Cons split: if_splits dest: str_len_quote cont_len_le num_len_le)
qed simp

text \<open>A value keeps its extent and its kind when the bytes after it are replaced.\<close>

lemma val_scan_local:
  assumes "val_scan xs = Some (n, k)" and "num_boundary ys"
  shows "val_scan (take n xs @ ys) = Some (n, k)"
proof -
  from assms(1) obtain c cs where xs: "xs = c # cs" by (cases xs) auto
  from val_len_pos [OF assms(1)] obtain m where n: "n = Suc m" by (cases n) auto
  consider (string) "c = dquote" | (cont) "c = CHR ''{'' \<or> c = CHR ''[''"
    | (lit) "c = CHR ''t'' \<or> c = CHR ''f'' \<or> c = CHR ''n''"
    | (num) "c \<noteq> dquote" "c \<noteq> CHR ''{''" "c \<noteq> CHR ''[''" "c \<noteq> CHR ''t''" "c \<noteq> CHR ''f''" "c \<noteq> CHR ''n''"
    by blast
  then show ?thesis
  proof cases
    case string
    then obtain j where j: "str_len cs = Some j" "n = j + 2"
      using assms(1) by (auto simp: xs)
    then have "take n xs @ ys = dquote # take j cs @ dquote # ys"
      using str_len_quote [of cs j] string by (simp add: xs take_Suc_conv_app_nth)
    then show ?thesis
      using str_len_local [OF j(1)] assms(1) string j by (auto simp: xs)
  next
    case cont
    then show ?thesis
      using assms(1) cont_len_local [of "[c]" cs m ys] by (auto simp: xs n)
  next
    case lit
    then show ?thesis
      using assms(1) by (auto simp: xs split: if_splits)
  next
    case num
    then show ?thesis
      using assms num_len_local [of xs n ys] by (auto simp: xs n)
  qed
qed

interpretation val: suffix_scanner scanValueEnd val_len num_boundary
proof
  show "scanValueEnd b i = map_option ((+) i) (val_len (drop i b))" for b i
    by (simp add: scanValue_len option.map_comp comp_def case_prod_beta)
  show "val_len xs = Some n \<Longrightarrow> n \<le> length xs" for xs n
    by (auto dest: val_len_pos)
  show "val_len xs = Some n \<Longrightarrow> num_boundary ys \<Longrightarrow> val_len (take n xs @ ys) = Some n" for xs n ys
    by (auto dest: val_scan_local)
qed

section \<open>Properties\<close>

text \<open>What \<open>scanValue\<close> consumes lies inside the buffer, is not empty, and
  is a value by itself: cut out of the buffer it scans to its own end with the same kind.\<close>

theorem scanValue_self_contained:
  assumes "scanValue b i = Some (j, k)"
  shows "i < j \<and> j \<le> length b \<and> scanValue (slice b i j) 0 = Some (j - i, k)"
proof -
  from assms obtain n where n: "val_scan (drop i b) = Some (n, k)" and j: "j = i + n"
    by (auto simp: scanValue_len)
  have "val_scan (take n (drop i b)) = Some (n, k)"
    using val_scan_local [OF n, of "[]"] by simp
  then show ?thesis using val_len_pos [OF n] j by (auto simp: scanValue_len slice_def)
qed

theorem scanValue_self_contained_witness:
  "scanValue (slice ''{\"a\":[1,{}] }'' 5 11) 0 = Some (6, kindArray)"
proof -
  have "scanValue ''{\"a\":[1,{}] }'' 5 = Some (11, kindArray)" by code_simp
  from scanValue_self_contained [OF this] show ?thesis by simp
qed

end
