(* ===== verification/Json_Std.thy ===== *)
theory Json_Std
  imports Scanner_Spec
begin

text \<open>
  What the program uses of Go's \<open>encoding/json\<close>: validity of a text (\<open>json.Valid\<close>). The library
  decides it with a push-down automaton, one step function per byte over a stack of the enclosing
  containers; the model is that automaton, with the library's nesting limit. The lemmas of the last
  sections say that wherever the automaton accepts, the program's own scanner finds the same token
  ends, which is what the repository's differential fuzz tests sample.
\<close>

section \<open>The automaton of encoding/json\<close>

datatype jparse = ParseObjectKey | ParseObjectValue | ParseArrayValue

datatype jstate =
    BeginValueOrEmpty | BeginValue | BeginStringOrEmpty | BeginString | EndValue | EndTop
  | InString | InStringEsc | InStringU nat
  | Neg | Num1 | Num0 | Dot | Dot0 | NumE | NumESign | NumE0
  | InLit bytes

type_synonym jconf = "jstate \<times> jparse list"

definition maxNestingDepth :: nat where "maxNestingDepth = 10000"

definition j_end_value :: "jparse list \<Rightarrow> char \<Rightarrow> jconf option" where
  "j_end_value ps c =
     (case ps of
        [] \<Rightarrow> if isJSONSpace c then Some (EndTop, []) else None
      | p # ps' \<Rightarrow>
          if isJSONSpace c then Some (EndValue, ps)
          else
            (let popped = Some (if ps' = [] then EndTop else EndValue, ps') in
             case p of
               ParseObjectKey \<Rightarrow>
                 if c = CHR '':'' then Some (BeginValue, ParseObjectValue # ps') else None
             | ParseObjectValue \<Rightarrow>
                 if c = CHR '','' then Some (BeginString, ParseObjectKey # ps')
                 else if c = CHR ''}'' then popped else None
             | ParseArrayValue \<Rightarrow>
                 if c = CHR '','' then Some (BeginValue, ps)
                 else if c = CHR '']'' then popped else None))"

definition j_push :: "nat \<Rightarrow> jstate \<Rightarrow> jparse \<Rightarrow> jparse list \<Rightarrow> jconf option" where
  "j_push d s p ps = (if length (p # ps) \<le> d then Some (s, p # ps) else None)"

definition j_begin_value :: "nat \<Rightarrow> jstate \<Rightarrow> jparse list \<Rightarrow> char \<Rightarrow> jconf option" where
  "j_begin_value d self ps c =
     (if isJSONSpace c then Some (self, ps)
      else if c = CHR ''{'' then j_push d BeginStringOrEmpty ParseObjectKey ps
      else if c = CHR ''['' then j_push d BeginValueOrEmpty ParseArrayValue ps
      else if c = dquote then Some (InString, ps)
      else if c = CHR ''-'' then Some (Neg, ps)
      else if c = CHR ''0'' then Some (Num0, ps)
      else if c = CHR ''t'' then Some (InLit ''rue'', ps)
      else if c = CHR ''f'' then Some (InLit ''alse'', ps)
      else if c = CHR ''n'' then Some (InLit ''ull'', ps)
      else if nonzeroDigit c then Some (Num1, ps)
      else None)"

definition j_begin_string :: "jstate \<Rightarrow> jparse list \<Rightarrow> char \<Rightarrow> jconf option" where
  "j_begin_string self ps c =
     (if isJSONSpace c then Some (self, ps)
      else if c = dquote then Some (InString, ps) else None)"

definition j_num0 :: "jparse list \<Rightarrow> char \<Rightarrow> jconf option" where
  "j_num0 ps c =
     (if c = CHR ''.'' then Some (Dot, ps)
      else if c = CHR ''e'' \<or> c = CHR ''E'' then Some (NumE, ps)
      else j_end_value ps c)"

fun j_step :: "nat \<Rightarrow> jconf \<Rightarrow> char \<Rightarrow> jconf option" where
  "j_step d (BeginValueOrEmpty, ps) c =
     (if c = CHR '']'' then j_end_value ps c else j_begin_value d BeginValueOrEmpty ps c)"
| "j_step d (BeginValue, ps) c = j_begin_value d BeginValue ps c"
| "j_step d (BeginStringOrEmpty, ps) c =
     (if c = CHR ''}'' then j_end_value (ParseObjectValue # tl ps) c
      else j_begin_string BeginStringOrEmpty ps c)"
| "j_step d (BeginString, ps) c = j_begin_string BeginString ps c"
| "j_step d (EndValue, ps) c = j_end_value ps c"
| "j_step d (EndTop, ps) c = (if isJSONSpace c then Some (EndTop, ps) else None)"
| "j_step d (InString, ps) c =
     (if c = dquote then Some (EndValue, ps)
      else if c = backslash then Some (InStringEsc, ps)
      else if byte_val c < 0x20 then None
      else Some (InString, ps))"
| "j_step d (InStringEsc, ps) c =
     (if c = CHR ''u'' then Some (InStringU 4, ps)
      else if c \<in> set [CHR ''b'', CHR ''f'', CHR ''n'', CHR ''r'', CHR ''t'', backslash, CHR ''/'', dquote]
      then Some (InString, ps) else None)"
| "j_step d (InStringU n, ps) c =
     (if isHex c then Some (if n \<le> 1 then InString else InStringU (n - 1), ps) else None)"
| "j_step d (Neg, ps) c =
     (if c = CHR ''0'' then Some (Num0, ps)
      else if nonzeroDigit c then Some (Num1, ps) else None)"
| "j_step d (Num1, ps) c = (if isDigit c then Some (Num1, ps) else j_num0 ps c)"
| "j_step d (Num0, ps) c = j_num0 ps c"
| "j_step d (Dot, ps) c = (if isDigit c then Some (Dot0, ps) else None)"
| "j_step d (Dot0, ps) c =
     (if isDigit c then Some (Dot0, ps)
      else if c = CHR ''e'' \<or> c = CHR ''E'' then Some (NumE, ps)
      else j_end_value ps c)"
| "j_step d (NumE, ps) c =
     (if c = CHR ''+'' \<or> c = CHR ''-'' then Some (NumESign, ps)
      else if isDigit c then Some (NumE0, ps) else None)"
| "j_step d (NumESign, ps) c = (if isDigit c then Some (NumE0, ps) else None)"
| "j_step d (NumE0, ps) c = (if isDigit c then Some (NumE0, ps) else j_end_value ps c)"
| "j_step d (InLit w, ps) c =
     (case w of
        [] \<Rightarrow> j_end_value ps c
      | x # w' \<Rightarrow> if c = x then Some (if w' = [] then EndValue else InLit w', ps) else None)"

text \<open>Acceptance from a configuration; at the end of input the library feeds one space.\<close>

fun j_acc :: "nat \<Rightarrow> jconf \<Rightarrow> bytes \<Rightarrow> bool" where
  "j_acc d s [] = (fst s = EndTop \<or> map_option fst (j_step d s CHR '' '') = Some EndTop)"
| "j_acc d s (c # cs) = (case j_step d s c of None \<Rightarrow> False | Some s' \<Rightarrow> j_acc d s' cs)"

definition json_valid_upto :: "nat \<Rightarrow> bytes \<Rightarrow> bool" where
  "json_valid_upto d b = j_acc d (BeginValue, []) b"

definition json_valid :: "bytes \<Rightarrow> bool" where
  "json_valid b = json_valid_upto maxNestingDepth b"

section \<open>Strings\<close>

text \<open>
  \<open>j_token d s ps xs n\<close>: from \<open>s\<close> the automaton is at a value boundary after \<open>n\<close> bytes of \<open>xs\<close>, for
  these bytes and for any other continuation.
\<close>

definition j_token :: "nat \<Rightarrow> jstate \<Rightarrow> jparse list \<Rightarrow> jparse list \<Rightarrow> bytes \<Rightarrow> nat \<Rightarrow> bool" where
  "j_token d s qs ps xs n \<longleftrightarrow>
     n \<le> length xs \<and> j_acc d (EndValue, ps) (drop n xs) \<and>
     (\<forall>ys. j_acc d (EndValue, ps) ys \<longrightarrow> j_acc d (s, qs) (take n xs @ ys))"

lemma j_token_step:
  "j_step d (s, qs) c = Some (s', qs') \<Longrightarrow> j_token d s' qs' ps cs n \<Longrightarrow>
   j_token d s qs ps (c # cs) (Suc n)"
  by (simp add: j_token_def)

lemma j_token_zero: "j_acc d (EndValue, ps) xs \<Longrightarrow> j_token d EndValue ps ps xs 0"
  by (simp add: j_token_def)

lemma j_acc_ConsE:
  assumes "j_acc d s (c # cs)"
  obtains s' where "j_step d s c = Some s'" and "j_acc d s' cs"
  using assms by (cases "j_step d s c") auto

lemma not_space_special [simp]:
  "\<not> isJSONSpace dquote" "\<not> isJSONSpace CHR ''{''" "\<not> isJSONSpace CHR ''['' "
  "\<not> isJSONSpace CHR ''}''" "\<not> isJSONSpace CHR '']''" "\<not> isJSONSpace CHR '':''"
  "\<not> isJSONSpace CHR '',''" "isJSONSpace CHR '' ''"
  by (simp_all add: isJSONSpace_def)

lemma j_string:
  "j_acc d (InString, ps) xs \<Longrightarrow>
   \<exists>n. str_len xs = Some n \<and> j_token d InString ps ps xs (Suc n)"
proof (induction xs rule: str_len.induct)
  case 1
  then show ?case by simp
next
  case (2 c cs)
  show ?case
  proof (cases "c = dquote \<or> c = backslash")
    case False
    then obtain "\<not> byte_val c < 0x20" and acc: "j_acc d (InString, ps) cs"
      using "2.prems" by (auto split: if_splits)
    then obtain n where "str_len cs = Some n" "j_token d InString ps ps cs (Suc n)"
      using "2.IH" False by blast
    then show ?thesis using False \<open>\<not> byte_val c < 0x20\<close>
      by (auto intro!: j_token_step [where s' = InString and qs' = ps])
  next
    case True
    show ?thesis
    proof (cases "c = dquote")
      case True
      then show ?thesis using "2.prems" by (auto intro!: j_token_step j_token_zero)
    next
      case nq: False
      with True have c: "c = backslash" by simp
      with "2.prems" obtain e es where cs: "cs = e # es" by (cases cs) auto
      show ?thesis
      proof (cases "e = CHR ''u''")
        case False
        with "2.prems" c cs have e: "j_step d (InStringEsc, ps) e = Some (InString, ps)"
          and acc: "j_acc d (InString, ps) es"
          by (auto split: if_splits)
        then obtain n where n: "str_len es = Some n" and t: "j_token d InString ps ps es (Suc n)"
          using "2.IH" c cs False by auto
        have "j_token d InString ps ps (backslash # e # es) (Suc (Suc (Suc n)))"
          by (rule j_token_step [OF _ j_token_step [OF e t]]) simp
        then show ?thesis using c cs n False by simp
      next
        case u: True
        from "2.prems" c cs u obtain h1 h2 h3 h4 rest where es: "es = h1 # h2 # h3 # h4 # rest"
          and h: "isHex h1" "isHex h2" "isHex h3" "isHex h4" and acc: "j_acc d (InString, ps) rest"
          by (cases es; cases "tl es"; cases "tl (tl es)"; cases "tl (tl (tl es))")
             (auto split: if_splits simp: eval_nat_numeral)
        then obtain n where n: "str_len rest = Some n" "j_token d InString ps ps rest (Suc n)"
          using "2.IH"(1) nq c cs u es h by blast
        have t: "j_token d InStringEsc ps ps (e # es) (Suc (Suc (Suc (Suc (Suc (Suc n))))))"
          using n(2) h u unfolding es
          by (auto intro!: j_token_step)
        have "j_token d InString ps ps (backslash # e # es) (Suc (Suc (Suc (Suc (Suc (Suc (Suc n)))))))"
          by (rule j_token_step [OF _ t]) simp
        then show ?thesis using c cs u n(1) h by (simp add: es eval_nat_numeral)
      qed
    qed
  qed
qed

section \<open>Numbers and literals\<close>

lemma isDigit_plain:
  "isDigit c \<Longrightarrow> \<not> isJSONSpace c \<and> c \<noteq> CHR ''.'' \<and> c \<noteq> CHR ''e'' \<and> c \<noteq> CHR ''E'' \<and> c \<noteq> CHR ''-''
    \<and> c \<noteq> CHR ''+'' \<and> c \<noteq> dquote \<and> c \<noteq> CHR ''{'' \<and> c \<noteq> CHR ''['' \<and> c \<noteq> CHR ''}'' \<and> c \<noteq> CHR '']''
    \<and> c \<noteq> CHR '','' \<and> c \<noteq> CHR '':'' \<and> c \<noteq> CHR ''t'' \<and> c \<noteq> CHR ''f'' \<and> c \<noteq> CHR ''n''"
  by (auto simp: isDigit_def isJSONSpace_def)

lemma digit_cases: "isDigit c \<longleftrightarrow> c = CHR ''0'' \<or> nonzeroDigit c"
proof (cases "c = CHR ''0''")
  case False
  then have "byte_val c \<noteq> byte_val CHR ''0''"
    unfolding of_char_eq_iff .
  then show ?thesis
    using False by (simp add: isDigit_def nonzeroDigit_def) arith
qed (simp add: isDigit_def)

lemma isDigit_consts [simp]:
  "\<not> isDigit CHR '' ''" "\<not> isDigit CHR ''.''" "\<not> isDigit CHR ''e''" "\<not> isDigit CHR ''E''"
  "\<not> isDigit CHR ''+''" "\<not> isDigit CHR ''-''" "\<not> isDigit dquote" "isDigit CHR ''0''"
  "\<not> isDigit CHR ''t''" "\<not> isDigit CHR ''f''" "\<not> isDigit CHR ''n''"
  by (simp_all add: isDigit_def)

lemma j_end_value_no_digit: "isDigit c \<Longrightarrow> j_end_value ps c = None"
  using isDigit_plain [of c] by (simp add: j_end_value_def Let_def split: list.split jparse.split)

lemma nonzeroDigit_consts [simp]:
  "\<not> nonzeroDigit CHR ''0''" "\<not> nonzeroDigit CHR ''t''" "\<not> nonzeroDigit CHR ''f''"
  "\<not> nonzeroDigit CHR ''n''"
  by (simp_all add: nonzeroDigit_def)

text \<open>A state in which a number may end behaves on the next byte as a finished value does.\<close>

lemma j_acc_end_number:
  assumes "\<And>c. \<not> P c \<Longrightarrow> j_step d (s, ps) c = j_end_value ps c" and "s \<noteq> EndTop"
    and "stops P ys" and "\<not> P CHR '' ''"
  shows "j_acc d (s, ps) ys \<longleftrightarrow> j_acc d (EndValue, ps) ys"
  using assms by (cases ys) auto

lemma j_token_here:
  assumes "\<And>c. \<not> P c \<Longrightarrow> j_step d (s, ps) c = j_end_value ps c" and "s \<noteq> EndTop"
    and "\<not> P CHR '' ''" and "stops P xs" and "j_acc d (s, ps) xs"
    and "\<And>ys. j_acc d (EndValue, ps) ys \<Longrightarrow> stops P ys"
  shows "j_token d s ps ps xs 0"
  using assms j_acc_end_number [of P d s ps] by (auto simp: j_token_def)

lemma end_value_stops:
  assumes "j_acc d (EndValue, ps) ys"
  shows "stops (\<lambda>c. isDigit c \<or> c = CHR ''.'' \<or> c = CHR ''e'' \<or> c = CHR ''E'') ys"
proof (cases ys)
  case (Cons c cs)
  with assms have "j_end_value ps c \<noteq> None" by (auto split: option.splits)
  then show ?thesis unfolding Cons
    by (auto simp: j_end_value_no_digit)
       (auto simp: j_end_value_def Let_def isJSONSpace_def split: list.splits jparse.splits)
qed simp

lemma end_value_num_boundary: "j_acc d (EndValue, ps) ys \<Longrightarrow> num_boundary ys"
  unfolding num_boundary_def by (rule end_value_stops)

lemma end_value_stops_digit: "j_acc d (EndValue, ps) ys \<Longrightarrow> stops isDigit ys"
  by (erule stops_mono [OF end_value_stops]) simp

text \<open>The digit loops: the automaton leaves the loop exactly where \<open>span_len isDigit\<close> stops.\<close>

lemma j_digits:
  assumes "\<And>c. isDigit c \<Longrightarrow> j_step d (s, ps) c = Some (s, ps)"
    and "j_acc d (s, ps) xs"
    and "\<And>ys. stops isDigit ys \<Longrightarrow> j_acc d (s, ps) ys \<Longrightarrow> \<exists>n. len ys = Some n \<and> j_token d s ps ps ys n"
  shows "\<exists>n. len (drop (span_len isDigit xs) xs) = Some n \<and>
    j_token d s ps ps xs (span_len isDigit xs + n)"
  using assms(2)
proof (induction xs)
  case Nil
  then show ?case using assms(3) [of "[]"] by simp
next
  case (Cons c cs)
  show ?case
  proof (cases "isDigit c")
    case True
    with Cons assms(1) show ?thesis by (auto intro: j_token_step)
  next
    case False
    with Cons.prems assms(3) [of "c # cs"] show ?thesis by simp
  qed
qed

lemma j_numE0:
  assumes "j_acc d (NumE0, ps) xs"
  shows "j_token d NumE0 ps ps xs (span_len isDigit xs)"
proof -
  have "\<exists>n. Some 0 = Some n \<and> j_token d NumE0 ps ps ys n"
    if "stops isDigit ys" "j_acc d (NumE0, ps) ys" for ys
    using that by (auto intro!: j_token_here [where P = isDigit] end_value_stops_digit)
  from j_digits [where len = "\<lambda>_. Some 0", OF _ assms this] show ?thesis by simp
qed

lemma j_numE:
  assumes "j_acc d (NumE, ps) xs"
  shows "\<exists>n. exp_len (CHR ''e'' # xs) = Some (Suc n) \<and> j_token d NumE ps ps xs n"
proof -
  from assms obtain c cs where xs: "xs = c # cs" by (cases xs) auto
  show ?thesis
  proof (cases "c = CHR ''+'' \<or> c = CHR ''-''")
    case True
    with assms xs have "j_acc d (NumESign, ps) cs" by auto
    then obtain e es where cs: "cs = e # es" and e: "isDigit e" and a: "j_acc d (NumE0, ps) es"
      by (cases cs) (auto split: if_splits)
    have "j_token d NumE ps ps (c # e # es) (Suc (Suc (span_len isDigit es)))"
      using True e by (auto intro!: j_token_step j_numE0 [OF a])
    then show ?thesis using True e
      by (auto simp: xs cs sign_len_def Let_def)
  next
    case False
    with assms xs have c: "isDigit c" and a: "j_acc d (NumE0, ps) cs"
      by (auto split: if_splits)
    have "j_token d NumE ps ps (c # cs) (Suc (span_len isDigit cs))"
      using False c by (auto intro!: j_token_step j_numE0 [OF a])
    then show ?thesis using False c
      by (auto simp: xs sign_len_def Let_def)
  qed
qed

lemma j_num0_end [simp]:
  "c \<noteq> CHR ''.'' \<Longrightarrow> c \<noteq> CHR ''e'' \<Longrightarrow> c \<noteq> CHR ''E'' \<Longrightarrow> j_num0 ps c = j_end_value ps c"
  by (simp add: j_num0_def)

lemma exp_len_E: "exp_len (CHR ''E'' # xs) = exp_len (CHR ''e'' # xs)"
  by simp

lemma j_exp:
  assumes step: "\<And>c. c = CHR ''e'' \<or> c = CHR ''E'' \<Longrightarrow> j_step d (s, ps) c = Some (NumE, ps)"
    and fin: "\<And>c. \<not> (isDigit c \<or> c = CHR ''.'' \<or> c = CHR ''e'' \<or> c = CHR ''E'') \<Longrightarrow>
      j_step d (s, ps) c = j_end_value ps c"
    and s: "s \<noteq> EndTop" and stop: "stops (\<lambda>c. isDigit c \<or> c = CHR ''.'') xs"
    and acc: "j_acc d (s, ps) xs"
  shows "\<exists>n. exp_len xs = Some n \<and> j_token d s ps ps xs n"
proof (cases "\<exists>c cs. xs = c # cs \<and> (c = CHR ''e'' \<or> c = CHR ''E'')")
  case True
  then obtain c cs where xs: "xs = c # cs" and c: "c = CHR ''e'' \<or> c = CHR ''E''" by blast
  with acc step have "j_acc d (NumE, ps) cs" by auto
  then obtain n where "exp_len (CHR ''e'' # cs) = Some (Suc n)" and "j_token d NumE ps ps cs n"
    using j_numE by blast
  then show ?thesis
    using c exp_len_E [of cs] step [OF c] unfolding xs by (metis j_token_step)
next
  case False
  then have "stops (\<lambda>c. isDigit c \<or> c = CHR ''.'' \<or> c = CHR ''e'' \<or> c = CHR ''E'') xs"
    and "exp_len xs = Some 0"
    using stop by (cases xs; auto)+
  then show ?thesis
    using j_token_here [OF fin s _ _ acc end_value_stops] by auto
qed

lemma j_dot0:
  assumes "j_acc d (Dot0, ps) xs" and "stops isDigit xs"
  shows "\<exists>n. exp_len xs = Some n \<and> j_token d Dot0 ps ps xs n"
proof -
  have "stops (\<lambda>c. isDigit c \<or> c = CHR ''.'') xs"
    using assms by (cases xs) (auto simp: j_end_value_def isJSONSpace_def Let_def
        split: list.splits jparse.splits)
  then show ?thesis
    using assms(1) by (intro j_exp) auto
qed

text \<open>After the integer part: an optional fraction, then an optional exponent.\<close>

lemma j_frac:
  assumes s: "s = Num0 \<or> s = Num1" and acc: "j_acc d (s, ps) xs" and stop: "stops isDigit xs"
  shows "\<exists>n2 n3. frac_len xs = Some n2 \<and> exp_len (drop n2 xs) = Some n3 \<and>
    j_token d s ps ps xs (n2 + n3)"
proof (cases "\<exists>cs. xs = CHR ''.'' # cs")
  case True
  then obtain cs where xs: "xs = CHR ''.'' # cs" by blast
  have st: "j_step d (s, ps) CHR ''.'' = Some (Dot, ps)"
    using s by (auto simp: j_num0_def)
  with acc xs have "j_acc d (Dot, ps) cs" by simp
  then obtain e es where cs: "cs = e # es" and e: "isDigit e" and a: "j_acc d (Dot0, ps) es"
    by (cases cs) (auto split: if_splits)
  obtain n where n: "exp_len (drop (span_len isDigit es) es) = Some n"
    and t: "j_token d Dot0 ps ps es (span_len isDigit es + n)"
    using j_digits [where len = exp_len, OF _ a j_dot0] by auto
  have "j_token d s ps ps xs (Suc (Suc (span_len isDigit es + n)))"
    unfolding xs cs using e by (intro j_token_step [OF st] j_token_step [OF _ t]) simp
  then show ?thesis using e n by (auto simp: xs cs)
next
  case False
  then have "frac_len xs = Some 0" and "stops (\<lambda>c. isDigit c \<or> c = CHR ''.'') xs"
    using stop by (cases xs; auto)+
  moreover have "\<exists>n. exp_len xs = Some n \<and> j_token d s ps ps xs n"
    using s calculation(2) acc by (intro j_exp) (auto simp: j_num0_def)
  ultimately show ?thesis by auto
qed

lemma j_num1:
  assumes "j_acc d (Num1, ps) xs"
  shows "\<exists>n2 n3. frac_len (drop (span_len isDigit xs) xs) = Some n2 \<and>
    exp_len (drop (span_len isDigit xs + n2) xs) = Some n3 \<and>
    j_token d Num1 ps ps xs (span_len isDigit xs + n2 + n3)"
proof -
  define len where "len ys = (case frac_len ys of None \<Rightarrow> None
    | Some n2 \<Rightarrow> map_option ((+) n2) (exp_len (drop n2 ys)))" for ys
  have "\<exists>n. len ys = Some n \<and> j_token d Num1 ps ps ys n"
    if "stops isDigit ys" "j_acc d (Num1, ps) ys" for ys
    using j_frac [OF _ that(2,1)] by (auto simp: len_def)
  from j_digits [where len = len, OF _ assms this] show ?thesis
    by (auto simp: len_def add.assoc add.commute add.left_commute split: option.splits)
qed

text \<open>A number from its first digit: \<open>int_len\<close>, \<open>frac_len\<close> and \<open>exp_len\<close> find its parts.\<close>

definition unum_len :: "bytes \<Rightarrow> nat option" where
  "unum_len xs =
     (case int_len xs of None \<Rightarrow> None
      | Some n1 \<Rightarrow> (case frac_len (drop n1 xs) of None \<Rightarrow> None
        | Some n2 \<Rightarrow> (case exp_len (drop (n1 + n2) xs) of None \<Rightarrow> None
          | Some n3 \<Rightarrow> Some (n1 + n2 + n3))))"

lemma j_unsigned:
  assumes acc: "j_acc d (s, ps) (c # cs)"
    and zero: "j_step d (s, ps) CHR ''0'' = Some (Num0, ps)"
    and nonzero: "\<And>c. nonzeroDigit c \<Longrightarrow> j_step d (s, ps) c = Some (Num1, ps)"
    and c: "isDigit c"
  shows "\<exists>n. unum_len (c # cs) = Some n \<and> j_token d s ps ps (c # cs) n"
proof (cases "c = CHR ''0''")
  case True
  with acc zero have a: "j_acc d (Num0, ps) cs" by simp
  have "stops isDigit cs"
    using a by (cases cs) (auto simp: j_num0_def j_end_value_no_digit split: if_splits)
  from j_frac [OF _ a this] obtain n2 n3 where
    "frac_len cs = Some n2" "exp_len (drop n2 cs) = Some n3" and t: "j_token d Num0 ps ps cs (n2 + n3)"
    by auto
  then show ?thesis
    using True j_token_step [OF zero t] by (auto simp: unum_len_def)
next
  case False
  with c have nz: "nonzeroDigit c" by (simp add: digit_cases)
  with acc nonzero have a: "j_acc d (Num1, ps) cs" by simp
  from j_num1 [OF a] obtain n2 n3 where
    "frac_len (drop (span_len isDigit cs) cs) = Some n2"
    "exp_len (drop (span_len isDigit cs + n2) cs) = Some n3"
    and t: "j_token d Num1 ps ps cs (span_len isDigit cs + n2 + n3)"
    by auto
  then show ?thesis
    using False nz c j_token_step [OF nonzero [OF nz] t] by (auto simp: unum_len_def)
qed

lemma num_len_unsigned: "\<not> (\<exists>cs. xs = CHR ''-'' # cs) \<Longrightarrow> num_len xs = unum_len xs"
  by (cases xs) (auto simp: num_len_def unum_len_def minus_len_def split: option.split)

lemma num_len_minus: "num_len (CHR ''-'' # cs) = map_option Suc (unum_len cs)"
  by (auto simp: num_len_def unum_len_def minus_len_def split: option.split)

lemma j_number:
  assumes acc: "j_acc d (BeginValue, ps) (c # cs)" and c: "isDigit c \<or> c = CHR ''-''"
  shows "\<exists>n. num_len (c # cs) = Some n \<and> j_token d BeginValue ps ps (c # cs) n"
proof (cases "c = CHR ''-''")
  case True
  have st: "j_step d (BeginValue, ps) CHR ''-'' = Some (Neg, ps)"
    by (simp add: j_begin_value_def isJSONSpace_def)
  have nz: "nonzeroDigit x \<Longrightarrow> j_step d (Neg, ps) x = Some (Num1, ps)" for x
    by (auto simp: nonzeroDigit_def)
  from acc True st have a: "j_acc d (Neg, ps) cs" by simp
  then obtain e es where cs: "cs = e # es" and e: "isDigit e"
    by (cases cs) (auto split: if_splits simp: digit_cases)
  obtain n where "unum_len (e # es) = Some n" and t: "j_token d Neg ps ps (e # es) n"
    using j_unsigned [OF a [unfolded cs] _ _ e] nz by auto
  then show ?thesis
    using True j_token_step [OF st t] by (auto simp: cs num_len_minus)
next
  case False
  then have d: "isDigit c" using c by simp
  have "nonzeroDigit x \<Longrightarrow> j_step d (BeginValue, ps) x = Some (Num1, ps)" for x
    using isDigit_plain [OF nonzeroDigit_isDigit [of x]]
    by (cases "x = CHR ''0''"; cases "x = CHR ''t''"; cases "x = CHR ''f''"; cases "x = CHR ''n''")
       (simp_all add: j_begin_value_def)
  moreover have "j_step d (BeginValue, ps) CHR ''0'' = Some (Num0, ps)"
    by (simp add: j_begin_value_def isJSONSpace_def)
  ultimately show ?thesis
    using j_unsigned [OF acc _ _ d] False by (simp add: num_len_unsigned)
qed

lemma j_literal:
  "j_acc d (InLit w, ps) xs \<Longrightarrow> w \<noteq> [] \<Longrightarrow>
   take (length w) xs = w \<and> j_token d (InLit w) ps ps xs (length w)"
proof (induction w arbitrary: xs)
  case (Cons x w)
  then obtain cs where xs: "xs = x # cs"
    and a: "j_acc d (if w = [] then EndValue else InLit w, ps) cs"
    by (cases xs) (auto split: if_splits)
  show ?case
  proof (cases "w = []")
    case True
    with a show ?thesis
      by (auto simp: xs intro!: j_token_step j_token_zero)
  next
    case False
    with Cons.IH [of cs] a show ?thesis
      by (auto simp: xs intro!: j_token_step)
  qed
qed simp

section \<open>Containers and values\<close>

fun opener :: "jparse \<Rightarrow> char" where
  "opener ParseArrayValue = CHR ''[''"
| "opener _ = CHR ''{''"

definition closer :: "jparse \<Rightarrow> char" where
  "closer p = (if p = ParseArrayValue then CHR '']'' else CHR ''}'')"

definition plain :: "char \<Rightarrow> bool" where
  "plain c \<longleftrightarrow> c \<noteq> dquote \<and> c \<noteq> CHR ''{'' \<and> c \<noteq> CHR ''['' \<and> c \<noteq> CHR ''}'' \<and> c \<noteq> CHR '']''"

text \<open>The states of a container scan outside strings, with what they assume of the top of stack.\<close>

fun outside :: "jstate \<Rightarrow> jparse \<Rightarrow> bool" where
  "outside EndTop q = False"
| "outside InString q = False"
| "outside InStringEsc q = False"
| "outside (InStringU n) q = False"
| "outside BeginStringOrEmpty q = (q \<noteq> ParseArrayValue)"
| "outside (InLit w) q = list_all plain w"
| "outside _ q = True"

lemma plain_consts [simp]:
  "plain CHR '':''" "plain CHR '',''" "plain CHR ''.''" "plain CHR ''e''" "plain CHR ''E''"
  "plain CHR ''+''" "plain CHR ''-''" "plain CHR ''0''" "\<not> plain dquote" "\<not> plain CHR ''{''"
  "\<not> plain CHR ''[''" "\<not> plain CHR ''}''" "\<not> plain CHR '']''"
  "plain CHR ''r''" "plain CHR ''u''" "plain CHR ''a''" "plain CHR ''l''" "plain CHR ''s''"
  "plain CHR ''t''" "plain CHR ''f''" "plain CHR ''n''"
  by (simp_all add: plain_def)

lemma space_plain: "isJSONSpace c \<Longrightarrow> plain c"
  by (auto simp: isJSONSpace_def plain_def)

lemma digit_plain: "isDigit c \<Longrightarrow> plain c"
  using isDigit_plain [of c] by (simp add: plain_def)

lemma nonzero_plain: "nonzeroDigit c \<Longrightarrow> plain c"
  by (simp add: digit_plain nonzeroDigit_isDigit)

text \<open>What one step of the automaton does to the stack, by the byte it reads.\<close>

definition step_ok :: "nat \<Rightarrow> jparse \<Rightarrow> jparse list \<Rightarrow> char \<Rightarrow> jconf \<Rightarrow> bool" where
  "step_ok d q ps c r \<longleftrightarrow>
     (c = dquote \<and> r = (InString, q # ps)) \<or>
     (c = CHR ''{'' \<and> r = (BeginStringOrEmpty, ParseObjectKey # q # ps) \<and> length (q # ps) < d) \<or>
     (c = CHR ''['' \<and> r = (BeginValueOrEmpty, ParseArrayValue # q # ps) \<and> length (q # ps) < d) \<or>
     (c = closer q \<and> r = (if ps = [] then EndTop else EndValue, ps)) \<or>
     (plain c \<and> (\<exists>q' s'. opener q' = opener q \<and> r = (s', q' # ps) \<and> outside s' q'))"

lemma step_ok_intros:
  "step_ok d q ps dquote (InString, q # ps)"
  "length (q # ps) < d \<Longrightarrow> step_ok d q ps CHR ''{'' (BeginStringOrEmpty, ParseObjectKey # q # ps)"
  "length (q # ps) < d \<Longrightarrow> step_ok d q ps CHR ''['' (BeginValueOrEmpty, ParseArrayValue # q # ps)"
  "q \<noteq> ParseArrayValue \<Longrightarrow> r = (if ps = [] then EndTop else EndValue, ps) \<Longrightarrow> step_ok d q ps CHR ''}'' r"
  "r = (if ps = [] then EndTop else EndValue, ps) \<Longrightarrow> step_ok d ParseArrayValue ps CHR '']'' r"
  "plain c \<Longrightarrow> opener q' = opener q \<Longrightarrow> outside s' q' \<Longrightarrow> step_ok d q ps c (s', q' # ps)"
  by (auto simp: step_ok_def closer_def)

lemma j_end_value_ok:
  assumes "j_end_value (q # ps) c = Some r"
  shows "step_ok d q ps c r"
proof (cases "isJSONSpace c")
  case True
  then show ?thesis using assms
    by (auto simp: j_end_value_def intro!: step_ok_intros(6) space_plain)
next
  case False
  then show ?thesis using assms
    by (cases q) (auto simp: j_end_value_def Let_def split: if_split_asm intro: step_ok_intros(4-))
qed

lemma j_begin_value_ok:
  "j_begin_value d self (q # ps) c = Some r \<Longrightarrow> outside self q \<Longrightarrow> step_ok d q ps c r"
  unfolding j_begin_value_def j_push_def
  by (auto simp: space_plain nonzero_plain split: if_split_asm intro: step_ok_intros)

lemma j_begin_string_ok:
  "j_begin_string self (q # ps) c = Some r \<Longrightarrow> outside self q \<Longrightarrow> step_ok d q ps c r"
  by (auto simp: j_begin_string_def step_ok_def space_plain split: if_splits)

lemma j_plain_ok: "plain c \<Longrightarrow> outside s q \<Longrightarrow> step_ok d q ps c (s, q # ps)"
  by (auto simp: step_ok_def)

lemma j_num0_ok: "j_num0 (q # ps) c = Some r \<Longrightarrow> step_ok d q ps c r"
  using j_plain_ok [of c Dot q d ps] j_plain_ok [of c NumE q d ps] j_end_value_ok [of q ps c r d]
  by (auto simp: j_num0_def split: if_splits)

lemma j_step_ok_begin:
  assumes "j_step d (s, q # ps) c = Some r" and "outside s q"
    and "s \<in> {BeginValueOrEmpty, BeginValue, BeginStringOrEmpty, BeginString, EndValue}"
  shows "step_ok d q ps c r"
proof -
  have v: "step_ok d q ps c r"
    if "j_begin_value d self (q # ps) c = Some r" "outside self q" for self
    using that by (rule j_begin_value_ok)
  have t: "step_ok d q ps c r"
    if "j_begin_string self (q # ps) c = Some r" "outside self q" for self
    using that by (rule j_begin_string_ok)
  have "step_ok d q ps c r"
    if "j_end_value (ParseObjectValue # ps) CHR ''}'' = Some r" "c = CHR ''}''" "q \<noteq> ParseArrayValue"
    using that by (auto simp: j_end_value_def step_ok_def closer_def)
  with assms v t j_end_value_ok show ?thesis
    by (elim insertE emptyE) (simp_all split: if_splits)
qed

lemma j_step_ok_number:
  assumes "j_step d (s, q # ps) c = Some r"
    and "s \<in> {Neg, Num1, Num0, Dot, Dot0, NumE, NumESign, NumE0}"
  shows "step_ok d q ps c r"
proof -
  have p: "isDigit c \<Longrightarrow> plain c" "nonzeroDigit c \<Longrightarrow> plain c"
    by (simp_all add: digit_plain nonzero_plain)
  have "step_ok d q ps c (s', q # ps)" if "plain c" "outside s' q" for s'
    using that by (rule j_plain_ok)
  with assms p show ?thesis
    by (elim insertE emptyE) (auto split: if_splits dest: j_end_value_ok j_num0_ok)
qed

lemma j_step_ok:
  assumes "j_step d (s, q # ps) c = Some r" and "outside s q"
  shows "step_ok d q ps c r"
proof (cases s)
  case (InLit w)
  with assms show ?thesis
    by (cases w) (auto split: if_splits intro!: j_plain_ok dest: j_end_value_ok)
qed (use assms j_step_ok_begin [OF assms] j_step_ok_number [OF assms(1)] in auto)

text \<open>Inside a container the input cannot end.\<close>

lemma j_acc_Nil_outside:
  assumes "outside s q" and "ps \<noteq> []"
  shows "\<not> j_acc d (s, q # ps) []"
proof
  assume "j_acc d (s, q # ps) []"
  moreover have "s \<noteq> EndTop" using assms(1) by auto
  ultimately obtain r where r: "j_step d (s, q # ps) CHR '' '' = Some r" and "fst r = EndTop"
    by auto
  with j_step_ok [OF r assms(1)] assms(2) show False
    by (auto simp: step_ok_def closer_def split: if_splits)
qed

lemma j_token_trans:
  assumes "j_token d s qs rs xs n" and "j_token d EndValue rs ps (drop n xs) m"
  shows "j_token d s qs ps xs (n + m)"
proof -
  have "drop (n + m) xs = drop m (drop n xs)" by (simp add: add.commute)
  then show ?thesis
    using assms unfolding j_token_def take_add append_assoc length_drop by auto
qed

text \<open>
  The simulation: with the container scan's stack holding the openers of the automaton's stack
  above \<open>ps\<close>, both leave the outermost of these containers at the same byte. The automaton's limit
  leaves room for the scan's own depth limit. \<open>sim d ps xs\<close> is the statement for one text.
\<close>

definition sim :: "nat \<Rightarrow> jparse list \<Rightarrow> bytes \<Rightarrow> bool" where
  "sim d ps xs \<longleftrightarrow> (\<forall>s qs. qs \<noteq> [] \<longrightarrow> j_acc d (s, qs @ ps) xs \<longrightarrow> outside s (hd qs) \<longrightarrow>
     (\<exists>n. cont_len (map opener qs) xs = Some n \<and> j_token d s (qs @ ps) ps xs n))"

lemma simD:
  assumes "sim d ps xs" and "j_acc d (s, qs @ ps) xs" and "outside s (hd qs)" and "qs \<noteq> []"
  obtains n where "cont_len (map opener qs) xs = Some n" and "j_token d s (qs @ ps) ps xs n"
  using assms unfolding sim_def by blast

lemma sim_quote:
  assumes IH: "\<And>n. sim d ps (drop (Suc n) cs)" and qs: "qs \<noteq> []"
    and r: "j_step d (s, qs @ ps) dquote = Some (InString, qs @ ps)"
    and acc: "j_acc d (InString, qs @ ps) cs"
  shows "\<exists>n. cont_len (map opener qs) (dquote # cs) = Some n \<and>
    j_token d s (qs @ ps) ps (dquote # cs) n"
proof -
  obtain n where n: "str_len cs = Some n"
    and t: "j_token d InString (qs @ ps) (qs @ ps) cs (Suc n)"
    using j_string [OF acc] by blast
  then have a: "j_acc d (EndValue, qs @ ps) (drop (Suc n) cs)" by (simp add: j_token_def)
  obtain m where m: "cont_len (map opener qs) (drop (Suc n) cs) = Some m"
    and t2: "j_token d EndValue (qs @ ps) ps (drop (Suc n) cs) m"
    by (rule simD [OF IH a _ qs]) auto
  have "j_token d s (qs @ ps) ps (dquote # cs) (Suc (Suc n + m))"
    by (rule j_token_step [OF r j_token_trans [OF t t2]])
  then show ?thesis using n m qs by (auto simp: cont_len_Cons)
qed

lemma sim_open:
  assumes IH: "sim d ps cs" and qs: "qs \<noteq> []" and d: "d \<le> maxScanDepth + length ps"
    and len: "length (qs @ ps) < d" and acc: "j_acc d (s', p # qs @ ps) cs"
    and r: "j_step d (s, qs @ ps) (opener p) = Some (s', p # qs @ ps)" and out: "outside s' p"
  shows "\<exists>n. cont_len (map opener qs) (opener p # cs) = Some n \<and>
    j_token d s (qs @ ps) ps (opener p # cs) n"
proof -
  obtain m where "cont_len (map opener (p # qs)) cs = Some m"
    and "j_token d s' ((p # qs) @ ps) ps cs m"
    by (rule simD [OF IH, of s' "p # qs"]) (use acc out in auto)
  moreover have "opener p = CHR ''{'' \<or> opener p = CHR ''[''" "opener p \<noteq> dquote"
    by (cases p; simp)+
  ultimately show ?thesis
    using d len qs j_token_step [OF r] by (auto simp: cont_len_Cons push_def)
qed

lemma sim_close:
  assumes IH: "sim d ps cs" and acc: "j_acc d (EndValue, qs' @ ps) cs"
    and r: "j_step d (s, q # qs' @ ps) (closer q) = Some (EndValue, qs' @ ps)"
  shows "\<exists>n. cont_len (map opener (q # qs')) (closer q # cs) = Some n \<and>
    j_token d s (q # qs' @ ps) ps (closer q # cs) n"
proof -
  have pop: "pop (closer q) (map opener (q # qs')) = Some (map opener qs')"
    by (cases q) (simp_all add: pop_def closer_def)
  have nq: "closer q \<noteq> dquote" "closer q \<noteq> CHR ''{''" "closer q \<noteq> CHR ''[''"
    "closer q = CHR ''}'' \<or> closer q = CHR '']''"
    by (auto simp: closer_def)
  obtain m where "cont_len (map opener qs') cs = Some m"
    and "j_token d EndValue (qs' @ ps) ps cs m"
  proof (cases "qs' = []")
    case True
    with acc that show ?thesis by (auto intro: j_token_zero)
  next
    case False
    then show ?thesis by (intro simD [OF IH acc _ False that]) auto
  qed
  then show ?thesis using pop nq j_token_step [OF r] by (auto simp: cont_len_Cons)
qed

lemma sim_plain:
  assumes IH: "sim d ps cs" and acc: "j_acc d (s', q' # qs' @ ps) cs" and c: "plain c"
    and q: "opener q' = opener q" and out: "outside s' q'"
    and r: "j_step d (s, q # qs' @ ps) c = Some (s', q' # qs' @ ps)"
  shows "\<exists>n. cont_len (map opener (q # qs')) (c # cs) = Some n \<and>
    j_token d s (q # qs' @ ps) ps (c # cs) n"
proof -
  obtain m where "cont_len (map opener (q' # qs')) cs = Some m"
    and "j_token d s' ((q' # qs') @ ps) ps cs m"
    by (rule simD [OF IH, of s' "q' # qs'"]) (use acc out in auto)
  then show ?thesis
    using c q j_token_step [OF r] by (auto simp: cont_len_Cons plain_def)
qed

lemma sim_all:
  assumes ps: "ps \<noteq> []" and d: "d \<le> maxScanDepth + length ps"
  shows "sim d ps xs"
proof (induction "length xs" arbitrary: xs rule: less_induct)
  case less
  show ?case unfolding sim_def
  proof (intro allI impI)
    fix s qs
    assume ne: "qs \<noteq> []" and acc: "j_acc d (s, qs @ ps) xs" and out: "outside s (hd qs)"
    from ne obtain q qs' where qs: "qs = q # qs'" by (cases qs) auto
    have "xs \<noteq> []"
      using j_acc_Nil_outside [of s q "qs' @ ps" d] acc out ps by (auto simp: qs)
    then obtain c cs where xs: "xs = c # cs" by (cases xs) auto
    have IH: "sim d ps ys" if "length ys \<le> length cs" for ys
      using that by (intro less.hyps) (simp add: xs)
    obtain r where r: "j_step d (s, q # qs' @ ps) c = Some r" and a: "j_acc d r cs"
      using acc unfolding xs qs append_Cons by (rule j_acc_ConsE)
    have "step_ok d q (qs' @ ps) c r"
      using out by (intro j_step_ok [OF r]) (simp add: qs)
    then show "\<exists>n. cont_len (map opener qs) xs = Some n \<and> j_token d s (qs @ ps) ps xs n"
      unfolding step_ok_def xs
      using r a ps d ne out sim_quote [OF IH, where qs = qs and s = s]
        sim_open [OF IH, where qs = qs and s = s and p = ParseObjectKey]
        sim_open [OF IH, where qs = qs and s = s and p = ParseArrayValue]
        sim_close [OF IH, where qs' = qs' and s = s and q = q]
        sim_plain [OF IH, where qs' = qs' and s = s and q = q and c = c]
      by (elim disjE conjE exE) (simp_all add: qs)
  qed
qed

text \<open>Whatever value the automaton reads, \<open>scanValue\<close> finds its end.\<close>

lemma j_value:
  assumes acc: "j_acc d (BeginValue, ps) (c # cs)" and c: "\<not> isJSONSpace c"
    and ps: "ps \<noteq> []" and d: "d \<le> maxScanDepth + length ps"
  shows "\<exists>n k. val_scan (c # cs) = Some (n, k) \<and> j_token d BeginValue ps ps (c # cs) n"
proof -
  obtain r where step: "j_step d (BeginValue, ps) c = Some r" and a: "j_acc d r cs"
    using acc by (rule j_acc_ConsE)
  then have r: "j_begin_value d BeginValue ps c = Some r" by simp
  have cont: "\<exists>n. cont_len [opener p] cs = Some n \<and> j_token d BeginValue ps ps (c # cs) (Suc n)"
    if rs: "r = (s, p # ps)" and o: "outside s p" for p s
  proof -
    obtain n where "cont_len (map opener [p]) cs = Some n" and "j_token d s ([p] @ ps) ps cs n"
      by (rule simD [OF sim_all [OF ps d], of s "[p]"]) (use a rs o in auto)
    then show ?thesis using step rs by (auto intro: j_token_step)
  qed
  have lit: "take (length w) cs = w \<and> j_token d BeginValue ps ps (c # cs) (Suc (length w))"
    if "r = (InLit w, ps)" "w \<noteq> []" for w
    using j_literal [of d w ps cs] that a step by (auto intro: j_token_step)
  consider (string) "c = dquote" "r = (InString, ps)"
    | (obj) "c = CHR ''{''" "r = (BeginStringOrEmpty, ParseObjectKey # ps)"
    | (arr) "c = CHR ''[''" "r = (BeginValueOrEmpty, ParseArrayValue # ps)"
    | (tr) "c = CHR ''t''" "r = (InLit ''rue'', ps)" | (fa) "c = CHR ''f''" "r = (InLit ''alse'', ps)"
    | (nu) "c = CHR ''n''" "r = (InLit ''ull'', ps)" | (num) "isDigit c \<or> c = CHR ''-''"
    using r c by (auto simp: j_begin_value_def j_push_def digit_cases split: if_splits)
  then show ?thesis
  proof cases
    case string
    then obtain n where "str_len cs = Some n" and "j_token d InString ps ps cs (Suc n)"
      using j_string a by blast
    moreover have "j_step d (BeginValue, ps) c = Some (InString, ps)" using step string by simp
    ultimately show ?thesis using string j_token_step by fastforce
  next
    case num
    then have "c \<noteq> dquote \<and> c \<noteq> CHR ''{'' \<and> c \<noteq> CHR ''['' \<and> c \<noteq> CHR ''t'' \<and> c \<noteq> CHR ''f'' \<and> c \<noteq> CHR ''n''"
      by (rule disjE) (use isDigit_plain [of c] in simp_all)
    then show ?thesis using j_number [OF acc num] by simp
  next
    case obj
    then show ?thesis using cont [of _ ParseObjectKey] by auto
  next
    case arr
    then show ?thesis using cont [of _ ParseArrayValue] by auto
  next
    case tr
    then show ?thesis using lit [OF tr(2)] by (auto simp: eval_nat_numeral)
  next
    case fa
    then show ?thesis using lit [OF fa(2)] by (auto simp: eval_nat_numeral)
  next
    case nu
    then show ?thesis using lit [OF nu(2)] by (auto simp: eval_nat_numeral)
  qed
qed

end
