(* ===== verification/Members.thy ===== *)
theory Members
  imports Json_Std
begin

text \<open>
  The abstract view of a JSON object that the routing code's strip is specified against: its
  top-level members, in order, each cut into the whitespace around it, the raw bytes of its key and
  the raw bytes of its value. \<open>parse_members\<close> computes that view and \<open>layout\<close> writes it back; the two
  are inverse to each other on well-formed members, and every object \<open>encoding/json\<close> accepts has it.
\<close>

section \<open>Members and their layout\<close>

record seg =
  w_key :: bytes
  key :: bytes
  w_colon :: bytes
  w_val :: bytes
  val :: bytes
  w_end :: bytes

text \<open>What is between the key's first quote and the end of the value.\<close>

definition core :: "seg \<Rightarrow> bytes" where
  "core s = dquote # key s @ dquote # w_colon s @ CHR '':'' # w_val s @ val s"

definition render :: "seg \<Rightarrow> bytes" where
  "render s = w_key s @ core s @ w_end s"

fun layout :: "seg list \<Rightarrow> bytes" where
  "layout [] = []"
| "layout [s] = render s"
| "layout (s # ss) = render s @ CHR '','' # layout ss"

abbreviation ws :: "bytes \<Rightarrow> bool" where
  "ws w \<equiv> list_all isJSONSpace w"

definition seg_ok :: "seg \<Rightarrow> bool" where
  "seg_ok s \<longleftrightarrow> ws (w_key s) \<and> ws (w_colon s) \<and> ws (w_val s) \<and> ws (w_end s) \<and>
     str_len (key s @ [dquote]) = Some (length (key s)) \<and> val_len (val s) = Some (length (val s))"

definition after_member :: "bytes \<Rightarrow> bool" where
  "after_member ys \<longleftrightarrow> (\<exists>zs. ys = CHR '','' # zs \<or> ys = CHR ''}'' # zs)"

definition skip :: "bytes \<Rightarrow> bytes" where
  "skip xs = drop (span_len isJSONSpace xs) xs"

definition lead :: "bytes \<Rightarrow> bytes" where
  "lead xs = take (span_len isJSONSpace xs) xs"

lemma lead_skip: "lead xs @ skip xs = xs" "ws (lead xs)" "stops isJSONSpace (skip xs)"
  "length (lead xs) = span_len isJSONSpace xs" "length (skip xs) \<le> length xs"
  by (simp_all add: lead_def skip_def take_span_all drop_span_stops span_len_le)

lemma lead_skip_append:
  assumes "ws w" and "stops isJSONSpace ys"
  shows "lead (w @ ys) = w" and "skip (w @ ys) = ys"
  using assms by (simp_all add: lead_def skip_def span_len_append_all span_len_stops)

text \<open>One member: its parse is \<open>None\<close> where the scanner reports \<open>malformed\<close>.\<close>

definition parse_seg :: "bytes \<Rightarrow> (seg \<times> bytes) option" where
  "parse_seg xs =
     (case skip xs of
        [] \<Rightarrow> None
      | q # y2 \<Rightarrow>
          if q \<noteq> dquote then None
          else case str_len y2 of
            None \<Rightarrow> None
          | Some m \<Rightarrow>
              (let y3 = drop (Suc m) y2 in
               case skip y3 of
                 [] \<Rightarrow> None
               | c # y5 \<Rightarrow>
                   if c \<noteq> CHR '':'' then None
                   else (let y6 = skip y5 in
                     case val_scan y6 of
                       None \<Rightarrow> None
                     | Some (v, k) \<Rightarrow>
                         (let y7 = drop v y6 in
                          Some (\<lparr>w_key = lead xs, key = take m y2, w_colon = lead y3,
                            w_val = lead y5, val = take v y6, w_end = lead y7\<rparr>, skip y7)))))"

lemma parse_seg_sound:
  assumes "parse_seg xs = Some (s, r)"
  shows "xs = render s @ r" and "seg_ok s" and "stops isJSONSpace r"
    and "length r < length xs"
proof -
  from assms obtain y2 m y5 v k where y2: "skip xs = dquote # y2" and m: "str_len y2 = Some m"
    and y5: "skip (drop (Suc m) y2) = CHR '':'' # y5" and v: "val_scan (skip y5) = Some (v, k)"
    and s: "s = \<lparr>w_key = lead xs, key = take m y2, w_colon = lead (drop (Suc m) y2),
      w_val = lead y5, val = take v (skip y5), w_end = lead (drop v (skip y5))\<rparr>"
    and r: "r = skip (drop v (skip y5))"
    by (auto simp: parse_seg_def Let_def split: list.splits option.splits if_splits)
  have "y2 = take m y2 @ dquote # drop (Suc m) y2"
    using str_len_quote [OF m] by (metis id_take_nth_drop)
  moreover have "drop (Suc m) y2 = lead (drop (Suc m) y2) @ CHR '':'' # y5"
    using lead_skip(1) [of "drop (Suc m) y2"] y5 by simp
  moreover have "y5 = lead y5 @ skip y5" and "xs = lead xs @ dquote # y2"
    using lead_skip(1) [of y5] lead_skip(1) [of xs] y2 by simp_all
  moreover have "skip y5 = take v (skip y5) @ lead (drop v (skip y5)) @ r"
    using lead_skip(1) [of "drop v (skip y5)"] by (simp add: r)
  ultimately show xs: "xs = render s @ r"
    unfolding s render_def core_def by simp
  have "str_len (take m y2 @ [dquote]) = Some m"
    using str_len_local [OF m, of "[]"] .
  moreover have "val_scan (take v (skip y5)) = Some (v, k)"
    using val_scan_local [OF v, of "[]"] by simp
  ultimately show "seg_ok s"
    using str_len_quote [OF m] val_len_pos [OF v] by (simp add: s seg_ok_def lead_skip)
  show "stops isJSONSpace r" by (simp add: r lead_skip)
  show "length r < length xs" using xs by (simp add: render_def core_def)
qed

lemma val_scan_space: "isJSONSpace c \<Longrightarrow> val_scan (c # cs) = None"
  unfolding isJSONSpace_def
  by (elim disjE) (simp_all add: num_len_def minus_len_def nonzeroDigit_def)

lemma val_scan_start:
  assumes "val_scan xs = Some (n, k)"
  shows "stops isJSONSpace (take n xs @ ys)"
proof -
  from assms obtain c cs where xs: "xs = c # cs" by (cases xs) auto
  with assms have "\<not> isJSONSpace c" using val_scan_space [of c cs] by auto
  then show ?thesis using val_len_pos [OF assms] by (cases n) (simp_all add: xs)
qed

lemma after_member_boundary:
  "after_member r \<Longrightarrow> ws w \<Longrightarrow> num_boundary (w @ r)"
  by (cases w) (auto simp: after_member_def isJSONSpace_def isDigit_def)

lemma parse_seg_complete:
  assumes s: "seg_ok s" and r: "after_member r"
  shows "parse_seg (render s @ r) = Some (s, r)"
proof -
  from s obtain k where w: "ws (w_key s)" "ws (w_colon s)" "ws (w_val s)" "ws (w_end s)"
    and ks: "str_len (key s @ [dquote]) = Some (length (key s))"
    and vs: "val_scan (val s) = Some (length (val s), k)"
    by (auto simp: seg_ok_def)
  have stop: "stops isJSONSpace r" using r by (auto simp: after_member_def)
  have key: "str_len (key s @ dquote # ys) = Some (length (key s))" for ys
    using str_len_local [OF ks, of ys] by simp
  have val: "val_scan (val s @ w_end s @ r) = Some (length (val s), k)"
    using val_scan_local [OF vs after_member_boundary [OF r w(4)]] by simp
  have vstop: "stops isJSONSpace (val s @ w_end s @ r)"
    using val_scan_start [OF vs] by simp
  show ?thesis
    unfolding parse_seg_def render_def core_def
    using w stop vstop key val
    by (simp add: lead_skip_append Let_def)
qed

section \<open>All members of an object\<close>

function parse_members :: "bytes \<Rightarrow> (seg list \<times> bytes) option" where
  "parse_members xs =
     (case parse_seg xs of
        None \<Rightarrow> None
      | Some (s, []) \<Rightarrow> None
      | Some (s, c # r) \<Rightarrow>
          if c = CHR '','' then
            (case parse_members r of None \<Rightarrow> None | Some (ss, r') \<Rightarrow> Some (s # ss, r'))
          else if c = CHR ''}'' then Some ([s], c # r)
          else None)"
  by pat_completeness auto
termination by (relation "measure length") (auto dest: parse_seg_sound(4))

declare parse_members.simps [simp del]

lemma parse_members_sound:
  "parse_members xs = Some (ss, r) \<Longrightarrow>
   xs = layout ss @ r \<and> ss \<noteq> [] \<and> list_all seg_ok ss \<and> (\<exists>t. r = CHR ''}'' # t)"
proof (induction xs arbitrary: ss r rule: parse_members.induct)
  case (1 xs)
  from "1.prems" obtain s c t where s: "parse_seg xs = Some (s, c # t)"
    by (subst (asm) parse_members.simps) (auto split: option.splits list.splits)
  show ?case
  proof (cases "c = CHR '',''")
    case True
    with "1.prems" s obtain ss' where ss': "parse_members t = Some (ss', r)" and "ss = s # ss'"
      by (subst (asm) parse_members.simps) (auto split: option.splits)
    moreover from ss' have "t = layout ss' @ r \<and> ss' \<noteq> [] \<and> list_all seg_ok ss' \<and>
        (\<exists>t. r = CHR ''}'' # t)"
      using "1.IH" s True by blast
    ultimately show ?thesis
      using parse_seg_sound [OF s] True by (cases ss') auto
  next
    case False
    with "1.prems" s have "c = CHR ''}'' \<and> ss = [s] \<and> r = c # t"
      by (subst (asm) parse_members.simps) (auto split: if_splits)
    then show ?thesis using parse_seg_sound [OF s] by simp
  qed
qed

lemma parse_members_complete:
  "list_all seg_ok ss \<Longrightarrow> ss \<noteq> [] \<Longrightarrow>
   parse_members (layout ss @ CHR ''}'' # t) = Some (ss, CHR ''}'' # t)"
proof (induction ss rule: layout.induct)
  case (2 s)
  then show ?case
    using parse_seg_complete [of s "CHR ''}'' # t"]
    by (subst parse_members.simps) (simp add: after_member_def)
next
  case (3 s s' ss)
  let ?rest = "layout (s' # ss) @ CHR ''}'' # t"
  have "parse_seg (render s @ CHR '','' # ?rest) = Some (s, CHR '','' # ?rest)"
    using 3 by (intro parse_seg_complete) (simp_all add: after_member_def)
  then show ?case
    using 3 by (subst parse_members.simps) simp
qed simp

text \<open>
  The top-level members of a text whose first token is a brace, as pairs of raw key and raw value;
  \<open>None\<close> where no such parse exists.
\<close>

definition object_members :: "bytes \<Rightarrow> (bytes \<times> bytes) list option" where
  "object_members b =
     (case skip b of
        [] \<Rightarrow> None
      | c # ys \<Rightarrow>
          if c \<noteq> CHR ''{'' then None
          else (case skip ys of
              [] \<Rightarrow> None
            | e # _ \<Rightarrow>
                if e = CHR ''}'' then Some []
                else map_option (\<lambda>(ss, r). map (\<lambda>s. (key s, val s)) ss) (parse_members ys)))"

section \<open>Every object encoding/json accepts has members\<close>

lemma j_acc_ws:
  assumes "ws w"
    and "s \<in> {BeginValueOrEmpty, BeginValue, BeginStringOrEmpty, BeginString} \<or> s = EndValue \<and> ps \<noteq> []"
  shows "j_acc d (s, ps) (w @ ys) \<longleftrightarrow> j_acc d (s, ps) ys"
  using assms(1)
proof (induction w)
  case (Cons c w)
  then have "j_step d (s, ps) c = Some (s, ps)"
    using assms(2)
    by (auto simp: j_begin_value_def j_begin_string_def j_end_value_def isJSONSpace_def
        split: list.splits)
  with Cons show ?case by simp
qed simp

lemma j_acc_skip:
  assumes "s \<in> {BeginValueOrEmpty, BeginValue, BeginStringOrEmpty, BeginString} \<or> s = EndValue \<and> ps \<noteq> []"
  shows "j_acc d (s, ps) xs \<longleftrightarrow> j_acc d (s, ps) (skip xs)"
  using j_acc_ws [OF lead_skip(2) [of xs] assms, of d "skip xs"] lead_skip(1) [of xs] by simp

lemma j_acc_skipI:
  "j_acc d (s, ps) xs \<Longrightarrow>
   s \<in> {BeginValueOrEmpty, BeginValue, BeginStringOrEmpty, BeginString} \<or> s = EndValue \<and> ps \<noteq> [] \<Longrightarrow>
   j_acc d (s, ps) (skip xs)"
  by (rule j_acc_skip [THEN iffD1])

lemma j_acc_top: "j_acc d (EndTop, ps) xs \<longleftrightarrow> ws xs"
  by (induction xs) auto

definition key_ok :: "nat \<Rightarrow> bytes \<Rightarrow> bool" where
  "key_ok d k \<longleftrightarrow> (\<forall>ys. j_acc d (EndValue, [ParseObjectKey]) ys \<longrightarrow>
     j_acc d (BeginString, [ParseObjectKey]) (dquote # k @ dquote # ys))"

definition val_ok :: "nat \<Rightarrow> bytes \<Rightarrow> bool" where
  "val_ok d v \<longleftrightarrow> (\<forall>ys. j_acc d (EndValue, [ParseObjectValue]) ys \<longrightarrow>
     j_acc d (BeginValue, [ParseObjectValue]) (v @ ys))"

definition json_seg :: "nat \<Rightarrow> seg \<Rightarrow> bool" where
  "json_seg d s \<longleftrightarrow> seg_ok s \<and> key_ok d (key s) \<and> val_ok d (val s)"

lemma j_acc_key:
  assumes "j_acc d (BeginString, [ParseObjectKey]) xs" and "stops isJSONSpace xs"
  shows "\<exists>y2 m. xs = dquote # y2 \<and> str_len y2 = Some m \<and> key_ok d (take m y2) \<and>
    j_acc d (EndValue, [ParseObjectKey]) (drop (Suc m) y2)"
proof -
  from assms obtain y2 where xs: "xs = dquote # y2" and a: "j_acc d (InString, [ParseObjectKey]) y2"
    by (cases xs) (auto simp: j_begin_string_def split: if_splits)
  obtain m where m: "str_len y2 = Some m"
    and t: "j_token d InString [ParseObjectKey] [ParseObjectKey] y2 (Suc m)"
    using j_string [OF a] by blast
  have "take (Suc m) y2 @ ys = take m y2 @ dquote # ys" for ys
    using str_len_quote [OF m] by (simp add: take_Suc_conv_app_nth)
  with t have "key_ok d (take m y2)"
    by (auto simp: key_ok_def j_token_def j_begin_string_def)
  with xs m t show ?thesis by (auto simp: j_token_def)
qed

lemma j_acc_colon:
  assumes "j_acc d (EndValue, [ParseObjectKey]) xs" and "stops isJSONSpace xs"
  shows "\<exists>ys. xs = CHR '':'' # ys \<and> j_acc d (BeginValue, [ParseObjectValue]) ys"
  using assms by (cases xs) (auto simp: j_end_value_def split: if_splits)

lemma j_acc_val:
  assumes "j_acc d (BeginValue, [ParseObjectValue]) xs" and "stops isJSONSpace xs"
    and "d \<le> Suc maxScanDepth"
  shows "\<exists>n k. val_scan xs = Some (n, k) \<and> val_ok d (take n xs) \<and>
    j_acc d (EndValue, [ParseObjectValue]) (drop n xs)"
proof -
  from assms obtain c cs where xs: "xs = c # cs"
    by (cases xs) (auto simp: j_begin_value_def)
  with assms obtain n k where "val_scan xs = Some (n, k)"
    and "j_token d BeginValue [ParseObjectValue] [ParseObjectValue] xs n"
    using j_value [of d "[ParseObjectValue]" c cs] by auto
  then show ?thesis by (auto simp: j_token_def val_ok_def)
qed

lemma parse_seg_accepts:
  assumes "j_acc d (BeginString, [ParseObjectKey]) xs" and d: "d \<le> Suc maxScanDepth"
  shows "\<exists>s r. parse_seg xs = Some (s, r) \<and> json_seg d s \<and> j_acc d (EndValue, [ParseObjectValue]) r"
proof -
  have "j_acc d (BeginString, [ParseObjectKey]) (skip xs)"
    by (rule j_acc_skipI [OF assms(1)]) simp
  then obtain y2 m where y2: "skip xs = dquote # y2" and m: "str_len y2 = Some m"
    and k: "key_ok d (take m y2)" and a: "j_acc d (EndValue, [ParseObjectKey]) (drop (Suc m) y2)"
    using j_acc_key lead_skip(3) by blast
  from a have "j_acc d (EndValue, [ParseObjectKey]) (skip (drop (Suc m) y2))"
    by (rule j_acc_skipI) simp
  then obtain y5 where y5: "skip (drop (Suc m) y2) = CHR '':'' # y5"
    and b: "j_acc d (BeginValue, [ParseObjectValue]) y5"
    using j_acc_colon lead_skip(3) by blast
  from b have "j_acc d (BeginValue, [ParseObjectValue]) (skip y5)"
    by (rule j_acc_skipI) simp
  then obtain n kd where v: "val_scan (skip y5) = Some (n, kd)" and vk: "val_ok d (take n (skip y5))"
    and e: "j_acc d (EndValue, [ParseObjectValue]) (drop n (skip y5))"
    using j_acc_val [OF _ _ d] lead_skip(3) by blast
  from e have "j_acc d (EndValue, [ParseObjectValue]) (skip (drop n (skip y5)))"
    by (rule j_acc_skipI) simp
  moreover obtain s where p: "parse_seg xs = Some (s, skip (drop n (skip y5)))"
    and "key s = take m y2" "val s = take n (skip y5)"
    using y2 m y5 v by (simp add: parse_seg_def Let_def)
  ultimately show ?thesis
    using k vk parse_seg_sound(2) [OF p] by (auto simp: json_seg_def)
qed

lemma parse_members_accepts:
  assumes "j_acc d (BeginString, [ParseObjectKey]) xs" and d: "d \<le> Suc maxScanDepth"
  shows "\<exists>ss t. parse_members xs = Some (ss, CHR ''}'' # t) \<and> list_all (json_seg d) ss \<and> ws t"
  using assms(1)
proof (induction xs rule: parse_members.induct)
  case (1 xs)
  obtain s r where s: "parse_seg xs = Some (s, r)" and j: "json_seg d s"
    and a: "j_acc d (EndValue, [ParseObjectValue]) r"
    using parse_seg_accepts [OF "1.prems" d] by blast
  from a parse_seg_sound(3) [OF s] obtain c t where r: "r = c # t"
    and c: "c = CHR '','' \<and> j_acc d (BeginString, [ParseObjectKey]) t \<or> c = CHR ''}'' \<and> ws t"
    by (cases r) (auto simp: j_end_value_def j_acc_top split: if_splits)
  from c show ?case
  proof
    assume c: "c = CHR '','' \<and> j_acc d (BeginString, [ParseObjectKey]) t"
    then obtain ss t' where "parse_members t = Some (ss, CHR ''}'' # t')"
      and "list_all (json_seg d) ss" "ws t'"
      using "1.IH" s r by blast
    then show ?thesis using s r c j by (subst parse_members.simps) simp
  next
    assume "c = CHR ''}'' \<and> ws t"
    then show ?thesis using s r j by (subst parse_members.simps) simp
  qed
qed

lemma render_accepts:
  assumes "json_seg d s" and "j_acc d (EndValue, [ParseObjectValue]) r"
  shows "j_acc d (BeginString, [ParseObjectKey]) (render s @ r)"
proof -
  from assms have w: "ws (w_key s)" "ws (w_colon s)" "ws (w_val s)" "ws (w_end s)"
    and k: "key_ok d (key s)" and v: "val_ok d (val s)"
    by (simp_all add: json_seg_def seg_ok_def)
  have "j_acc d (EndValue, [ParseObjectValue]) (w_end s @ r)"
    using assms(2) j_acc_ws [OF w(4)] by simp
  then have "j_acc d (BeginValue, [ParseObjectValue]) (w_val s @ val s @ w_end s @ r)"
    using v j_acc_ws [OF w(3)] by (simp add: val_ok_def)
  then have "j_acc d (EndValue, [ParseObjectKey]) (w_colon s @ CHR '':'' # w_val s @ val s @ w_end s @ r)"
    using j_acc_ws [OF w(2)] by (simp add: j_end_value_def)
  then show ?thesis
    using k j_acc_ws [OF w(1)] by (simp add: key_ok_def render_def core_def)
qed

lemma layout_accepts:
  "list_all (json_seg d) ss \<Longrightarrow> ss \<noteq> [] \<Longrightarrow> ws t \<Longrightarrow>
   j_acc d (BeginString, [ParseObjectKey]) (layout ss @ CHR ''}'' # t)"
proof (induction ss rule: layout.induct)
  case (2 s)
  then show ?case using render_accepts [of d s "CHR ''}'' # t"]
    by (simp add: j_end_value_def j_acc_top)
next
  case (3 s s' ss)
  then show ?case
    using render_accepts [of d s "CHR '','' # layout (s' # ss) @ CHR ''}'' # t"]
    by (simp add: j_end_value_def)
qed simp

lemma j_acc_string_or_empty:
  assumes "stops (\<lambda>c. c = CHR ''}'') (skip xs)"
  shows "j_acc d (BeginStringOrEmpty, ps) xs \<longleftrightarrow> j_acc d (BeginString, ps) xs"
proof -
  have "j_acc d (BeginStringOrEmpty, ps) (skip xs) \<longleftrightarrow> j_acc d (BeginString, ps) (skip xs)"
    using assms lead_skip(3) [of xs] by (cases "skip xs") (auto simp: j_begin_string_def)
  moreover have "j_acc d (s, ps) xs \<longleftrightarrow> j_acc d (s, ps) (skip xs)"
    if "s = BeginStringOrEmpty \<or> s = BeginString" for s
    by (rule j_acc_skip) (use that in auto)
  ultimately show ?thesis by blast
qed

text \<open>The whole text: validity of an object, member by member.\<close>

definition object_text :: "bytes \<Rightarrow> seg list \<Rightarrow> bytes \<Rightarrow> bytes" where
  "object_text w ss t = w @ CHR ''{'' # layout ss @ CHR ''}'' # t"

lemma valid_object_cases:
  assumes "json_valid_upto d b" and "skip b = CHR ''{'' # ys" and "d \<le> Suc maxScanDepth"
  shows "(\<exists>t. skip ys = CHR ''}'' # t \<and> ws t) \<or>
    (\<exists>ss t. stops (\<lambda>c. c = CHR ''}'') (skip ys) \<and> parse_members ys = Some (ss, CHR ''}'' # t) \<and>
       list_all (json_seg d) ss \<and> ws t)"
proof -
  have "j_acc d (BeginValue, []) (CHR ''{'' # ys)"
    using assms(1,2) j_acc_skip [of BeginValue "[]" d b] by (simp add: json_valid_upto_def)
  then have a: "j_acc d (BeginStringOrEmpty, [ParseObjectKey]) ys"
    by (simp add: j_begin_value_def j_push_def split: if_splits)
  show ?thesis
  proof (cases "stops (\<lambda>c. c = CHR ''}'') (skip ys)")
    case True
    then have "j_acc d (BeginString, [ParseObjectKey]) ys"
      using a j_acc_string_or_empty by simp
    then show ?thesis using parse_members_accepts [OF _ assms(3)] True by blast
  next
    case False
    then obtain t where t: "skip ys = CHR ''}'' # t" by (cases "skip ys") auto
    then show ?thesis
      using a j_acc_skip [of BeginStringOrEmpty "[ParseObjectKey]" d ys]
      by (auto simp: j_end_value_def j_acc_top split: if_splits)
  qed
qed

lemma object_text_valid:
  assumes "list_all (json_seg d) ss" and "ss \<noteq> []" and "ws w" and "ws t" and "0 < d"
  shows "json_valid_upto d (object_text w ss t)"
proof -
  let ?r = "layout ss @ CHR ''}'' # t"
  have a: "j_acc d (BeginString, [ParseObjectKey]) ?r"
    using assms by (intro layout_accepts)
  then have "j_acc d (BeginString, [ParseObjectKey]) (skip ?r)"
    by (rule j_acc_skipI) simp
  then have "stops (\<lambda>c. c = CHR ''}'') (skip ?r)"
    by (cases "skip ?r") (auto simp: j_begin_string_def)
  then have "j_acc d (BeginStringOrEmpty, [ParseObjectKey]) ?r"
    using a j_acc_string_or_empty by simp
  then show ?thesis
    using assms j_acc_ws [of w BeginValue "[]" d]
    by (simp add: json_valid_upto_def object_text_def j_begin_value_def j_push_def)
qed

end
