(* ===== verification/Json_String.thy ===== *)
theory Json_String
  imports Json_Std
begin

text \<open>
  String decoding as the program uses it from Go's standard library: \<open>utf8.DecodeRune\<close>,
  \<open>utf8.EncodeRune\<close>, \<open>utf8.Valid\<close>, and \<open>encoding/json\<close>'s unquoting and quoting of strings. On top of
  it \<open>unquoteJSONString\<close> of \<open>src/routing.go\<close>, whose fast path (no backslash, valid UTF-8) is proved
  equal to the library call it avoids.
\<close>

section \<open>UTF-8\<close>

definition runeError :: nat where "runeError = 0xFFFD"

definition cont_byte :: "nat \<Rightarrow> nat \<Rightarrow> char \<Rightarrow> bool" where
  "cont_byte lo hi c \<longleftrightarrow> lo \<le> byte_val c \<and> byte_val c \<le> hi"

definition cont_val :: "char \<Rightarrow> nat" where
  "cont_val c = byte_val c - 0x80"

text \<open>The range of the second byte that a leading byte allows.\<close>

definition second_lo :: "nat \<Rightarrow> nat" where
  "second_lo x = (if x = 0xE0 then 0xA0 else if x = 0xF0 then 0x90 else 0x80)"

definition second_hi :: "nat \<Rightarrow> nat" where
  "second_hi x = (if x = 0xED then 0x9F else if x = 0xF4 then 0x8F else 0xBF)"

fun decodeRune :: "bytes \<Rightarrow> nat \<times> nat" where
  "decodeRune [] = (runeError, 0)"
| "decodeRune (c0 # cs) =
     (let x = byte_val c0 in
      if x < 0x80 then (x, 1)
      else if 0xC2 \<le> x \<and> x \<le> 0xDF then
        (case cs of
           c1 # _ \<Rightarrow>
             if cont_byte 0x80 0xBF c1 then ((x - 0xC0) * 64 + cont_val c1, 2) else (runeError, 1)
         | _ \<Rightarrow> (runeError, 1))
      else if 0xE0 \<le> x \<and> x \<le> 0xEF then
        (case cs of
           c1 # c2 # _ \<Rightarrow>
             if cont_byte (second_lo x) (second_hi x) c1 \<and> cont_byte 0x80 0xBF c2
             then ((x - 0xE0) * 4096 + cont_val c1 * 64 + cont_val c2, 3) else (runeError, 1)
         | _ \<Rightarrow> (runeError, 1))
      else if 0xF0 \<le> x \<and> x \<le> 0xF4 then
        (case cs of
           c1 # c2 # c3 # _ \<Rightarrow>
             if cont_byte (second_lo x) (second_hi x) c1 \<and> cont_byte 0x80 0xBF c2
               \<and> cont_byte 0x80 0xBF c3
             then ((x - 0xF0) * 262144 + cont_val c1 * 4096 + cont_val c2 * 64 + cont_val c3, 4)
             else (runeError, 1)
         | _ \<Rightarrow> (runeError, 1))
      else (runeError, 1))"

definition encodeRune :: "nat \<Rightarrow> bytes" where
  "encodeRune r0 =
     (let r = (if 0xD800 \<le> r0 \<and> r0 \<le> 0xDFFF \<or> 0x10FFFF < r0 then runeError else r0) in
      if r < 0x80 then [char_of r]
      else if r < 0x800 then [char_of (0xC0 + r div 64), char_of (0x80 + r mod 64)]
      else if r < 0x10000 then
        [char_of (0xE0 + r div 4096), char_of (0x80 + r div 64 mod 64), char_of (0x80 + r mod 64)]
      else
        [char_of (0xF0 + r div 262144), char_of (0x80 + r div 4096 mod 64),
         char_of (0x80 + r div 64 mod 64), char_of (0x80 + r mod 64)])"

lemma decodeRune_size: "xs \<noteq> [] \<Longrightarrow> 0 < snd (decodeRune xs) \<and> snd (decodeRune xs) \<le> length xs"
  by (cases xs) (auto simp: Let_def split: list.splits)

lemma digit64:
  "(c::nat) < 64 \<Longrightarrow> (q * 64 + c) div 64 = q" "(c::nat) < 64 \<Longrightarrow> (q * 64 + c) mod 64 = c"
  by simp_all

lemma digits64:
  assumes "r = (a * 64 + b) * 64 + (c::nat)" and "b < 64" and "c < 64"
  shows "r div 4096 = a" and "r div 64 mod 64 = b" and "r mod 64 = c"
proof -
  have "r div 64 = a * 64 + b" using assms(1,3) digit64(1) by simp
  moreover have "r div 4096 = r div 64 div 64" by (simp add: div_mult2_eq [symmetric])
  ultimately show "r div 4096 = a" and "r div 64 mod 64 = b"
    using assms(2) digit64 by simp_all
  show "r mod 64 = c" unfolding assms(1) by (rule digit64(2) [OF assms(3)])
qed

lemma encodeRune_cases:
  "r < 0x80 \<Longrightarrow> encodeRune r = [char_of r]"
  "0x80 \<le> r \<Longrightarrow> r < 0x800 \<Longrightarrow> encodeRune r = [char_of (0xC0 + r div 64), char_of (0x80 + r mod 64)]"
  "0x800 \<le> r \<Longrightarrow> r < 0x10000 \<Longrightarrow> \<not> (0xD800 \<le> r \<and> r \<le> 0xDFFF) \<Longrightarrow> encodeRune r =
     [char_of (0xE0 + r div 4096), char_of (0x80 + r div 64 mod 64), char_of (0x80 + r mod 64)]"
  "0x10000 \<le> r \<Longrightarrow> r \<le> 0x10FFFF \<Longrightarrow> encodeRune r =
     [char_of (0xF0 + r div 262144), char_of (0x80 + r div 4096 mod 64),
      char_of (0x80 + r div 64 mod 64), char_of (0x80 + r mod 64)]"
  by (auto simp: encodeRune_def Let_def)

text \<open>A decoded rune encodes back to the bytes it was read from.\<close>

lemma byte_val_less: "byte_val c < 256"
  by simp

lemma char_of_byte: "n = byte_val c \<Longrightarrow> char_of n = c"
  by simp

lemma encode_decode:
  assumes "decodeRune xs = (r, n)" and "xs \<noteq> []" and "\<not> (r = runeError \<and> n = 1)"
  shows "encodeRune r = take n xs"
proof -
  obtain c0 cs where xs: "xs = c0 # cs" using assms(2) by (cases xs) auto
  let ?x = "byte_val c0"
  consider (one) "?x < 0x80" "r = ?x" "n = 1"
    | (two) c1 ds where "cs = c1 # ds" "0xC2 \<le> ?x" "?x \<le> 0xDF" "0x80 \<le> byte_val c1" "byte_val c1 \<le> 0xBF"
        "r = (?x - 0xC0) * 64 + (byte_val c1 - 0x80)" "n = 2"
    | (three) c1 c2 ds where "cs = c1 # c2 # ds" "0xE0 \<le> ?x" "?x \<le> 0xEF"
        "second_lo ?x \<le> byte_val c1" "byte_val c1 \<le> second_hi ?x"
        "0x80 \<le> byte_val c2" "byte_val c2 \<le> 0xBF"
        "r = (?x - 0xE0) * 4096 + (byte_val c1 - 0x80) * 64 + (byte_val c2 - 0x80)" "n = 3"
    | (four) c1 c2 c3 ds where "cs = c1 # c2 # c3 # ds" "0xF0 \<le> ?x" "?x \<le> 0xF4"
        "second_lo ?x \<le> byte_val c1" "byte_val c1 \<le> second_hi ?x"
        "0x80 \<le> byte_val c2" "byte_val c2 \<le> 0xBF" "0x80 \<le> byte_val c3" "byte_val c3 \<le> 0xBF"
        "r = (?x - 0xF0) * 262144 + (byte_val c1 - 0x80) * 4096 + (byte_val c2 - 0x80) * 64 + (byte_val c3 - 0x80)"
        "n = 4"
    using assms by (auto simp: xs Let_def cont_byte_def cont_val_def split: if_splits list.splits)
  then show ?thesis
  proof cases
    case one
    then show ?thesis by (simp add: encodeRune_cases xs)
  next
    case two
    define a b where "a = ?x - 0xC0" and "b = byte_val c1 - 0x80"
    have "2 \<le> a" "a \<le> 31" "b < 64" "r = a * 64 + b" "?x = 0xC0 + a" "byte_val c1 = 0x80 + b"
      using two by (auto simp: a_def b_def)
    moreover from this have "char_of (0xC0 + a) = c0" "char_of (0x80 + b) = c1"
      by (metis char_of_char)+
    ultimately show ?thesis using two by (simp add: encodeRune_cases(2) xs)
  next
    case three
    define a b c where "a = ?x - 0xE0" and "b = byte_val c1 - 0x80" and "c = byte_val c2 - 0x80"
    have v: "a \<le> 15" "b < 64" "c < 64" "a = 0 \<Longrightarrow> 32 \<le> b" "a = 13 \<Longrightarrow> b < 32"
      and x: "?x = 0xE0 + a" "byte_val c1 = 0x80 + b" "byte_val c2 = 0x80 + c"
      and r: "r = (a * 64 + b) * 64 + c"
      using three by (auto simp: a_def b_def c_def second_lo_def second_hi_def split: if_splits)
    have ch: "char_of (0xE0 + a) = c0" "char_of (0x80 + b) = c1" "char_of (0x80 + c) = c2"
      using x by (metis char_of_char)+
    have "0x800 \<le> r" using v r by (cases "a = 0") auto
    moreover have "r < 0x10000" using v r by simp
    moreover have "\<not> (0xD800 \<le> r \<and> r \<le> 0xDFFF)"
      using v r by (cases a "13::nat" rule: linorder_cases) auto
    ultimately have "encodeRune r = [c0, c1, c2]"
      by (rule encodeRune_cases(3) [of r, unfolded digits64 [OF r v(2,3)] ch])
    then show ?thesis using three(1,9) by (simp add: xs)
  next
    case four
    define a b c e where "a = ?x - 0xF0" and "b = byte_val c1 - 0x80" and "c = byte_val c2 - 0x80"
      and "e = byte_val c3 - 0x80"
    have v: "a \<le> 4" "b < 64" "c < 64" "e < 64" "a = 0 \<Longrightarrow> 16 \<le> b" "a = 4 \<Longrightarrow> b < 16"
      and x: "?x = 0xF0 + a" "byte_val c1 = 0x80 + b" "byte_val c2 = 0x80 + c" "byte_val c3 = 0x80 + e"
      using four by (auto simp: a_def b_def c_def e_def second_lo_def second_hi_def split: if_splits)
    have r: "r = ((a * 64 + b) * 64 + c) * 64 + e"
      unfolding four(10) a_def [symmetric] b_def [symmetric] c_def [symmetric] e_def [symmetric]
      by simp
    have ch: "char_of (0xF0 + a) = c0" "char_of (0x80 + b) = c1" "char_of (0x80 + c) = c2"
      "char_of (0x80 + e) = c3"
      using x by (metis char_of_char)+
    note d = digits64 [OF r v(3,4)]
    have d2: "r div 4096 mod 64 = b" "r div 262144 = a"
      using d(1) digit64 [OF v(2), of a] div_mult2_eq [of r 4096 64] by simp_all
    have "0x10000 \<le> r" using v r by (cases "a = 0") auto
    moreover have "r \<le> 0x10FFFF" using v r by (cases "a = 4") auto
    ultimately have "encodeRune r = [c0, c1, c2, c3]"
      by (rule encodeRune_cases(4) [of r, unfolded d(2,3) d2 ch])
    then show ?thesis using four(1,11) by (simp add: xs)
  qed
qed

declare decodeRune.simps [simp del]

lemma decodeRune_pos:
  "(r, n) = decodeRune (c # cs) \<Longrightarrow> 0 < n" "decodeRune (c # cs) = (r, n) \<Longrightarrow> 0 < n"
  using decodeRune_size [of "c # cs"] by (metis list.distinct(1) snd_conv)+

section \<open>utf8.Valid\<close>

function utf8_valid :: "bytes \<Rightarrow> bool" where
  "utf8_valid [] = True"
| "utf8_valid (c # cs) =
     (case decodeRune (c # cs) of
        (r, n) \<Rightarrow> if r = runeError \<and> n = 1 then False else utf8_valid (drop n (c # cs)))"
  by pat_completeness auto
termination
  by (relation "measure length") (auto dest: decodeRune_pos)

declare utf8_valid.simps [simp del]

lemma decode_ascii: "byte_val c < 0x80 \<Longrightarrow> decodeRune (c # cs) = (byte_val c, 1)"
  by (simp add: decodeRune.simps)

lemma utf8_valid_ascii: "byte_val c < 0x80 \<Longrightarrow> utf8_valid (c # cs) = utf8_valid cs"
  by (simp add: utf8_valid.simps decode_ascii runeError_def)

lemma utf8_valid_code [code]:
  "utf8_valid [] = True"
  "utf8_valid (c # cs) =
     (if byte_val c < 0x80 then utf8_valid cs
      else (case decodeRune (c # cs) of
        (r, n) \<Rightarrow> if r = runeError \<and> n = 1 then False else utf8_valid (drop n (c # cs))))"
  by (simp_all add: utf8_valid_ascii utf8_valid.simps(1) split: if_split)
     (simp add: utf8_valid.simps(2))

section \<open>Unquoting\<close>

definition hex_val :: "char \<Rightarrow> nat" where
  "hex_val c =
     (let x = byte_val c in
      if x \<le> byte_val CHR ''9'' then x - byte_val CHR ''0''
      else if x \<le> byte_val CHR ''F'' then x - byte_val CHR ''A'' + 10
      else x - byte_val CHR ''a'' + 10)"

text \<open>\<open>getu4\<close>: the value of a leading \<open>\uXXXX\<close>, if there is one.\<close>

fun getu4 :: "bytes \<Rightarrow> nat option" where
  "getu4 (a # u # h1 # h2 # h3 # h4 # rest) =
     (if a = backslash \<and> u = CHR ''u'' \<and> isHex h1 \<and> isHex h2 \<and> isHex h3 \<and> isHex h4
      then Some (((hex_val h1 * 16 + hex_val h2) * 16 + hex_val h3) * 16 + hex_val h4)
      else None)"
| "getu4 _ = None"

definition isSurrogate :: "nat \<Rightarrow> bool" where
  "isSurrogate r \<longleftrightarrow> 0xD800 \<le> r \<and> r < 0xE000"

definition decodePair :: "nat \<Rightarrow> nat option \<Rightarrow> nat option" where
  "decodePair r1 r2 =
     (case r2 of
        None \<Rightarrow> None
      | Some r2 \<Rightarrow>
          if 0xD800 \<le> r1 \<and> r1 < 0xDC00 \<and> 0xDC00 \<le> r2 \<and> r2 < 0xE000
          then Some ((r1 - 0xD800) * 1024 + (r2 - 0xDC00) + 0x10000) else None)"

definition simple_escape :: "char \<Rightarrow> char option" where
  "simple_escape c =
     (if c = dquote \<or> c = backslash \<or> c = CHR ''/'' \<or> c = CHR 0x27 then Some c
      else if c = CHR ''b'' then Some CHR 0x08
      else if c = CHR ''f'' then Some CHR 0x0C
      else if c = CHR ''n'' then Some CHR 0x0A
      else if c = CHR ''r'' then Some CHR 0x0D
      else if c = CHR ''t'' then Some CHR 0x09
      else None)"

text \<open>The loop of \<open>unquoteBytes\<close> over the bytes between the quotes.\<close>

function unquote_body :: "bytes \<Rightarrow> bytes option" where
  "unquote_body [] = Some []"
| "unquote_body (c # cs) =
     (if c = backslash then
        (case cs of
           [] \<Rightarrow> None
         | e # es \<Rightarrow>
             if e = CHR ''u'' then
               (case getu4 (c # cs) of
                  None \<Rightarrow> None
                | Some r \<Rightarrow>
                    let rest = drop 6 (c # cs) in
                    if isSurrogate r then
                      (case decodePair r (getu4 rest) of
                         Some p \<Rightarrow> map_option ((@) (encodeRune p)) (unquote_body (drop 12 (c # cs)))
                       | None \<Rightarrow> map_option ((@) (encodeRune runeError)) (unquote_body rest))
                    else map_option ((@) (encodeRune r)) (unquote_body rest))
             else
               (case simple_escape e of
                  None \<Rightarrow> None
                | Some x \<Rightarrow> map_option ((#) x) (unquote_body es)))
      else if c = dquote \<or> byte_val c < 0x20 then None
      else if byte_val c < 0x80 then map_option ((#) c) (unquote_body cs)
      else (case decodeRune (c # cs) of
          (r, n) \<Rightarrow> map_option ((@) (encodeRune r)) (unquote_body (drop n (c # cs)))))"
  by pat_completeness auto
termination by (relation "measure length") (auto dest: decodeRune_pos)

declare unquote_body.simps [simp del]

text \<open>
  \<open>json.Unmarshal(b, &s)\<close> into a Go string, for a text that starts and ends with a quote: the text
  must be valid JSON, which makes it one string token, and the string is unquoted.
\<close>

definition json_unmarshal_string :: "bytes \<Rightarrow> bytes option" where
  "json_unmarshal_string b =
     (if json_valid b then unquote_body (slice b 1 (length b - 1)) else None)"

section \<open>unquoteJSONString\<close>

definition unquoteJSONString :: "bytes \<Rightarrow> bytes option" where
  "unquoteJSONString b =
     (if length b < 2 \<or> b ! 0 \<noteq> dquote \<or> b ! (length b - 1) \<noteq> dquote then None
      else
        (let inner = slice b 1 (length b - 1) in
         if backslash \<notin> set inner \<and> utf8_valid inner then Some inner
         else json_unmarshal_string b))"


text \<open>
  The fast path. On the strings the scanner hands over (a body that \<open>scanStringBody\<close> ended at the
  closing quote) without backslashes and with valid UTF-8, unquoting returns the body itself.
\<close>

definition string_token :: "bytes \<Rightarrow> bool" where
  "string_token s \<longleftrightarrow> str_len (s @ [dquote]) = Some (length s)"

lemma string_token_Cons:
  assumes "string_token (c # cs)" and "c \<noteq> backslash"
  shows "c \<noteq> dquote" and "\<not> byte_val c < 0x20" and "string_token cs"
  using assms by (auto simp: string_token_def split: if_splits)

lemma string_token_drop:
  assumes "string_token cs" and "backslash \<notin> set cs"
  shows "string_token (drop n cs)"
  using assms
proof (induction n arbitrary: cs)
  case (Suc n)
  then show ?case
  proof (cases cs)
    case (Cons c cs')
    with Suc.prems have "c \<noteq> backslash" "string_token (c # cs')" by auto
    then have "string_token cs'" using string_token_Cons(3) [of c cs'] by simp
    then show ?thesis using Suc Cons by simp
  qed simp
qed simp

lemma string_token_valid:
  assumes "string_token s" and "backslash \<notin> set s"
  shows "json_valid (dquote # s @ [dquote])"
proof -
  have "j_acc d (InString, []) (s @ [dquote])" for d
    using assms
  proof (induction s)
    case (Cons c cs)
    then have c: "c \<noteq> backslash" by auto
    with Cons string_token_Cons [OF Cons.prems(1) c] show ?case by simp
  qed (simp add: j_end_value_def)
  then show ?thesis
    by (simp add: json_valid_def json_valid_upto_def j_begin_value_def)
qed

lemma unquote_plain:
  "utf8_valid s \<Longrightarrow> string_token s \<Longrightarrow> backslash \<notin> set s \<Longrightarrow> unquote_body s = Some s"
proof (induction "length s" arbitrary: s rule: less_induct)
  case less
  show ?case
  proof (cases s)
    case Nil
    then show ?thesis by (simp add: unquote_body.simps)
  next
    case (Cons c cs)
    obtain r n where rn: "decodeRune s = (r, n)" by force
    with less.prems(1) Cons have ok: "\<not> (r = runeError \<and> n = 1)" and v: "utf8_valid (drop n s)"
      by (auto simp: utf8_valid.simps split: if_splits)
    have n: "0 < n" "n \<le> length s"
      using decodeRune_size [of s] rn Cons by simp_all
    have ih: "unquote_body (drop n s) = Some (drop n s)"
      using n v less.prems string_token_drop [of s n]
      by (intro less.hyps) (auto dest: in_set_dropD)
    have tok: "c \<noteq> backslash" "c \<noteq> dquote" "\<not> byte_val c < 0x20"
      using less.prems string_token_Cons [of c cs] by (auto simp: Cons)
    show ?thesis
    proof (cases "byte_val c < 0x80")
      case True
      then show ?thesis
        using ih rn tok unfolding Cons by (auto simp: decode_ascii unquote_body.simps)
    next
      case False
      have "encodeRune r = take n s" using encode_decode [OF rn _ ok] Cons by simp
      then show ?thesis
        using ih rn tok False unfolding Cons
        by (subst unquote_body.simps) simp
    qed
  qed
qed

text \<open>C22: \<open>unquote_fast_path\<close>. On the string tokens the scanner hands over, with or without
  escapes, \<open>unquoteJSONString\<close> returns what \<open>json.Unmarshal\<close> returns: the fast path changes nothing.\<close>

theorem unquote_fast_path:
  assumes "string_token s"
  shows "unquoteJSONString (dquote # s @ [dquote]) = json_unmarshal_string (dquote # s @ [dquote])"
proof -
  have "slice (dquote # s @ [dquote]) 1 (length (dquote # s @ [dquote]) - 1) = s"
    by (simp add: slice_def)
  moreover have "(s @ [dquote]) ! length s = dquote" by simp
  ultimately show ?thesis
    using assms string_token_valid unquote_plain
    by (simp add: unquoteJSONString_def json_unmarshal_string_def Let_def)
qed

theorem unquote_fast_path_witness:
  "string_token ''web'' \<and> unquoteJSONString ''\"web\"'' = json_unmarshal_string ''\"web\"''"
proof -
  have t: "string_token ''web''" by code_simp
  show ?thesis using t unquote_fast_path [OF t] by simp
qed

end
