(* ===== verification/Extract.thy ===== *)
theory Extract
  imports Members Json_String
begin

text \<open>
  \<open>extractAndStripFields\<close> and its two entry points (\<open>src/routing.go\<close>): one pass over the top-level
  members of a datagram that recovers \<open>_project\<close> and \<open>_token\<close> and splices them out of the body. The
  pass (\<open>scanMembers\<close>), the choice of cuts and the splice are modelled with the code's offsets; the
  specification is the member view of \<open>Members\<close>.
\<close>

section \<open>The model\<close>

definition projectKey :: bytes where "projectKey = ''_project''"
definition tokenKey :: bytes where "tokenKey = ''_token''"
definition projectKeyMarker :: bytes where "projectKeyMarker = dquote # projectKey @ [dquote]"
definition tokenKeyMarker :: bytes where "tokenKeyMarker = dquote # tokenKey @ [dquote]"

text \<open>\<open>bytes.Contains\<close>\<close>

fun bytesContains :: "bytes \<Rightarrow> bytes \<Rightarrow> bool" where
  "bytesContains [] m \<longleftrightarrow> m = []"
| "bytesContains (c # cs) m \<longleftrightarrow> take (length m) (c # cs) = m \<or> bytesContains cs m"

record routingFields =
  f_project :: bytes
  f_token :: bytes
  f_stripped :: bytes
  f_removed :: bool
  f_malformed :: bool
  f_badProject :: bool
  f_badToken :: bool

definition miss :: "bytes \<Rightarrow> routingFields" where
  "miss b = \<lparr>f_project = [], f_token = [], f_stripped = b, f_removed = False,
     f_malformed = False, f_badProject = False, f_badToken = False\<rparr>"

definition malformed :: "bytes \<Rightarrow> routingFields" where
  "malformed b = (miss b)\<lparr>f_malformed := True\<rparr>"

record span =
  keyStart :: nat
  valEnd :: nat
  idx :: nat

text \<open>The variables of the member loop.\<close>

record scanVars =
  hits :: "span list"
  v_idx :: nat
  project :: bytes
  token :: bytes
  badProject :: bool
  badToken :: bool

definition scanVars0 :: scanVars where
  "scanVars0 = \<lparr>hits = [], v_idx = 0, project = [], token = [], badProject = False, badToken = False\<rparr>"

text \<open>The switch on the raw key: both cases record the hit; last occurrence wins.\<close>

definition matchMember :: "bool \<Rightarrow> bytes \<Rightarrow> span \<Rightarrow> bytes \<Rightarrow> valueKind \<Rightarrow> scanVars \<Rightarrow> scanVars" where
  "matchMember withToken k h v kind a =
     (if k = projectKey then
        (let a = a\<lparr>hits := hits a @ [h], project := [], badProject := True\<rparr> in
         if kind = kindString then
           (case unquoteJSONString v of
              Some pv \<Rightarrow> a\<lparr>project := pv, badProject := False\<rparr>
            | None \<Rightarrow> a)
         else a)
      else if withToken \<and> k = tokenKey then
        (let a = a\<lparr>hits := hits a @ [h], token := [], badToken := True\<rparr> in
         if kind = kindString then
           (case unquoteJSONString v of
              Some tv \<Rightarrow> a\<lparr>token := tv, badToken := False\<rparr>
            | None \<Rightarrow> a)
         else a)
      else a)"

text \<open>The \<open>for\<close> loop over the members; \<open>None\<close> is the early return with \<open>malformed\<close>.\<close>

lemma scanWS_ge: "i \<le> scanWS b i"
  by (simp add: scanWS_len)

lemma scanValue_gt: "scanValue b i = Some (j, k) \<Longrightarrow> i < j"
  by (auto simp: scanValue_len dest: val_len_pos)

function scanMembers :: "bytes \<Rightarrow> bool \<Rightarrow> nat \<Rightarrow> scanVars \<Rightarrow> scanVars option" where
  "scanMembers b withToken i0 a =
     (let i = scanWS b i0 in
      if i \<ge> length b \<or> b ! i \<noteq> dquote then None
      else
        (let kStart = i; keyContentStart = i + 1 in
         case scanStringBody b keyContentStart of
           None \<Rightarrow> None
         | Some keyContentEnd \<Rightarrow>
             (let i = scanWS b (keyContentEnd + 1) in
              if i \<ge> length b \<or> b ! i \<noteq> CHR '':'' then None
              else
                (let valStart = scanWS b (i + 1) in
                 case scanValue b valStart of
                   None \<Rightarrow> None
                 | Some (vEnd, valKind) \<Rightarrow>
                     (let a' = (matchMember withToken (slice b keyContentStart keyContentEnd)
                              \<lparr>keyStart = kStart, valEnd = vEnd, idx = v_idx a\<rparr>
                              (slice b valStart vEnd) valKind a)\<lparr>v_idx := v_idx a + 1\<rparr>;
                          i = scanWS b vEnd
                      in if i \<ge> length b then None
                         else if b ! i = CHR '','' then scanMembers b withToken (i + 1) a'
                         else if b ! i = CHR ''}'' then Some a'
                         else None)))))"
  by pat_completeness auto
termination
proof (relation "measure (\<lambda>(b, w, i, a). length b - i)", goal_cases)
  case (2 b w i0 a i kStart kcs kce i' vStart vr vEnd kind a' i'')
  then have "kcs \<le> kce" "vStart < vEnd" "vEnd \<le> i''" "kce + 1 \<le> i'" "i' + 1 \<le> vStart" "i0 \<le> i" "kcs = i + 1"
    using scanWS_ge scanStringBody_bounds scanValue_gt by auto
  then show ?case using 2 by auto
qed auto

declare scanMembers.simps [simp del]

text \<open>The cut around one hit; \<open>k\<close> is its position among the hits.\<close>

function skipForward :: "bytes \<Rightarrow> nat \<Rightarrow> nat" where
  "skipForward b e = (if e < length b \<and> isJSONSpace (b ! e) then skipForward b (e + 1) else e)"
  by pat_completeness auto
termination by (relation "measure (\<lambda>(b, e). length b - e)") auto

declare skipForward.simps [simp del]

fun skipBackward :: "bytes \<Rightarrow> nat \<Rightarrow> nat" where
  "skipBackward b 0 = 0"
| "skipBackward b (Suc s) = (if isJSONSpace (b ! s) then skipBackward b s else Suc s)"

definition hitCut :: "bytes \<Rightarrow> nat \<Rightarrow> span \<Rightarrow> nat \<times> nat" where
  "hitCut b k h =
     (if idx h = k then
        (let e = skipForward b (valEnd h)
         in (keyStart h, if e < length b \<and> b ! e = CHR '','' then e + 1 else e))
      else
        (let s = skipBackward b (keyStart h)
         in (if 0 < s \<and> b ! (s - 1) = CHR '','' then s - 1 else s, valEnd h)))"

fun hitCuts :: "bytes \<Rightarrow> nat \<Rightarrow> span list \<Rightarrow> (nat \<times> nat) list" where
  "hitCuts b k [] = []"
| "hitCuts b k (h # hs) = hitCut b k h # hitCuts b (k + 1) hs"

fun splice :: "bytes \<Rightarrow> nat \<Rightarrow> bytes \<Rightarrow> (nat \<times> nat) list \<Rightarrow> bytes" where
  "splice b pos out [] = out @ drop pos b"
| "splice b pos out ((s, e) # cs) =
     splice b e (if s > pos then out @ slice b pos s else out) cs"

definition extractAndStripFields :: "bytes \<Rightarrow> bool \<Rightarrow> routingFields" where
  "extractAndStripFields b withToken =
     (if \<not> bytesContains b projectKeyMarker \<and> \<not> (withToken \<and> bytesContains b tokenKeyMarker)
      then miss b
      else
        (let i = scanWS b 0 in
         if i \<ge> length b then malformed b
         else if b ! i \<noteq> CHR ''{'' then miss b
         else
           (let i = scanWS b (i + 1) in
            if i \<ge> length b then malformed b
            else if b ! i = CHR ''}'' then miss b
            else
              (case scanMembers b withToken i scanVars0 of
                 None \<Rightarrow> malformed b
               | Some a \<Rightarrow>
                   if hits a = [] then miss b
                   else \<lparr>f_project = project a, f_token = token a,
                     f_stripped =
                       (if length (hits a) = v_idx a then ''{}''
                        else splice b 0 [] (hitCuts b 0 (hits a))),
                     f_removed = True, f_malformed = False,
                     f_badProject = badProject a, f_badToken = badToken a\<rparr>))))"

definition extractAndStripProject :: "bytes \<Rightarrow> bytes \<times> bytes \<times> bool \<times> bool \<times> bool" where
  "extractAndStripProject b =
     (let f = extractAndStripFields b False
      in (f_project f, f_stripped f, f_removed f, f_malformed f, f_badProject f))"

definition extractAndStripRouting :: "bytes \<Rightarrow> routingFields" where
  "extractAndStripRouting b = extractAndStripFields b True"

end
