(* ===== verification/Json_Embed.thy ===== *)
theory Json_Embed
  imports Json_Std
begin

text \<open>
  Moving accepted JSON around: a text accepted at the top level is accepted as a value inside
  enclosing containers, whitespace before a closing brace can go, and \<open>read_value\<close> is what
  \<open>json.Decoder\<close> does to find the end of the next value of a stream.
\<close>

section \<open>A value inside containers\<close>

text \<open>A configuration at the top level, seen from inside the containers \<open>qs\<close>.\<close>

definition embed :: "jparse list \<Rightarrow> jconf \<Rightarrow> jconf" where
  "embed qs cf = (if fst cf = EndTop then EndValue else fst cf, snd cf @ qs)"

abbreviation top_ok :: "jconf \<Rightarrow> bool" where
  "top_ok cf \<equiv> fst cf = EndTop \<longrightarrow> snd cf = []"

lemma embed_not_top: "s \<noteq> EndTop \<Longrightarrow> embed qs (s, ps) = (s, ps @ qs)"
  by (simp add: embed_def)

lemma embed_end_value:
  assumes "j_end_value ps c = Some cf" and "qs \<noteq> []"
  shows "j_end_value (ps @ qs) c = Some (embed qs cf) \<and> top_ok cf"
proof (cases ps)
  case Nil
  obtain q qs' where qs: "qs = q # qs'" using assms(2) by (cases qs) auto
  from Nil assms(1) have "isJSONSpace c" "cf = (EndTop, [])"
    by (auto simp: j_end_value_def split: if_split_asm)
  then show ?thesis using Nil qs by (simp add: j_end_value_def embed_def)
next
  case (Cons p ps')
  then show ?thesis using assms
    by (cases p; cases "isJSONSpace c") (auto simp: j_end_value_def embed_def Let_def split: if_split_asm)
qed

lemma begin_value_append:
  "j_begin_value (d + length qs) s (ps @ qs) c =
     map_option (\<lambda>cf. (fst cf, snd cf @ qs)) (j_begin_value d s ps c)"
  by (simp add: j_begin_value_def j_push_def)

lemma begin_value_not_top: "j_begin_value d s ps c = Some cf \<Longrightarrow> s \<noteq> EndTop \<Longrightarrow> fst cf \<noteq> EndTop"
  by (simp add: j_begin_value_def j_push_def split: if_split_asm) auto

lemma embed_begin:
  assumes "j_begin_value d s ps c = Some cf" and "s \<noteq> EndTop"
  shows "j_begin_value (d + length qs) s (ps @ qs) c = Some (embed qs cf) \<and> top_ok cf"
  using assms begin_value_not_top [OF assms] by (simp add: begin_value_append embed_def)

lemma embed_num0:
  assumes "j_num0 ps c = Some cf" and "qs \<noteq> []"
  shows "j_num0 (ps @ qs) c = Some (embed qs cf) \<and> top_ok cf"
  using assms embed_end_value [of ps c cf qs] by (auto simp: j_num0_def embed_def split: if_split_asm)

lemma embed_step:
  assumes "j_step d (s, ps) c = Some cf'" and "s = EndTop \<Longrightarrow> ps = []" and "qs \<noteq> []"
    and "s = BeginStringOrEmpty \<Longrightarrow> ps \<noteq> []"
  shows "j_step (d + length qs) (embed qs (s, ps)) c = Some (embed qs cf') \<and> top_ok cf'"
proof -
  note ev = embed_end_value [OF _ assms(3)] and n0 = embed_num0 [OF _ assms(3)]
  note bv = embed_begin [where qs = qs]
  have top: "j_end_value qs c = Some (EndValue, qs)" if "isJSONSpace c"
    using that assms(3) by (cases qs) (simp_all add: j_end_value_def)
  show ?thesis
  proof (cases s)
    case BeginStringOrEmpty
    then obtain p ps' where "ps = p # ps'" using assms(4) by (cases ps) auto
    then show ?thesis using assms(1) BeginStringOrEmpty ev [of "ParseObjectValue # ps'" c]
      by (auto simp: embed_not_top j_begin_string_def split: if_split_asm)
  next
    case EndTop
    then show ?thesis using assms top by (auto simp: embed_def split: if_split_asm)
  qed (use assms(1) ev n0 bv in \<open>auto simp: embed_not_top j_begin_string_def split: if_split_asm list.splits\<close>)
qed

lemma begin_value_bsoe:
  "j_begin_value d s ps c = Some cf \<Longrightarrow> s \<noteq> BeginStringOrEmpty \<Longrightarrow> fst cf = BeginStringOrEmpty \<Longrightarrow> snd cf \<noteq> []"
  by (simp add: j_begin_value_def j_push_def split: if_split_asm) auto

lemma end_value_bsoe: "j_end_value ps c = Some cf \<Longrightarrow> fst cf \<noteq> BeginStringOrEmpty"
  by (auto simp: j_end_value_def Let_def split: list.split_asm jparse.split_asm if_split_asm)

lemma step_bsoe:
  assumes "j_step d (s, ps) c = Some cf" and "s = BeginStringOrEmpty \<Longrightarrow> ps \<noteq> []"
    and "fst cf = BeginStringOrEmpty"
  shows "snd cf \<noteq> []"
  using assms begin_value_bsoe [of d _ ps c cf] end_value_bsoe [of _ c cf]
  by (cases s) (auto simp: j_begin_string_def j_num0_def split: if_split_asm list.split_asm)

text \<open>The states in which a value may be complete.\<close>

definition complete :: "nat \<Rightarrow> jconf \<Rightarrow> bool" where
  "complete d cf \<longleftrightarrow> fst cf = EndTop \<or> map_option fst (j_step d cf CHR '' '') = Some EndTop"

lemma complete_cases:
  assumes "complete d (s, ps)" and "s \<noteq> EndTop"
  shows "ps = [] \<and> s \<in> {EndValue, Num1, Num0, Dot0, NumE0, InLit []}"
  using assms
  by (cases s) (auto simp: complete_def j_begin_value_def j_begin_string_def j_num0_def j_end_value_def
      isHex_def nonzeroDigit_def split: list.splits if_split_asm)

lemma complete_continue:
  assumes "complete d (s, [])" and "s \<noteq> EndTop" and "j_acc D (EndValue, qs) ys"
  shows "j_acc D (s, qs) ys"
proof -
  note st = end_value_stops [OF assms(3)] end_value_stops_digit [OF assms(3)]
  have "s \<in> {EndValue, Num1, Num0, Dot0, NumE0, InLit []}"
    using complete_cases [OF assms(1,2)] by simp
  moreover have "j_acc D (Num1, qs) ys" "j_acc D (Num0, qs) ys"
    "j_acc D (Dot0, qs) ys" "j_acc D (NumE0, qs) ys"
    using assms(3) st
    by (auto simp: j_num0_def stops_def split: list.splits
        intro!: j_acc_end_number [THEN iffD2, where P1 = "\<lambda>c. isDigit c \<or> c = CHR ''.'' \<or> c = CHR ''e'' \<or> c = CHR ''E''"])
  moreover have "j_acc D (InLit [], qs) ys"
    using assms(3) by (cases ys) simp_all
  ultimately show ?thesis using assms(3) by auto
qed

lemma embed_acc:
  assumes "j_acc d (s, ps) xs" and "s = EndTop \<Longrightarrow> ps = []" and "s = BeginStringOrEmpty \<Longrightarrow> ps \<noteq> []"
    and "qs \<noteq> []" and "j_acc (d + length qs) (EndValue, qs) ys"
  shows "j_acc (d + length qs) (embed qs (s, ps)) (xs @ ys)"
  using assms(1-3)
proof (induction xs arbitrary: s ps)
  case Nil
  then have c: "complete d (s, ps)" by (simp add: complete_def)
  show ?case
  proof (cases "s = EndTop")
    case True
    then show ?thesis using Nil assms(5) by (simp add: embed_def)
  next
    case False
    then show ?thesis using complete_cases [OF c False] complete_continue [OF _ False assms(5)] c
      by (simp add: embed_def)
  qed
next
  case (Cons c xs)
  then obtain s' ps' where st: "j_step d (s, ps) c = Some (s', ps')" and a: "j_acc d (s', ps') xs"
    by (cases "j_step d (s, ps) c") auto
  from embed_step [OF st Cons.prems(2) assms(4) Cons.prems(3)]
  have "j_step (d + length qs) (embed qs (s, ps)) c = Some (embed qs (s', ps'))"
    and "s' = EndTop \<Longrightarrow> ps' = []" by auto
  moreover have "s' = BeginStringOrEmpty \<Longrightarrow> ps' \<noteq> []"
    using step_bsoe [OF st] Cons.prems(3) by auto
  ultimately show ?case using Cons.IH [OF a] by simp
qed

text \<open>The form used below: a valid text is a value wherever a value may stand.\<close>

lemma value_in_container:
  assumes "json_valid_upto d v" and "qs \<noteq> []" and "j_acc (d + length qs) (EndValue, qs) ys"
  shows "j_acc (d + length qs) (BeginValue, qs) (v @ ys)"
  using embed_acc [of d BeginValue "[]" v qs ys] assms
  by (simp add: json_valid_upto_def embed_def)

end
