(* ===== verification/Timestamp.thy ===== *)
theory Timestamp
  imports Json_Embed Json_String
begin

text \<open>
  What stamping an event uses of the standard library: \<open>time.Time.Format(time.RFC3339Nano)\<close> of a UTC
  instant and \<open>json.Marshal\<close> of a string. An instant is its number of nanoseconds since the epoch; the
  years 0 to 9999 are the ones that print in four digits.
\<close>

section \<open>RFC 3339\<close>

definition digitChar :: "int \<Rightarrow> char" where
  "digitChar k = char_of (48 + nat (k mod 10))"

fun padDigits :: "nat \<Rightarrow> int \<Rightarrow> bytes" where
  "padDigits 0 n = []"
| "padDigits (Suc w) n = padDigits w (n div 10) @ [digitChar n]"

text \<open>Year, month and day of a day number, day 0 being 1970-01-01; the year starts in March inside.\<close>

definition civilDate :: "int \<Rightarrow> int \<times> int \<times> int" where
  "civilDate z0 =
     (let z = z0 + 719468;
          era = z div 146097;
          doe = z mod 146097;
          yoe = (doe - doe div 1460 + doe div 36524 - doe div 146096) div 365;
          doy = doe - (365 * yoe + yoe div 4 - yoe div 100);
          mp = (5 * doy + 2) div 153;
          d = doy - (153 * mp + 2) div 5 + 1;
          m = (if mp < 10 then mp + 3 else mp - 9)
      in (yoe + era * 400 + (if m \<le> 2 then 1 else 0), m, d))"

definition trimZeros :: "bytes \<Rightarrow> bytes" where
  "trimZeros ds = rev (dropWhile (\<lambda>c. c = CHR ''0'') (rev ds))"

definition rfc3339Nano :: "int \<Rightarrow> bytes" where
  "rfc3339Nano t =
     (let ns = t mod 1000000000;
          s = t div 1000000000;
          sod = s mod 86400;
          frac = trimZeros (padDigits 9 ns)
      in case civilDate (s div 86400) of
        (y, m, d) \<Rightarrow>
          padDigits 4 y @ ''-'' @ padDigits 2 m @ ''-'' @ padDigits 2 d @ ''T''
            @ padDigits 2 (sod div 3600) @ '':'' @ padDigits 2 (sod div 60 mod 60) @ '':''
            @ padDigits 2 (sod mod 60) @ (if frac = [] then [] else CHR ''.'' # frac) @ ''Z'')"

lemma rfc3339Nano_examples:
  "rfc3339Nano 0 = ''1970-01-01T00:00:00Z''"
  "rfc3339Nano 1709210096500000000 = ''2024-02-29T12:34:56.5Z''"
  by code_simp+

section \<open>json.Marshal of a string\<close>

definition hexChar :: "nat \<Rightarrow> char" where
  "hexChar k = (if k < 10 then char_of (48 + k) else char_of (87 + k))"

definition htmlSafe :: "char \<Rightarrow> bool" where
  "htmlSafe c \<longleftrightarrow> 0x20 \<le> byte_val c \<and> byte_val c < 0x80 \<and>
     c \<notin> {dquote, backslash, CHR ''<'', CHR ''>'', CHR ''&''}"

definition escapeByte :: "char \<Rightarrow> bytes" where
  "escapeByte c =
     (if c = backslash \<or> c = dquote then [backslash, c]
      else if c = CHR 0x08 then [backslash, CHR ''b'']
      else if c = CHR 0x0C then [backslash, CHR ''f'']
      else if c = CHR 0x0A then [backslash, CHR ''n'']
      else if c = CHR 0x0D then [backslash, CHR ''r'']
      else if c = CHR 0x09 then [backslash, CHR ''t'']
      else backslash # ''u00'' @ [hexChar (byte_val c div 16), hexChar (byte_val c mod 16)])"

function marshalBody :: "bytes \<Rightarrow> bytes" where
  "marshalBody [] = []"
| "marshalBody (c # cs) =
     (if byte_val c < 0x80 then (if htmlSafe c then [c] else escapeByte c) @ marshalBody cs
      else (case decodeRune (c # cs) of
        (r, n) \<Rightarrow>
          (if r = runeError \<and> n = 1 then backslash # ''ufffd''
           else if r = 0x2028 \<or> r = 0x2029 then backslash # ''u202'' @ [hexChar (r mod 16)]
           else take n (c # cs)) @ marshalBody (drop n (c # cs))))"
  by pat_completeness auto
termination by (relation "measure length") (auto dest: decodeRune_pos)

definition marshalString :: "bytes \<Rightarrow> bytes" where
  "marshalString s = dquote # marshalBody s @ [dquote]"

section \<open>A formatted instant marshals to itself\<close>

lemma digit_byte_safe: "48 \<le> byte_val c \<Longrightarrow> byte_val c < 58 \<Longrightarrow> htmlSafe c"
  by (auto simp: htmlSafe_def)

lemma digit_safe [simp]: "htmlSafe (digitChar k)"
proof -
  have "k mod 10 < 10" "0 \<le> k mod 10" by simp_all
  then have "nat (k mod 10) < 10" by linarith
  then show ?thesis by (intro digit_byte_safe) (simp_all add: digitChar_def)
qed

lemma padDigits_safe: "list_all htmlSafe (padDigits w n)"
  by (induction w arbitrary: n) auto

lemma trimZeros_safe: "list_all htmlSafe ds \<Longrightarrow> list_all htmlSafe (trimZeros ds)"
  by (auto simp: trimZeros_def list_all_iff dest: set_dropWhileD)

lemma rfc3339Nano_safe: "list_all htmlSafe (rfc3339Nano t)"
  by (simp add: rfc3339Nano_def Let_def case_prod_unfold padDigits_safe trimZeros_safe htmlSafe_def)

lemma marshalBody_safe: "list_all htmlSafe s \<Longrightarrow> marshalBody s = s"
  by (induction s) (auto simp: htmlSafe_def)

lemma marshal_stamp: "marshalString (rfc3339Nano t) = dquote # rfc3339Nano t @ [dquote]"
  by (simp add: marshalString_def marshalBody_safe rfc3339Nano_safe)

lemma safe_in_string:
  assumes "list_all htmlSafe s"
  shows "j_acc d (InString, ps) (s @ dquote # ys) \<longleftrightarrow> j_acc d (EndValue, ps) ys"
  using assms by (induction s) (auto simp: htmlSafe_def)

end
