(* ===== verification/Stats.thy ===== *)
theory Stats
  imports Prelude
begin

text \<open>
  The counters of \<open>src/stats.go\<close>. A counter is an \<open>atomic.Uint64\<close>, hence a 64-bit word that wraps;
  \<open>Add(1)\<close> is \<open>+ 1\<close>. A record field carries the Go field name with the prefix \<open>s_\<close> (\<open>selfStats\<close>) or
  \<open>p_\<close> (\<open>pipelineStats\<close>). Clock readings are arguments, in milliseconds.
\<close>

section \<open>The two counter blocks\<close>

record selfStats =
  s_EventsReceived :: u64
  s_EventsSent :: u64
  s_BatchesSent :: u64
  s_DropsParseError :: u64
  s_DropsQueueFull :: u64
  s_DropsOversize :: u64
  s_DropsFlushFailed :: u64
  s_DropsShutdown :: u64
  s_DropsUnroutedMissing :: u64
  s_DropsUnroutedUnknown :: u64
  s_DropsRoutingClosed :: u64
  s_DropsBadToken :: u64
  s_DropsMissingToken :: u64
  s_ReadErrors :: u64
  s_BufferDegraded :: bool
  s_ListenerFatal :: bool
  s_LastEventFlushMs :: int
  s_startUnix :: int

definition newSelfStats :: "int \<Rightarrow> selfStats" where
  "newSelfStats now =
     \<lparr>s_EventsReceived = 0, s_EventsSent = 0, s_BatchesSent = 0, s_DropsParseError = 0,
      s_DropsQueueFull = 0, s_DropsOversize = 0, s_DropsFlushFailed = 0, s_DropsShutdown = 0,
      s_DropsUnroutedMissing = 0, s_DropsUnroutedUnknown = 0, s_DropsRoutingClosed = 0,
      s_DropsBadToken = 0, s_DropsMissingToken = 0, s_ReadErrors = 0, s_BufferDegraded = False,
      s_ListenerFatal = False, s_LastEventFlushMs = 0, s_startUnix = now\<rparr>"

record pipelineStats =
  p_EventsReceived :: u64
  p_EventsSent :: u64
  p_BatchesSent :: u64
  p_DropsParseError :: u64
  p_DropsQueueFull :: u64
  p_DropsRoutingClosed :: u64
  p_DropsMissingToken :: u64
  p_DropsOversize :: u64
  p_DropsFlushFailed :: u64
  p_DropsShutdown :: u64
  p_LastEventFlushMs :: int

definition newPipelineStats :: pipelineStats where
  "newPipelineStats =
     \<lparr>p_EventsReceived = 0, p_EventsSent = 0, p_BatchesSent = 0, p_DropsParseError = 0,
      p_DropsQueueFull = 0, p_DropsRoutingClosed = 0, p_DropsMissingToken = 0,
      p_DropsOversize = 0, p_DropsFlushFailed = 0, p_DropsShutdown = 0, p_LastEventFlushMs = 0\<rparr>"

section \<open>Snapshots\<close>

record dropStats =
  ParseError :: u64
  QueueFull :: u64
  Oversize :: u64
  FlushFailed :: u64
  Shutdown :: u64
  RoutingClosed :: u64
  UnroutedMissing :: u64
  UnroutedUnknown :: u64
  BadToken :: u64
  MissingToken :: u64

record projectStatsSnapshot =
  ps_EventsReceived :: u64
  ps_EventsSent :: u64
  ps_BatchesSent :: u64
  ps_EventsDropped :: dropStats
  ps_LastFlushAgeMs :: int

text \<open>The age both snapshots report: 0 before the first flush and never negative.\<close>

definition flushAge :: "int \<Rightarrow> int \<Rightarrow> int" where
  "flushAge now lastMs =
     (if lastMs > 0 then (let ageMs = now - lastMs in if ageMs < 0 then 0 else ageMs) else 0)"

definition pipelineSnapshot :: "int \<Rightarrow> pipelineStats \<Rightarrow> projectStatsSnapshot" where
  "pipelineSnapshot now s =
     \<lparr>ps_EventsReceived = p_EventsReceived s, ps_EventsSent = p_EventsSent s,
      ps_BatchesSent = p_BatchesSent s,
      ps_EventsDropped =
        \<lparr>ParseError = p_DropsParseError s, QueueFull = p_DropsQueueFull s,
         Oversize = p_DropsOversize s, FlushFailed = p_DropsFlushFailed s,
         Shutdown = p_DropsShutdown s, RoutingClosed = p_DropsRoutingClosed s,
         UnroutedMissing = 0, UnroutedUnknown = 0, BadToken = 0,
         MissingToken = p_DropsMissingToken s\<rparr>,
      ps_LastFlushAgeMs = flushAge now (p_LastEventFlushMs s)\<rparr>"

record statsSnapshot =
  st_EventsReceived :: u64
  st_EventsDropped :: dropStats
  st_BatchesSent :: u64
  st_EventsSent :: u64
  st_LastFlushAgeMs :: int
  st_ReadErrors :: u64
  st_BufferDegraded :: bool
  st_ListenerFatal :: bool
  st_UptimeS :: int
  st_ByProject :: "(bytes \<times> projectStatsSnapshot) list"
  st_KeysReloadFailures :: u64
  st_LastKeysReloadUnix :: int
  st_InlineProjectsRegistered :: u64
  st_InlineProjectsExpired :: u64
  st_InlineProjectsLive :: nat

text \<open>\<open>now\<close> in milliseconds; \<open>now.Unix()\<close> rounds it down to seconds. The fields that only the
  health handler fills are zero.\<close>

definition selfSnapshot :: "int \<Rightarrow> selfStats \<Rightarrow> statsSnapshot" where
  "selfSnapshot now s =
     \<lparr>st_EventsReceived = s_EventsReceived s,
      st_EventsDropped =
        \<lparr>ParseError = s_DropsParseError s, QueueFull = s_DropsQueueFull s,
         Oversize = s_DropsOversize s, FlushFailed = s_DropsFlushFailed s,
         Shutdown = s_DropsShutdown s, RoutingClosed = s_DropsRoutingClosed s,
         UnroutedMissing = s_DropsUnroutedMissing s, UnroutedUnknown = s_DropsUnroutedUnknown s,
         BadToken = s_DropsBadToken s, MissingToken = s_DropsMissingToken s\<rparr>,
      st_BatchesSent = s_BatchesSent s, st_EventsSent = s_EventsSent s,
      st_LastFlushAgeMs = flushAge now (s_LastEventFlushMs s),
      st_ReadErrors = s_ReadErrors s, st_BufferDegraded = s_BufferDegraded s,
      st_ListenerFatal = s_ListenerFatal s, st_UptimeS = now div 1000 - s_startUnix s,
      st_ByProject = [], st_KeysReloadFailures = 0, st_LastKeysReloadUnix = 0,
      st_InlineProjectsRegistered = 0, st_InlineProjectsExpired = 0, st_InlineProjectsLive = 0\<rparr>"

section \<open>Totals\<close>

text \<open>Every drop counter of a block that counts datagrams before they reach a batch, and every
  outcome of a batched event.\<close>

definition routingDrops :: "selfStats \<Rightarrow> u64" where
  "routingDrops s = s_DropsParseError s + s_DropsOversize s + s_DropsQueueFull s
     + s_DropsUnroutedMissing s + s_DropsUnroutedUnknown s + s_DropsRoutingClosed s
     + s_DropsBadToken s + s_DropsMissingToken s"

definition batchedOutcomes :: "pipelineStats \<Rightarrow> u64" where
  "batchedOutcomes s = p_EventsSent s + p_DropsFlushFailed s + p_DropsShutdown s"

lemmas counter_defs = newSelfStats_def newPipelineStats_def routingDrops_def batchedOutcomes_def

lemma flushAge_nonneg [counter_simps]: "0 \<le> flushAge now t"
  by (simp add: flushAge_def Let_def)

end
