(* ===== verification/Events.thy ===== *)
theory Events
  imports Timestamp Stats Members
begin

text \<open>
  \<open>src/events.go\<close>: structural validation of one datagram, the timestamp it gets when it has none, the
  batcher and the encoding of a batch. Clock readings are arguments. The blocking
  \<open>select\<close> of \<open>flush\<close> (hand the batch over, or give it up once the context is done) is resolved by
  an argument \<open>fate\<close>; the pipeline model says when which outcome is possible.
\<close>

section \<open>Data\<close>

definition DefaultMaxEventBytes :: int where "DefaultMaxEventBytes = 1 * 1024 * 1024"
definition MinMaxEventBytes :: int where "MinMaxEventBytes = 1024"
definition MaxMaxEventBytes :: int where "MaxMaxEventBytes = 16 * 1024 * 1024"
definition MaxEventsPerBatch :: int where "MaxEventsPerBatch = 5000"
definition MaxBatchBytes :: int where "MaxBatchBytes = 10 * 1024 * 1024"

record rawDatagram =
  dg_bytes :: bytes
  dg_at :: int
  dg_project :: bytes
  dg_token :: bytes

record EventBatch =
  Events :: "bytes list"
  StartedAt :: int
  Token :: bytes

datatype validateReason = validateOK | validateOversize | validateParseError

section \<open>Looking for a top-level key with json.Decoder\<close>

text \<open>
  \<open>Decoder.readValue\<close>: the end of the next value of the stream. The scanner reports the end one byte
  late for strings, numbers and literals, and with the closing bracket for containers.
\<close>

fun readValue :: "jconf \<Rightarrow> bytes \<Rightarrow> nat option" where
  "readValue cf [] = (if complete maxNestingDepth cf then Some 0 else None)"
| "readValue cf (c # cs) =
     (case j_step maxNestingDepth cf c of
        None \<Rightarrow> if complete maxNestingDepth cf then Some 0 else None
      | Some cf' \<Rightarrow>
          if fst cf' = EndTop then (if complete maxNestingDepth cf then Some 0 else Some 1)
          else map_option Suc (readValue cf' cs))"

text \<open>
  The loop \<open>for dec.More()\<close>: \<open>Token\<close> reads a key (past the comma, except for the first), \<open>Decode\<close> the
  value after the colon. \<open>False\<close> is the end of the object or an error of the decoder.
\<close>

function keyLoop :: "bool \<Rightarrow> bytes \<Rightarrow> bytes \<Rightarrow> bool" where
  "keyLoop first k xs =
     (case skip xs of
        [] \<Rightarrow> False
      | c # cs \<Rightarrow>
          if c = CHR '']'' \<or> c = CHR ''}'' then False
          else if \<not> first \<and> c \<noteq> CHR '','' then False
          else
            (let ys = (if first then c # cs else skip cs) in
             if ys = [] \<or> hd ys \<noteq> dquote then False
             else (case readValue (BeginValue, []) ys of
                 None \<Rightarrow> False
               | Some n \<Rightarrow>
                   (case unquote_body (slice ys 1 (n - 1)) of
                      None \<Rightarrow> False
                    | Some ks \<Rightarrow>
                        if ks = k then True
                        else (case skip (drop n ys) of
                            [] \<Rightarrow> False
                          | c2 # zs \<Rightarrow>
                              if c2 \<noteq> CHR '':'' then False
                              else (case readValue (BeginValue, []) zs of
                                  None \<Rightarrow> False
                                | Some m \<Rightarrow> keyLoop False k (drop m zs)))))))"
  by pat_completeness auto
termination
proof (relation "measure (\<lambda>(f, k, xs). length xs)", goal_cases)
  case (2 first k xs c cs ys n ks c2 zs m)
  have "length (skip w) \<le> length w" for w by (rule lead_skip(5))
  then have "length (c # cs) \<le> length xs" "length (skip cs) \<le> length cs"
    "length (c2 # zs) \<le> length (drop n ys)"
    using 2(1,9) by (metis, blast, metis)
  then show ?case using 2(4) by (auto split: if_splits)
qed simp

declare keyLoop.simps [simp del]

definition hasTopLevelKey :: "bytes \<Rightarrow> bytes \<Rightarrow> bool" where
  "hasTopLevelKey b k =
     (case skip b of
        [] \<Rightarrow> False
      | c # cs \<Rightarrow> if c \<noteq> CHR ''{'' then False else keyLoop True k cs)"

section \<open>Validation\<close>

text \<open>
  \<open>bytes.TrimSpace\<close> on text whose outer bytes, past ASCII space, are ASCII (\<open>trimmed_ascii\<close> below: the
  inside of a valid object is such text, so the library's Unicode path is never taken).
\<close>

definition asciiSpace :: "char \<Rightarrow> bool" where
  "asciiSpace c \<longleftrightarrow> c \<in> {CHR 0x09, CHR 0x0A, CHR 0x0B, CHR 0x0C, CHR 0x0D, CHR '' ''}"

definition trimSpace :: "bytes \<Rightarrow> bytes" where
  "trimSpace xs = rev (dropWhile asciiSpace (rev (dropWhile asciiSpace xs)))"

definition injectTopLevelField :: "bytes \<Rightarrow> bytes \<Rightarrow> bytes \<Rightarrow> bytes" where
  "injectTopLevelField obj keyColon value =
     (let inner = trimSpace (slice obj 1 (length obj - 1)) in
      CHR ''{'' # keyColon @ value @ (if length inner > 0 then CHR '','' # inner else []) @ ''}'')"

definition timestampKey :: bytes where "timestampKey = ''timestamp''"

text \<open>The two index loops at the start of \<open>validateEvent\<close>.\<close>

function trimStart :: "bytes \<Rightarrow> nat \<Rightarrow> nat" where
  "trimStart b start =
     (if start < length b \<and> isJSONSpace (b ! start) then trimStart b (start + 1) else start)"
  by pat_completeness auto
termination by (relation "measure (\<lambda>(b, s). length b - s)") auto

declare trimStart.simps [simp del]

fun trimEnd :: "bytes \<Rightarrow> nat \<Rightarrow> nat \<Rightarrow> nat" where
  "trimEnd b start 0 = 0"
| "trimEnd b start (Suc e) =
     (if Suc e > start \<and> isJSONSpace (b ! e) then trimEnd b start e else Suc e)"

definition validateEvent :: "bytes \<Rightarrow> int \<Rightarrow> int \<Rightarrow> bytes option \<times> validateReason" where
  "validateEvent b maxBytes now =
     (if int (length b) > maxBytes then (None, validateOversize)
      else if length b = 0 then (None, validateParseError)
      else
        (let start = trimStart b 0; e = trimEnd b start (length b) in
         if e - start < 2 \<or> b ! start \<noteq> CHR ''{'' \<or> b ! (e - 1) \<noteq> CHR ''}''
         then (None, validateParseError)
         else
           (let trimmed = slice b start e in
            if \<not> json_valid trimmed then (None, validateParseError)
            else if \<not> hasTopLevelKey trimmed timestampKey then
              (Some (injectTopLevelField trimmed (dquote # timestampKey @ [dquote, CHR '':''])
                (marshalString (rfc3339Nano now))), validateOK)
            else (Some trimmed, validateOK))))"

section \<open>The batcher\<close>

record batcher =
  b_maxEvents :: int
  b_maxEventBytes :: int
  b_window :: int
  b_hasCtx :: bool
  cur :: "bytes list"
  curBytes :: int
  curToken :: bytes
  firstSeen :: int
  armed :: bool

definition newEventsBatcher :: "int \<Rightarrow> int \<Rightarrow> int \<Rightarrow> batcher" where
  "newEventsBatcher maxEvents maxEventBytes window =
     \<lparr>b_maxEvents = (if maxEvents \<le> 0 \<or> maxEvents > MaxEventsPerBatch then MaxEventsPerBatch else maxEvents),
      b_maxEventBytes = (if maxEventBytes \<le> 0 then DefaultMaxEventBytes else maxEventBytes),
      b_window = (if window \<le> 0 then 200 * 1000000 else window),
      b_hasCtx = False, cur = [], curBytes = 0, curToken = [], firstSeen = 0, armed = False\<rparr>"

text \<open>The batcher with the counters it updates and the batches it has sent, oldest first.\<close>

record bstate =
  bt :: batcher
  ss :: selfStats
  pst :: "pipelineStats option"
  sent :: "EventBatch list"

datatype fate = HandedOver | CtxDone

definition bumpShutdown :: "nat \<Rightarrow> bstate \<Rightarrow> bstate" where
  "bumpShutdown n st =
     st\<lparr>ss := (ss st)\<lparr>s_DropsShutdown := s_DropsShutdown (ss st) + of_nat n\<rparr>,
        pst := map_option (\<lambda>p. p\<lparr>p_DropsShutdown := p_DropsShutdown p + of_nat n\<rparr>) (pst st)\<rparr>"

definition flush :: "fate \<Rightarrow> bstate \<Rightarrow> bstate" where
  "flush ft st =
     (let b = bt st in
      if length (cur b) = 0 then st
      else
        (let batch = \<lparr>Events = cur b, StartedAt = firstSeen b, Token = curToken b\<rparr>;
             st = st\<lparr>bt := b\<lparr>cur := [], curBytes := 0, curToken := [], firstSeen := 0\<rparr>\<rparr>
         in if \<not> b_hasCtx b \<or> ft = HandedOver then st\<lparr>sent := sent st @ [batch]\<rparr>
            else bumpShutdown (length (Events batch)) st))"

definition disarm :: "bstate \<Rightarrow> bstate" where
  "disarm st = st\<lparr>bt := (bt st)\<lparr>armed := False\<rparr>\<rparr>"

text \<open>The three drops and the count of an accepted event.\<close>

definition bumpOversize :: "bstate \<Rightarrow> bstate" where
  "bumpOversize st =
     st\<lparr>ss := (ss st)\<lparr>s_DropsOversize := s_DropsOversize (ss st) + 1\<rparr>,
        pst := map_option (\<lambda>p. p\<lparr>p_DropsOversize := p_DropsOversize p + 1\<rparr>) (pst st)\<rparr>"

definition bumpParseError :: "bstate \<Rightarrow> bstate" where
  "bumpParseError st =
     st\<lparr>ss := (ss st)\<lparr>s_DropsParseError := s_DropsParseError (ss st) + 1\<rparr>,
        pst := map_option (\<lambda>p. p\<lparr>p_DropsParseError := p_DropsParseError p + 1\<rparr>) (pst st)\<rparr>"

definition bumpReceived :: "bstate \<Rightarrow> bstate" where
  "bumpReceived st =
     st\<lparr>pst := map_option (\<lambda>p. p\<lparr>p_EventsReceived := p_EventsReceived p + 1\<rparr>) (pst st)\<rparr>"

text \<open>An accepted event joins the current batch; a full batch goes out before or after it.\<close>

definition preFlush :: "fate \<Rightarrow> bytes \<Rightarrow> bstate \<Rightarrow> bstate" where
  "preFlush ft ev st =
     (if length (cur (bt st)) > 0 \<and> curBytes (bt st) + int (length ev) + 1 > MaxBatchBytes
      then disarm (flush ft st) else st)"

definition appendEvent :: "bytes \<Rightarrow> rawDatagram \<Rightarrow> bstate \<Rightarrow> bstate" where
  "appendEvent ev dg st =
     (let b = bt st;
          b = (if length (cur b) = 0 then b\<lparr>firstSeen := dg_at dg, armed := True\<rparr> else b);
          b = b\<lparr>cur := cur b @ [ev], curBytes := curBytes b + (int (length ev) + 1)\<rparr>;
          b = (if dg_token dg \<noteq> [] then b\<lparr>curToken := dg_token dg\<rparr> else b)
      in st\<lparr>bt := b\<rparr>)"

definition postFlush :: "fate \<Rightarrow> bstate \<Rightarrow> bstate" where
  "postFlush ft st =
     (if int (length (cur (bt st))) \<ge> b_maxEvents (bt st) then disarm (flush ft st) else st)"

definition onDatagram :: "fate \<Rightarrow> fate \<Rightarrow> int \<Rightarrow> rawDatagram \<Rightarrow> bstate \<Rightarrow> bstate" where
  "onDatagram ft1 ft2 now dg st =
     (case validateEvent (dg_bytes dg) (b_maxEventBytes (bt st)) now of
        (_, validateOversize) \<Rightarrow> bumpOversize st
      | (_, validateParseError) \<Rightarrow> bumpParseError st
      | (ev, validateOK) \<Rightarrow>
          postFlush ft2 (appendEvent (the ev) dg (preFlush ft1 (the ev) (bumpReceived st))))"

definition onTimer :: "fate \<Rightarrow> bstate \<Rightarrow> bstate" where
  "onTimer ft st = (if armed (bt st) then disarm (flush ft st) else st)"

definition onClosed :: "fate \<Rightarrow> bstate \<Rightarrow> bstate" where
  "onClosed ft st = flush ft st"

section \<open>The wire format\<close>

definition eventsPrefix :: bytes where "eventsPrefix = ''{\"events\":[''"
definition eventsSuffix :: bytes where "eventsSuffix = '']}''"

fun joinEvents :: "nat \<Rightarrow> bytes list \<Rightarrow> bytes" where
  "joinEvents i [] = []"
| "joinEvents i (ev # evs) = (if i > 0 then '','' else []) @ ev @ joinEvents (i + 1) evs"

definition encodeEventBatch :: "EventBatch \<Rightarrow> bytes" where
  "encodeEventBatch batch = eventsPrefix @ joinEvents 0 (Events batch) @ eventsSuffix"

end
