(* ===== verification/Events_Json.thy ===== *)
theory Events_Json
  imports Events
begin

text \<open>
  The JSON side of \<open>src/events.go\<close>: what \<open>validateEvent\<close> accepts, that stamping keeps an object valid,
  and that a batch of valid events is encoded into one valid object.
\<close>

section \<open>Whitespace around a text\<close>

lemma space_not_token:
  assumes "isJSONSpace c"
  shows "\<not> isDigit c" "\<not> nonzeroDigit c" "\<not> isHex c" "c \<noteq> dquote" "c \<noteq> backslash"
    "c \<notin> set ''{}[]:,.eE+-0tfnu/br''"
  using assms by (auto simp: isJSONSpace_def isDigit_def nonzeroDigit_def isHex_def)

lemma space_end_value:
  "isJSONSpace c \<Longrightarrow> j_end_value ps c = Some (if ps = [] then EndTop else EndValue, ps)"
  by (cases ps) (simp_all add: j_end_value_def)

lemma asciiSpace_json: "isJSONSpace c \<Longrightarrow> asciiSpace c"
  by (auto simp: isJSONSpace_def asciiSpace_def)

text \<open>The rest of a literal holds no whitespace and no byte above ASCII.\<close>

definition lit_ok :: "jconf \<Rightarrow> bool" where
  "lit_ok cf \<longleftrightarrow> (case fst cf of InLit w \<Rightarrow> list_all (\<lambda>c. \<not> asciiSpace c \<and> byte_val c < 0x80) w | _ \<Rightarrow> True)"

lemma end_value_lit: "j_end_value ps c = Some cf \<Longrightarrow> lit_ok cf"
  by (auto simp: j_end_value_def lit_ok_def Let_def split: list.split_asm jparse.split_asm if_split_asm)

lemma begin_value_lit:
  "j_begin_value d s ps c = Some cf \<Longrightarrow> lit_ok (s, ps) \<Longrightarrow> lit_ok cf"
  by (simp add: j_begin_value_def j_push_def lit_ok_def split: if_split_asm)
     (auto simp: asciiSpace_def)

lemma step_lit_ok: "j_step d (s, ps) c = Some cf \<Longrightarrow> lit_ok (s, ps) \<Longrightarrow> lit_ok cf"
  using end_value_lit [of _ c cf] begin_value_lit [of d s ps c cf]
  by (cases s) (auto simp: lit_ok_def j_begin_string_def j_num0_def split: if_split_asm list.split_asm)

lemma space_step:
  assumes "isJSONSpace c" and "j_step d (s, ps) c = Some cf'" and "lit_ok (s, ps)"
  shows "cf' = (s, ps) \<or> ps \<noteq> [] \<and> cf' = (EndValue, ps) \<and> complete d (s, []) \<or> ps = [] \<and> cf' = (EndTop, []) \<and> complete d (s, ps)"
proof -
  have sp: "isJSONSpace CHR '' ''" by (simp add: isJSONSpace_def)
  note plain = space_not_token [OF assms(1)]
  note ev = space_end_value [OF assms(1)] space_end_value [OF sp]
  have num: "j_num0 qs c = Some (if qs = [] then EndTop else EndValue, qs)"
    "j_num0 qs CHR '' '' = Some (if qs = [] then EndTop else EndValue, qs)" for qs
    using plain by (simp_all add: j_num0_def ev)
  show ?thesis using assms plain asciiSpace_json [OF assms(1)]
    by (cases s)
       (auto simp: complete_def lit_ok_def ev num j_begin_value_def j_begin_string_def
         split: if_split_asm list.split_asm)
qed

lemma j_acc_ws_end:
  "ws w \<Longrightarrow> lit_ok cf \<Longrightarrow> j_acc d cf w \<longleftrightarrow> complete d cf"
proof (induction w arbitrary: cf)
  case Nil
  then show ?case by (simp add: complete_def)
next
  case (Cons c w)
  obtain s ps where cf: "cf = (s, ps)" by force
  show ?case
  proof
    assume "j_acc d cf (c # w)"
    then obtain cf' where st: "j_step d cf c = Some cf'" and a: "j_acc d cf' w"
      by (cases "j_step d cf c") auto
    then have "complete d cf'" using Cons step_lit_ok [of d s ps c cf'] by (simp add: cf)
    then show "complete d cf"
      using space_step [of c d s ps cf'] st Cons.prems complete_cases [of d EndValue ps] cf by auto
  next
    assume c: "complete d cf"
    have "j_step d cf c = Some (EndTop, ps)"
      using c complete_cases [of d s ps] Cons.prems space_not_token [of c] unfolding cf
      by (cases "s = EndTop") (auto simp: space_end_value j_num0_def)
    then show "j_acc d cf (c # w)"
      using Cons by (simp add: complete_def lit_ok_def)
  qed
qed

lemma j_acc_ws_suffix: "ws w \<Longrightarrow> lit_ok cf \<Longrightarrow> j_acc d cf (xs @ w) \<longleftrightarrow> j_acc d cf xs"
proof (induction xs arbitrary: cf)
  case Nil
  then show ?case using j_acc_ws_end [of w cf d] by (simp add: complete_def)
next
  case (Cons c xs)
  then show ?case using step_lit_ok [of d "fst cf" "snd cf" c] by (auto split: option.split)
qed

lemma json_valid_ws:
  assumes "ws w1" and "ws w2"
  shows "json_valid_upto d (w1 @ x @ w2) \<longleftrightarrow> json_valid_upto d x"
  using j_acc_ws [OF assms(1), of BeginValue "[]" d "x @ w2"] j_acc_ws_suffix [OF assms(2), of "(BeginValue, [])" d x]
  by (simp add: json_valid_upto_def lit_ok_def)

section \<open>A valid object ends with its brace\<close>

abbreviation in_object :: "jparse list \<Rightarrow> bool" where
  "in_object ps \<equiv> ps \<noteq> [] \<and> last ps \<noteq> ParseArrayValue"

lemma object_step_end_value:
  assumes "j_end_value ps c = Some cf'" and "in_object ps"
  shows "in_object (snd cf') \<and> fst cf' \<noteq> EndTop \<or> cf' = (EndTop, []) \<and> c = CHR ''}''"
  using assms
  by (auto simp: j_end_value_def Let_def split: list.split_asm jparse.split_asm if_split_asm)

lemma object_step_begin_value:
  assumes "j_begin_value d s ps c = Some cf'" and "in_object ps" and "s \<noteq> EndTop"
  shows "in_object (snd cf') \<and> fst cf' \<noteq> EndTop"
  using assms
  by (simp add: j_begin_value_def j_push_def split: if_split_asm) auto

lemma object_step:
  assumes "j_step d (s, ps) c = Some cf'" and "in_object ps" and "s \<noteq> EndTop"
  shows "in_object (snd cf') \<and> fst cf' \<noteq> EndTop \<or> cf' = (EndTop, []) \<and> c = CHR ''}''"
proof -
  note ev = object_step_end_value [OF _ assms(2)]
  note bv = object_step_begin_value [OF _ assms(2)]
  have n0: ?thesis if "j_num0 ps c = Some cf'"
    using that ev assms(2) by (auto simp: j_num0_def split: if_split_asm)
  have tl: ?thesis if "j_end_value (ParseObjectValue # tl ps) c = Some cf'"
  proof (rule object_step_end_value [OF that])
    show "in_object (ParseObjectValue # tl ps)" using assms(2) by (cases ps) auto
  qed
  have "snd cf' = ps \<and> fst cf' \<noteq> EndTop \<or> j_end_value ps c = Some cf' \<or> j_num0 ps c = Some cf' \<or>
      j_begin_value d s ps c = Some cf' \<or> j_end_value (ParseObjectValue # tl ps) c = Some cf'"
    using assms(1,3)
    by (cases s) (auto simp: j_begin_string_def split: if_split_asm list.split_asm)
  then show ?thesis using assms(2,3) ev bv n0 tl by blast
qed

lemma object_ends:
  assumes "j_acc d (s, ps) xs" and "in_object ps" and "s \<noteq> EndTop"
  shows "\<exists>ys w. xs = ys @ CHR ''}'' # w \<and> ws w"
  using assms
proof (induction xs arbitrary: s ps)
  case Nil
  then have "complete d (s, ps)" by (simp add: complete_def)
  then show ?case using complete_cases [of d s ps] Nil by auto
next
  case (Cons c xs)
  then obtain cf' where st: "j_step d (s, ps) c = Some cf'" and a: "j_acc d cf' xs"
    by (cases "j_step d (s, ps) c") auto
  from object_step [OF st Cons.prems(2,3)] show ?case
  proof
    assume "in_object (snd cf') \<and> fst cf' \<noteq> EndTop"
    then obtain ys w where "xs = ys @ CHR ''}'' # w" "ws w"
      using Cons.IH [of "fst cf'" "snd cf'"] a by auto
    then show ?thesis by (metis append_Cons)
  next
    assume "cf' = (EndTop, []) \<and> c = CHR ''}''"
    then show ?thesis using a by (intro exI [of _ "[]"] exI [of _ xs]) (simp add: j_acc_top)
  qed
qed

section \<open>What validateEvent accepts\<close>

definition rstrip :: "bytes \<Rightarrow> bytes" where
  "rstrip xs = rev (dropWhile isJSONSpace (rev xs))"

definition trimmedOf :: "bytes \<Rightarrow> bytes" where
  "trimmedOf b = rstrip (skip b)"

lemma rstrip_split: "\<exists>w. xs = rstrip xs @ w \<and> ws w \<and> (rstrip xs \<noteq> [] \<longrightarrow> \<not> isJSONSpace (last (rstrip xs)))"
proof -
  have "xs = rstrip xs @ rev (takeWhile isJSONSpace (rev xs))"
    unfolding rstrip_def by (metis rev_append rev_rev_ident takeWhile_dropWhile_id)
  moreover have "ws (rev (takeWhile isJSONSpace (rev xs)))"
    by (auto simp: list_all_iff dest: set_takeWhileD)
  moreover have "\<not> isJSONSpace (last (rstrip xs))" if "rstrip xs \<noteq> []"
    using that hd_dropWhile [of isJSONSpace "rev xs"] by (simp add: rstrip_def last_rev)
  ultimately show ?thesis by blast
qed

lemma trimStart_scanWS: "trimStart b i = scanWS b i"
proof (induction "length b - i" arbitrary: i rule: less_induct)
  case less
  then have "trimStart b (Suc i) = scanWS b (Suc i)" if "i < length b" using that by simp
  then show ?case
    by (subst trimStart.simps, subst scanWS.simps) (auto simp: isJSONSpace_def Let_def)
qed

lemma trimEnd_append:
  "ws w \<Longrightarrow> p \<noteq> [] \<Longrightarrow> \<not> isJSONSpace (last p) \<Longrightarrow> start < length p \<Longrightarrow>
   trimEnd (p @ w @ t) start (length p + length w) = length p"
proof (induction w arbitrary: t rule: rev_induct)
  case Nil
  then show ?case by (cases p rule: rev_cases) (auto simp: nth_append)
next
  case (snoc c w)
  then show ?case by (auto simp: nth_append)
qed

lemma trim_loops:
  assumes "skip b \<noteq> []"
  shows "trimStart b 0 = length (lead b)"
    and "trimEnd b (length (lead b)) (length b) = length (lead b) + length (trimmedOf b)"
    and "trimmedOf b \<noteq> []" and "b = lead b @ trimmedOf b @ drop (length (lead b) + length (trimmedOf b)) b"
    and "hd (trimmedOf b) = hd (skip b)" and "ws (drop (length (lead b) + length (trimmedOf b)) b)"
    and "\<not> isJSONSpace (last (trimmedOf b))"
proof -
  show "trimStart b 0 = length (lead b)" by (simp add: trimStart_scanWS scanWS_len lead_skip)
  define l y where ly: "l = lead b" "y = trimmedOf b"
  obtain w where w: "skip b = y @ w" "ws w" "y \<noteq> [] \<Longrightarrow> \<not> isJSONSpace (last y)"
    using rstrip_split [of "skip b"] by (auto simp: ly trimmedOf_def)
  have y: "y \<noteq> []"
  proof
    assume "y = []"
    then have "ws (skip b)" using w by simp
    then show False using assms lead_skip(3) [of b] by (cases "skip b") auto
  qed
  have b: "b = l @ y @ w" using lead_skip(1) [of b] w ly by simp
  show "trimEnd b (length (lead b)) (length b) = length (lead b) + length (trimmedOf b)"
    using trimEnd_append [of w "l @ y" "length l" "[]"] w y
    unfolding ly [symmetric] by (simp add: b add.assoc)
  have d: "drop (length (lead b) + length (trimmedOf b)) b = w"
    unfolding ly [symmetric] by (simp add: b)
  show "b = lead b @ trimmedOf b @ drop (length (lead b) + length (trimmedOf b)) b"
    unfolding d unfolding ly [symmetric] by (rule b)
  show "trimmedOf b \<noteq> []" "\<not> isJSONSpace (last (trimmedOf b))" using y w(3) ly by auto
  show "ws (drop (length (lead b) + length (trimmedOf b)) b)" unfolding d by (rule w(2))
  show "hd (trimmedOf b) = hd (skip b)" using w(1) y ly by simp
qed

text \<open>The trimmed text of a valid object opens and closes with a brace.\<close>

lemma valid_object_shape:
  assumes "json_valid_upto d x" and "hd x = CHR ''{''" and "x \<noteq> []" and "\<not> isJSONSpace (last x)"
  obtains inner where "x = CHR ''{'' # inner @ ''}''" and "0 < d"
    and "j_acc d (BeginStringOrEmpty, [ParseObjectKey]) (inner @ ''}'')"
proof -
  obtain xs where x: "x = CHR ''{'' # xs" using assms(2,3) by (cases x) auto
  then have d: "0 < d" and a: "j_acc d (BeginStringOrEmpty, [ParseObjectKey]) xs"
    using assms(1) by (auto simp: json_valid_upto_def j_begin_value_def j_push_def split: if_splits)
  obtain ys w where xs: "xs = ys @ CHR ''}'' # w" and w: "ws w" using object_ends [OF a] by auto
  have "w = []" using w assms(4) xs x by (cases w rule: rev_cases) auto
  then show thesis using that [of ys] x xs a d by simp
qed

definition stampEvent :: "int \<Rightarrow> bytes \<Rightarrow> bytes" where
  "stampEvent now y =
     (if hasTopLevelKey y timestampKey then y
      else injectTopLevelField y (dquote # timestampKey @ [dquote, CHR '':'']) (marshalString (rfc3339Nano now)))"

definition validObject :: "bytes \<Rightarrow> bool" where
  "validObject b \<longleftrightarrow> json_valid b \<and> skip b \<noteq> [] \<and> hd (skip b) = CHR ''{''"

lemma trimmed_valid:
  assumes "skip b \<noteq> []"
  shows "json_valid_upto d (trimmedOf b) \<longleftrightarrow> json_valid_upto d b"
  using trim_loops(4,6) [OF assms] json_valid_ws lead_skip(2) by metis

lemma validateEvent_eq:
  "validateEvent b maxBytes now =
     (if int (length b) > maxBytes then (None, validateOversize)
      else if validObject b then (Some (stampEvent now (trimmedOf b)), validateOK)
      else (None, validateParseError))"
proof (cases "int (length b) > maxBytes \<or> skip b = []")
  case True
  show ?thesis
  proof (cases "int (length b) > maxBytes")
    case False
    with True have sk: "skip b = []" by simp
    then have "length (lead b) = length b" using lead_skip(1) [of b] by simp
    then have st: "trimStart b 0 = length b" using sk by (simp add: trimStart_scanWS scanWS_len lead_skip)
    have "trimEnd b (length b) (length b) = length b" by (cases "length b") auto
    then show ?thesis using False sk st by (simp add: validateEvent_def validObject_def Let_def)
  qed (simp add: validateEvent_def)
next
  case False
  then have sk: "skip b \<noteq> []" by simp
  define l y t where ly: "l = lead b" "y = trimmedOf b" "t = drop (length (lead b) + length (trimmedOf b)) b"
  note tr = trim_loops [OF sk, folded ly]
  have b: "b = l @ y @ t" by (rule tr(4))
  have v: "json_valid y \<longleftrightarrow> json_valid b" using trimmed_valid [OF sk] by (simp add: ly json_valid_def)
  obtain c cs where c: "y = c # cs" using tr(3) by (cases y) auto
  have "b ! length l = hd y" by (subst b) (simp add: c)
  moreover have "b ! (length l + length y - 1) = last y"
    by (subst b) (simp add: c nth_append last_conv_nth)
  ultimately have nth: "b ! length l = hd (skip b)" "b ! (length l + length y - 1) = last y"
    using tr(5) by simp_all
  have sl: "slice b (length l) (length l + length y) = y" by (simp add: b slice_def)
  have shape: "2 \<le> length y \<and> last y = CHR ''}''" if "json_valid b" "hd (skip b) = CHR ''{''"
  proof -
    have "json_valid_upto maxNestingDepth y" "hd y = CHR ''{''"
      using that v tr(5) by (simp_all add: json_valid_def)
    then obtain inner where "y = CHR ''{'' # inner @ ''}''"
      using valid_object_shape tr(3,7) by blast
    then show ?thesis by simp
  qed
  have ne: "length b \<noteq> 0" using sk by (auto simp: skip_def)
  have "validateEvent b maxBytes now =
      (if length y < 2 \<or> hd (skip b) \<noteq> CHR ''{'' \<or> last y \<noteq> CHR ''}'' \<or> \<not> json_valid y
       then (None, validateParseError) else (Some (stampEvent now y), validateOK))"
    using False ne unfolding validateEvent_def stampEvent_def Let_def tr(1,2) nth sl
    by (simp split del: if_split) simp
  then show ?thesis
    using False v shape by (cases "validObject b") (auto simp: validObject_def ly(2) sk)
qed

section \<open>Stamping\<close>

lemma trimSpace_split:
  obtains w1 w2 where "xs = w1 @ trimSpace xs @ w2" and "list_all asciiSpace w1" and "list_all asciiSpace w2"
    and "trimSpace xs \<noteq> [] \<Longrightarrow> \<not> asciiSpace (hd (trimSpace xs)) \<and> \<not> asciiSpace (last (trimSpace xs))"
proof -
  define y where "y = dropWhile asciiSpace xs"
  have t: "trimSpace xs = rev (dropWhile asciiSpace (rev y))" by (simp add: trimSpace_def y_def)
  have "y = trimSpace xs @ rev (takeWhile asciiSpace (rev y))"
    unfolding t by (metis rev_append rev_rev_ident takeWhile_dropWhile_id)
  then have e: "xs = takeWhile asciiSpace xs @ trimSpace xs @ rev (takeWhile asciiSpace (rev y))"
    by (metis takeWhile_dropWhile_id y_def)
  have h: "\<not> asciiSpace (hd (trimSpace xs)) \<and> \<not> asciiSpace (last (trimSpace xs))" if ne: "trimSpace xs \<noteq> []"
  proof
    have "hd (trimSpace xs) = hd y"
      using ne \<open>y = trimSpace xs @ _\<close> by (metis hd_append2)
    moreover have "y \<noteq> []" using ne t by auto
    ultimately show "\<not> asciiSpace (hd (trimSpace xs))" using hd_dropWhile [of asciiSpace xs] by (simp add: y_def)
    show "\<not> asciiSpace (last (trimSpace xs))"
      using ne hd_dropWhile [of asciiSpace "rev y"] by (simp add: t last_rev)
  qed
  show thesis
    by (rule that [OF e _ _ h]) (auto simp: list_all_iff dest: set_takeWhileD)
qed

lemma asciiSpace_cases: "asciiSpace c \<Longrightarrow> isJSONSpace c \<or> c = CHR 0x0B \<or> c = CHR 0x0C"
  by (auto simp: isJSONSpace_def asciiSpace_def)

lemma vtab_step:
  assumes "c = CHR 0x0B \<or> c = CHR 0x0C" and "lit_ok (s, ps)"
  shows "j_step d (s, ps) c = None"
proof -
  have p: "\<not> isJSONSpace c" "\<not> isDigit c" "\<not> nonzeroDigit c" "\<not> isHex c" "asciiSpace c"
    "c \<notin> set ''{}[]:,.eE+-0tfnu/br''" "c \<noteq> dquote" "c \<noteq> backslash" "byte_val c < 0x20"
    using assms(1) by (auto simp: isJSONSpace_def isDigit_def nonzeroDigit_def isHex_def asciiSpace_def)
  then have ev: "j_end_value qs c = None" for qs
    by (auto simp: j_end_value_def Let_def split: list.split jparse.split)
  then have "j_num0 qs c = None" for qs using p by (simp add: j_num0_def)
  then show ?thesis using assms(2) p ev
    by (cases s) (auto simp: j_begin_value_def j_begin_string_def lit_ok_def split: list.split)
qed

text \<open>A byte above ASCII is always inside a string.\<close>

lemma high_byte_step:
  assumes "\<not> byte_val c < 0x80" and "j_step d (s, ps) c = Some cf'" and "lit_ok (s, ps)"
  shows "fst cf' = InString"
proof -
  have p: "\<not> isJSONSpace c" "\<not> isDigit c" "\<not> nonzeroDigit c" "\<not> isHex c"
    "c \<notin> set ''{}[]:,.eE+-0tfnu/br''" "c \<noteq> dquote" "c \<noteq> backslash"
    using assms(1) by (auto simp: isJSONSpace_def isDigit_def nonzeroDigit_def isHex_def)
  then have ev: "j_end_value qs c = None" for qs
    by (auto simp: j_end_value_def Let_def split: list.split jparse.split)
  then have "j_num0 qs c = None" for qs using p by (simp add: j_num0_def)
  then show ?thesis using assms p ev
    by (cases s) (auto simp: j_begin_value_def j_begin_string_def lit_ok_def split: list.split_asm if_split_asm)
qed

lemma last_before_brace:
  assumes "j_acc d cf (t @ ''}'')" and "t \<noteq> []" and "lit_ok cf"
  shows "byte_val (last t) < 0x80"
  using assms
proof (induction t arbitrary: cf)
  case (Cons c t)
  then obtain cf' where st: "j_step d cf c = Some cf'" and a: "j_acc d cf' (t @ ''}'')"
    by (cases "j_step d cf c") auto
  show ?case
  proof (cases "t = []")
    case True
    then have "fst cf' \<noteq> InString" using a by (cases cf') auto
    then show ?thesis using True high_byte_step [of c d "fst cf" "snd cf" cf'] st Cons.prems(3) by auto
  next
    case False
    then show ?thesis using Cons.IH [OF a False] step_lit_ok [of d "fst cf" "snd cf" c cf'] st Cons.prems(3)
      by simp
  qed
qed simp

lemma space_then_brace:
  assumes "list_all asciiSpace w" and "j_acc d (s, ps) (w @ ''}'')" and "lit_ok (s, ps)"
  shows "j_acc d (s, ps) ''}''"
  using assms
proof (induction w arbitrary: s ps)
  case (Cons c w)
  then obtain s' ps' where st: "j_step d (s, ps) c = Some (s', ps')" and a: "j_acc d (s', ps') (w @ ''}'')"
    by (cases "j_step d (s, ps) c") auto
  have b: "j_acc d (s', ps') ''}''"
    using Cons.IH [OF _ a] Cons.prems step_lit_ok [OF st] by simp
  have "isJSONSpace c"
    using asciiSpace_cases [of c] vtab_step [of c s ps d] st Cons.prems by auto
  from space_step [OF this st Cons.prems(3)] show ?case
  proof (elim disjE conjE)
    assume "(s', ps') = (s, ps)"
    then show ?thesis using b by simp
  next
    assume e: "(s', ps') = (EndValue, ps)" "complete d (s, [])" "ps \<noteq> []"
    then show ?thesis
      using b complete_continue [of d s d ps "''}''"] Cons.prems(3) st
      by (cases "s = EndTop") (auto split: if_split_asm)
  next
    assume "(s', ps') = (EndTop, [])"
    then show ?thesis using b by simp
  qed
qed simp

lemma space_before_brace:
  assumes "list_all asciiSpace w" and "j_acc d cf (t @ w @ ''}'')" and "lit_ok cf"
  shows "j_acc d cf (t @ ''}'')"
  using assms(2,3)
proof (induction t arbitrary: cf)
  case Nil
  then show ?case using space_then_brace [OF assms(1), of d "fst cf" "snd cf"] by simp
next
  case (Cons c t)
  then obtain cf' where "j_step d cf c = Some cf'" "j_acc d cf' (t @ w @ ''}'')"
    by (cases "j_step d cf c") auto
  then show ?case using Cons.IH Cons.prems(2) step_lit_ok [of d "fst cf" "snd cf" c cf'] by simp
qed

text \<open>The inside of a valid object, without the space around it.\<close>

lemma object_inner:
  assumes "j_acc d (BeginStringOrEmpty, [ParseObjectKey]) (inner @ ''}'')" and "trimSpace inner \<noteq> []"
  shows "j_acc d (BeginString, [ParseObjectKey]) (trimSpace inner @ ''}'')"
    and "hd (trimSpace inner) = dquote" and "byte_val (last (trimSpace inner)) < 0x80"
proof -
  obtain w1 w2 where e: "inner = w1 @ trimSpace inner @ w2" and w: "list_all asciiSpace w1" "list_all asciiSpace w2"
    and h: "\<not> asciiSpace (hd (trimSpace inner))" using trimSpace_split [of inner] assms(2) by metis
  obtain c t where ct: "trimSpace inner = c # t" using assms(2) by (cases "trimSpace inner") auto
  let ?S = "(BeginStringOrEmpty, [ParseObjectKey])"
  have "j_acc d ?S (v @ r) \<Longrightarrow> list_all asciiSpace v \<Longrightarrow> j_acc d ?S r" for v r
  proof (induction v)
    case (Cons x v)
    then have "j_step d ?S x \<noteq> None" by (auto split: option.splits)
    then have "isJSONSpace x"
      using vtab_step [of x BeginStringOrEmpty "[ParseObjectKey]" d] asciiSpace_cases [of x] Cons.prems
      by (auto simp: lit_ok_def)
    then show ?case using Cons by (auto simp: j_begin_string_def isJSONSpace_def)
  qed simp
  from this [of w1 "trimSpace inner @ w2 @ ''}''"] assms(1) w(1) e
  have a: "j_acc d ?S (c # t @ w2 @ ''}'')" by (simp add: ct)
  have "c \<noteq> CHR ''}''"
  proof
    assume "c = CHR ''}''"
    then have "ws (t @ w2 @ ''}'')" using a by (simp add: j_end_value_def j_acc_top)
    then show False by simp
  qed
  moreover have "\<not> isJSONSpace c" using h ct asciiSpace_json by auto
  ultimately have c: "c = dquote" and b: "j_acc d (BeginString, [ParseObjectKey]) (c # t @ w2 @ ''}'')"
    using a by (auto simp: j_begin_string_def split: if_split_asm)
  show "hd (trimSpace inner) = dquote" using c ct by simp
  show "j_acc d (BeginString, [ParseObjectKey]) (trimSpace inner @ ''}'')"
    using space_before_brace [OF w(2), of d "(BeginString, [ParseObjectKey])" "c # t"] b unfolding ct
    by (simp add: lit_ok_def del: j_acc.simps)
  then show "byte_val (last (trimSpace inner)) < 0x80"
    using last_before_brace assms(2) by (simp add: lit_ok_def)
qed

lemma timestampKey_safe: "list_all htmlSafe timestampKey"
  by (simp add: timestampKey_def htmlSafe_def)

definition stampText :: "int \<Rightarrow> bytes" where
  "stampText now = dquote # timestampKey @ dquote # CHR '':'' # dquote # rfc3339Nano now @ [dquote]"

lemma inject_stamp:
  "injectTopLevelField (CHR ''{'' # inner @ ''}'') (dquote # timestampKey @ [dquote, CHR '':''])
     (marshalString (rfc3339Nano now)) =
   CHR ''{'' # stampText now @ (if trimSpace inner = [] then [] else CHR '','' # trimSpace inner) @ ''}''"
  by (simp add: injectTopLevelField_def Let_def slice_def marshal_stamp stampText_def)

lemma stamp_valid:
  assumes "j_acc d (BeginStringOrEmpty, [ParseObjectKey]) (inner @ ''}'')" and "0 < d"
  shows "json_valid_upto d (CHR ''{'' # stampText now @
    (if trimSpace inner = [] then [] else CHR '','' # trimSpace inner) @ ''}'')"
proof -
  let ?rest = "(if trimSpace inner = [] then [] else CHR '','' # trimSpace inner) @ ''}''"
  have rest: "j_acc d (EndValue, [ParseObjectValue]) ?rest"
    using object_inner(1) [OF assms(1)] by (simp add: j_end_value_def)
  have "j_acc d (InString, [ParseObjectKey])
      (timestampKey @ dquote # CHR '':'' # dquote # rfc3339Nano now @ dquote # ?rest)"
    unfolding safe_in_string [OF timestampKey_safe]
    using rest by (simp add: j_end_value_def j_begin_value_def safe_in_string [OF rfc3339Nano_safe]
        del: append_Cons append_Nil split del: if_split)
  then show ?thesis using assms(2)
    by (simp add: json_valid_upto_def j_begin_value_def j_push_def j_begin_string_def stampText_def)
qed

lemma stamp_has_key: "hasTopLevelKey (CHR ''{'' # stampText now @ r) timestampKey"
proof -
  have sk: "skip (CHR ''{'' # xs) = CHR ''{'' # xs" "skip (dquote # xs) = dquote # xs" for xs
    using lead_skip_append(2) [of "[]" "CHR ''{'' # xs"] lead_skip_append(2) [of "[]" "dquote # xs"]
    by simp_all
  obtain xs where xs: "stampText now @ r = dquote # xs" by (simp add: stampText_def)
  have "readValue (BeginValue, []) (stampText now @ r) = Some 11"
    by (simp add: stampText_def timestampKey_def j_begin_value_def j_end_value_def complete_def)
  moreover have "unquote_body timestampKey = Some timestampKey"
    by (simp add: timestampKey_def unquote_body.simps)
  moreover have "slice (stampText now @ r) 1 10 = timestampKey"
    by (simp add: stampText_def timestampKey_def slice_def)
  ultimately have "keyLoop True timestampKey (dquote # xs)"
    unfolding xs by (subst keyLoop.simps) (simp add: sk del: readValue.simps)
  then show ?thesis by (simp add: hasTopLevelKey_def sk xs)
qed

text \<open>Every accepted event is a valid object that has the timestamp key.\<close>

lemma stampEvent_valid:
  assumes "json_valid_upto d b" and "skip b \<noteq> []" and "hd (skip b) = CHR ''{''"
  shows "json_valid_upto d (stampEvent now (trimmedOf b)) \<and>
    hasTopLevelKey (stampEvent now (trimmedOf b)) timestampKey \<and>
    hd (stampEvent now (trimmedOf b)) = CHR ''{'' \<and> last (stampEvent now (trimmedOf b)) = CHR ''}''"
proof -
  note tr = trim_loops [OF assms(2)]
  have v: "json_valid_upto d (trimmedOf b)" using trimmed_valid [OF assms(2)] assms(1) by simp
  obtain inner where x: "trimmedOf b = CHR ''{'' # inner @ ''}''" and d: "0 < d"
    and a: "j_acc d (BeginStringOrEmpty, [ParseObjectKey]) (inner @ ''}'')"
    using valid_object_shape [OF v] tr(3,5,7) assms(3) by auto
  show ?thesis
  proof (cases "hasTopLevelKey (trimmedOf b) timestampKey")
    case True
    then show ?thesis using v by (simp add: stampEvent_def) (simp add: x)
  next
    case False
    then show ?thesis
      using stamp_valid [OF a d, of now] stamp_has_key [of now]
      by (simp add: stampEvent_def x inject_stamp)
  qed
qed

section \<open>A batch on the wire\<close>

lemma begin_value_or_empty:
  "j_acc d (BeginValue, ps) xs \<Longrightarrow> j_acc d (BeginValueOrEmpty, ps) xs"
proof (induction xs)
  case Nil
  then show ?case by (simp add: j_begin_value_def isJSONSpace_def)
next
  case (Cons c xs)
  show ?case
  proof (cases "isJSONSpace c")
    case True
    then show ?thesis using Cons space_not_token(6) [OF True] by (simp add: j_begin_value_def)
  next
    case False
    then have "c \<noteq> CHR '']''" using Cons.prems by (auto simp: j_begin_value_def nonzeroDigit_def)
    moreover have "j_begin_value d BeginValueOrEmpty ps c = j_begin_value d BeginValue ps c"
      using False by (simp add: j_begin_value_def)
    ultimately show ?thesis using Cons.prems by simp
  qed
qed

lemma joinEvents_accepts:
  assumes "list_all (json_valid_upto d) evs" and "evs \<noteq> []"
  defines "qs \<equiv> [ParseArrayValue, ParseObjectValue]"
  shows "j_acc (d + 2) (if i = 0 then BeginValue else EndValue, qs) (joinEvents i evs @ eventsSuffix)"
  using assms(1,2)
proof (induction evs arbitrary: i)
  case (Cons ev evs)
  have "j_acc (d + 2) (EndValue, qs) (joinEvents (i + 1) evs @ eventsSuffix)"
  proof (cases "evs = []")
    case True
    then show ?thesis by (simp add: qs_def eventsSuffix_def j_end_value_def)
  next
    case False
    then show ?thesis using Cons.IH [of "i + 1"] Cons.prems by simp
  qed
  then have "j_acc (d + 2) (BeginValue, qs) (ev @ joinEvents (i + 1) evs @ eventsSuffix)"
    using value_in_container [of d ev qs] Cons.prems by (simp add: qs_def)
  then show ?case by (cases "i = 0") (simp_all add: qs_def j_end_value_def)
qed simp

lemma encode_valid:
  assumes "list_all (json_valid_upto d) (Events batch)"
  shows "json_valid_upto (d + 2) (encodeEventBatch batch)"
proof -
  have "j_acc (d + 2) (BeginValueOrEmpty, [ParseArrayValue, ParseObjectValue])
      (joinEvents 0 (Events batch) @ eventsSuffix)"
  proof (cases "Events batch = []")
    case True
    then show ?thesis by (simp add: eventsSuffix_def j_end_value_def)
  next
    case False
    then show ?thesis using joinEvents_accepts [OF assms False, of 0] by (simp add: begin_value_or_empty)
  qed
  then show ?thesis
    by (simp add: json_valid_upto_def encodeEventBatch_def eventsPrefix_def j_begin_value_def
        j_push_def j_begin_string_def j_end_value_def)
qed

section \<open>Properties\<close>

text \<open>A datagram is refused as oversize exactly when it is longer than the
  limit, accepted exactly when it is otherwise a valid JSON text that opens a brace, and a parse
  error in every other case; an event is returned exactly with \<open>validateOK\<close>.\<close>

theorem validate_reason_exact:
  "snd (validateEvent b maxBytes now) =
     (if int (length b) > maxBytes then validateOversize
      else if json_valid b \<and> skip b \<noteq> [] \<and> hd (skip b) = CHR ''{'' then validateOK
      else validateParseError) \<and>
   (fst (validateEvent b maxBytes now) = None \<longleftrightarrow> snd (validateEvent b maxBytes now) \<noteq> validateOK)"
  by (simp add: validateEvent_eq validObject_def)


lemma sample_valid: "0 < d \<Longrightarrow> json_valid_upto d '' {\"a\":1} ''"
  by (simp add: json_valid_upto_def j_begin_value_def j_push_def j_begin_string_def j_end_value_def
      isJSONSpace_def isDigit_def nonzeroDigit_def)

lemma sample_validObject: "validObject '' {\"a\":1} ''"
proof -
  have "skip '' {\"a\":1} '' = ''{\"a\":1} ''" by code_simp
  then show ?thesis by (simp add: validObject_def json_valid_def sample_valid maxNestingDepth_def)
qed


text \<open>C21: \<open>batch_body_is_valid_json\<close>. The body of a batch whose events are valid JSON up to some
  nesting is one valid JSON text two levels deeper, so a bad event cannot hide behind the
  concatenation.\<close>

theorem batch_body_is_valid_json:
  assumes "\<forall>ev \<in> set (Events batch). json_valid_upto d ev"
  shows "json_valid_upto (d + 2) (encodeEventBatch batch)"
  using assms by (intro encode_valid) (simp add: list_all_iff)

theorem batch_body_is_valid_json_witness:
  "json_valid_upto (1 + 2)
     (encodeEventBatch \<lparr>Events = ['' {\"a\":1} '', '' {\"a\":1} ''], StartedAt = 0, Token = []\<rparr>)"
  by (rule batch_body_is_valid_json) (use sample_valid [of 1] in simp)

end
