(* ===== verification/Batcher.thy ===== *)
theory Batcher
  imports Events_Json
begin

text \<open>
  The batcher of \<open>src/events.go\<close> as a whole: its \<open>run\<close> loop over the events of its \<open>select\<close>, the
  invariant every step keeps, the bounds on the batches it sends, and what becomes of each event.
\<close>

section \<open>The run loop\<close>

text \<open>One iteration of the \<open>select\<close>: a datagram (with the fates of the two possible flushes and the
  clock), the timer, or the closed input, which ends the loop.\<close>

datatype bevent =
    Datagram fate fate int rawDatagram
  | TimerFired fate
  | InputClosed fate

fun batcherRun :: "bevent list \<Rightarrow> bstate \<Rightarrow> bstate" where
  "batcherRun [] st = st"
| "batcherRun (Datagram f1 f2 now dg # es) st = batcherRun es (onDatagram f1 f2 now dg st)"
| "batcherRun (TimerFired ft # es) st = batcherRun es (onTimer ft st)"
| "batcherRun (InputClosed ft # es) st = onClosed ft st"

section \<open>The invariant\<close>

definition evBytes :: "bytes list \<Rightarrow> int" where
  "evBytes evs = (\<Sum>ev\<leftarrow>evs. int (length ev) + 1)"

definition batcher_inv :: "batcher \<Rightarrow> bool" where
  "batcher_inv b \<longleftrightarrow>
     curBytes b = evBytes (cur b) \<and> int (length (cur b)) < b_maxEvents b \<and>
     0 < b_maxEvents b \<and> b_maxEvents b \<le> MaxEventsPerBatch \<and>
     (armed b \<longleftrightarrow> cur b \<noteq> []) \<and> (cur b = [] \<longrightarrow> curToken b = []) \<and>
     (length (cur b) \<le> 1 \<or> evBytes (cur b) \<le> MaxBatchBytes)"

definition batch_ok :: "int \<Rightarrow> EventBatch \<Rightarrow> bool" where
  "batch_ok maxEvents batch \<longleftrightarrow>
     Events batch \<noteq> [] \<and> int (length (Events batch)) \<le> maxEvents \<and>
     (length (Events batch) \<le> 1 \<or> evBytes (Events batch) \<le> MaxBatchBytes)"

lemma evBytes_simps [simp]:
  "evBytes [] = 0" "evBytes (ev # evs) = int (length ev) + 1 + evBytes evs"
  "evBytes (evs @ evs') = evBytes evs + evBytes evs'"
  by (simp_all add: evBytes_def)

lemma new_batcher_inv: "batcher_inv (newEventsBatcher me mb w)"
  by (simp add: batcher_inv_def newEventsBatcher_def MaxEventsPerBatch_def MaxBatchBytes_def)

text \<open>What stays fixed in every step.\<close>

definition same_limits :: "bstate \<Rightarrow> bstate \<Rightarrow> bool" where
  "same_limits st st' \<longleftrightarrow> b_maxEvents (bt st') = b_maxEvents (bt st) \<and>
     b_maxEventBytes (bt st') = b_maxEventBytes (bt st) \<and> b_hasCtx (bt st') = b_hasCtx (bt st)"

lemma bump_frame [simp]:
  "bt (bumpShutdown n st) = bt st" "sent (bumpShutdown n st) = sent st"
  "bt (bumpOversize st) = bt st" "sent (bumpOversize st) = sent st"
  "bt (bumpParseError st) = bt st" "sent (bumpParseError st) = sent st"
  "bt (bumpReceived st) = bt st" "sent (bumpReceived st) = sent st" "ss (bumpReceived st) = ss st"
  by (simp_all add: bumpShutdown_def bumpOversize_def bumpParseError_def bumpReceived_def)

lemma flush_bt:
  "bt (flush ft st) = (if cur (bt st) = [] then bt st
     else (bt st)\<lparr>cur := [], curBytes := 0, curToken := [], firstSeen := 0\<rparr>)"
  by (simp add: flush_def Let_def)

lemma flush_sent:
  "sent (flush ft st) = sent st @
     (if cur (bt st) \<noteq> [] \<and> (\<not> b_hasCtx (bt st) \<or> ft = HandedOver)
      then [\<lparr>Events = cur (bt st), StartedAt = firstSeen (bt st), Token = curToken (bt st)\<rparr>] else [])"
  by (simp add: flush_def Let_def)

lemma disarm_frame [simp]:
  "sent (disarm st) = sent st" "ss (disarm st) = ss st" "pst (disarm st) = pst st"
  "bt (disarm st) = (bt st)\<lparr>armed := False\<rparr>"
  by (simp_all add: disarm_def)

lemma append_frame [simp]:
  "sent (appendEvent ev dg st) = sent st" "ss (appendEvent ev dg st) = ss st"
  "pst (appendEvent ev dg st) = pst st"
  by (simp_all add: appendEvent_def Let_def)

text \<open>The state between the two flushes: the invariant but for the count limit.\<close>

definition mid_inv :: "batcher \<Rightarrow> bool" where
  "mid_inv b \<longleftrightarrow>
     curBytes b = evBytes (cur b) \<and> int (length (cur b)) \<le> b_maxEvents b \<and> cur b \<noteq> [] \<and> armed b \<and>
     0 < b_maxEvents b \<and> b_maxEvents b \<le> MaxEventsPerBatch \<and>
     (length (cur b) \<le> 1 \<or> evBytes (cur b) \<le> MaxBatchBytes)"

lemma preFlush_inv:
  fixes ft :: fate and ev :: bytes
  assumes "batcher_inv (bt st)" and "list_all (batch_ok (b_maxEvents (bt st))) (sent st)"
  defines "st' \<equiv> preFlush ft ev st"
  shows "batcher_inv (bt st')" and "list_all (batch_ok (b_maxEvents (bt st'))) (sent st')"
    and "same_limits st st'" and "cur (bt st') = [] \<or> evBytes (cur (bt st')) + int (length ev) + 1 \<le> MaxBatchBytes"
  using assms(1,2)
  by (auto simp: st'_def preFlush_def flush_bt flush_sent batcher_inv_def batch_ok_def same_limits_def
      MaxBatchBytes_def Suc_le_eq)

lemma appendEvent_bt:
  "cur (bt (appendEvent ev dg st)) = cur (bt st) @ [ev]"
  "curBytes (bt (appendEvent ev dg st)) = curBytes (bt st) + (int (length ev) + 1)"
  "armed (bt (appendEvent ev dg st)) = (armed (bt st) \<or> cur (bt st) = [])"
  "curToken (bt (appendEvent ev dg st)) = (if dg_token dg \<noteq> [] then dg_token dg else curToken (bt st))"
  "same_limits st (appendEvent ev dg st)"
  by (simp_all add: appendEvent_def Let_def same_limits_def)

lemma appendEvent_inv:
  assumes "batcher_inv (bt st)" and "cur (bt st) = [] \<or> evBytes (cur (bt st)) + int (length ev) + 1 \<le> MaxBatchBytes"
  shows "mid_inv (bt (appendEvent ev dg st))"
  using assms appendEvent_bt(5) [of st ev dg]
  by (auto simp: mid_inv_def batcher_inv_def appendEvent_bt(1-4) same_limits_def)

lemma postFlush_inv:
  fixes ft :: fate
  assumes "mid_inv (bt st)" and "list_all (batch_ok (b_maxEvents (bt st))) (sent st)"
  defines "st' \<equiv> postFlush ft st"
  shows "batcher_inv (bt st') \<and> list_all (batch_ok (b_maxEvents (bt st'))) (sent st') \<and> same_limits st st'"
  using assms(1,2)
  by (auto simp: st'_def postFlush_def flush_bt flush_sent mid_inv_def batcher_inv_def batch_ok_def
      same_limits_def le_less Suc_le_eq)

definition state_ok :: "bstate \<Rightarrow> bool" where
  "state_ok st \<longleftrightarrow> batcher_inv (bt st) \<and> list_all (batch_ok (b_maxEvents (bt st))) (sent st)"

lemma same_limits_trans: "same_limits a b \<Longrightarrow> same_limits b c \<Longrightarrow> same_limits a c"
  by (simp add: same_limits_def)

lemma onDatagram_inv:
  assumes "state_ok st"
  shows "state_ok (onDatagram f1 f2 now dg st) \<and> same_limits st (onDatagram f1 f2 now dg st)"
proof -
  obtain ev r where v: "validateEvent (dg_bytes dg) (b_maxEventBytes (bt st)) now = (ev, r)" by force
  show ?thesis
  proof (cases r)
    case validateOK
    let ?s0 = "bumpReceived st"
    let ?s1 = "preFlush f1 (the ev) ?s0"
    let ?s2 = "appendEvent (the ev) dg ?s1"
    have i0: "batcher_inv (bt ?s0)" "list_all (batch_ok (b_maxEvents (bt ?s0))) (sent ?s0)"
      using assms by (simp_all add: state_ok_def)
    note p = preFlush_inv [OF i0, where ft = f1 and ev = "the ev"]
    have m: "mid_inv (bt ?s2)" by (rule appendEvent_inv [OF p(1,4)])
    have l: "same_limits ?s1 ?s2" by (rule appendEvent_bt(5))
    then have b: "list_all (batch_ok (b_maxEvents (bt ?s2))) (sent ?s2)"
      using p(2) by (simp add: same_limits_def)
    have "same_limits st ?s1" using p(3) by (simp add: same_limits_def)
    then show ?thesis
      using postFlush_inv [OF m b, of f2] l same_limits_trans validateOK
      by (simp add: onDatagram_def v state_ok_def)
  qed (use assms in \<open>simp_all add: onDatagram_def v state_ok_def same_limits_def\<close>)
qed

lemma onTimer_inv:
  assumes "state_ok st"
  shows "state_ok (onTimer ft st) \<and> same_limits st (onTimer ft st)"
  using assms
  by (auto simp: onTimer_def state_ok_def flush_bt flush_sent batcher_inv_def batch_ok_def
      same_limits_def MaxBatchBytes_def Suc_le_eq)

lemma onClosed_sent:
  assumes "state_ok st"
  shows "list_all (batch_ok (b_maxEvents (bt st))) (sent (onClosed ft st))"
  using assms
  by (auto simp: onClosed_def state_ok_def flush_sent batcher_inv_def batch_ok_def Suc_le_eq)

lemma batcherRun_sent:
  "state_ok st \<Longrightarrow> list_all (batch_ok (b_maxEvents (bt st))) (sent (batcherRun es st))"
proof (induction es st rule: batcherRun.induct)
  case (2 f1 f2 now dg es st)
  then show ?case using onDatagram_inv [of st f1 f2 now dg] by (simp add: same_limits_def)
next
  case (3 ft es st)
  then show ?case using onTimer_inv [of st ft] by (simp add: same_limits_def)
qed (simp_all add: onClosed_sent, simp add: state_ok_def)

section \<open>The length of a body\<close>

lemma length_joinEvents:
  "int (length (joinEvents i evs)) = evBytes evs - (if i = 0 \<and> evs \<noteq> [] then 1 else 0)"
  by (induction i evs rule: joinEvents.induct) auto

lemma length_encode:
  "Events batch \<noteq> [] \<Longrightarrow> int (length (encodeEventBatch batch)) = evBytes (Events batch) + 12"
  by (simp add: encodeEventBatch_def length_joinEvents eventsPrefix_def eventsSuffix_def)

section \<open>What becomes of each event\<close>

text \<open>
  \<open>intake\<close> counts the datagrams a batcher has taken in, \<open>ledger\<close> is the number of accepted events
  minus those still in the current batch, sent or given up; both modulo \<open>2 ^ 64\<close>, as the counters.
\<close>

definition intake :: "bstate \<Rightarrow> u64" where
  "intake st = p_EventsReceived (the (pst st)) + s_DropsParseError (ss st) + s_DropsOversize (ss st)"

definition events_in :: "EventBatch list \<Rightarrow> u64" where
  "events_in bs = (\<Sum>b\<leftarrow>bs. of_nat (length (Events b)))"

definition ledger :: "bstate \<Rightarrow> u64" where
  "ledger st = p_EventsReceived (the (pst st)) - p_DropsShutdown (the (pst st))
     - of_nat (length (cur (bt st))) - events_in (sent st)"

definition shutdown_gap :: "bstate \<Rightarrow> u64" where
  "shutdown_gap st = s_DropsShutdown (ss st) - p_DropsShutdown (the (pst st))"

text \<open>The counters a batcher never touches.\<close>

definition batcher_frame :: "bstate \<Rightarrow> bstate \<Rightarrow> bool" where
  "batcher_frame st st' \<longleftrightarrow>
     (ss st')\<lparr>s_DropsParseError := 0, s_DropsOversize := 0, s_DropsShutdown := 0\<rparr> =
       (ss st)\<lparr>s_DropsParseError := 0, s_DropsOversize := 0, s_DropsShutdown := 0\<rparr> \<and>
     (the (pst st'))\<lparr>p_EventsReceived := 0, p_DropsParseError := 0, p_DropsOversize := 0, p_DropsShutdown := 0\<rparr> =
       (the (pst st))\<lparr>p_EventsReceived := 0, p_DropsParseError := 0, p_DropsOversize := 0, p_DropsShutdown := 0\<rparr> \<and>
     pst st' \<noteq> None"

lemma events_in_simps [simp]:
  "events_in [] = 0" "events_in (b # bs) = of_nat (length (Events b)) + events_in bs"
  "events_in (bs @ bs') = events_in bs + events_in bs'"
  by (simp_all add: events_in_def)

lemma batcher_frame_refl [simp]: "pst st \<noteq> None \<Longrightarrow> batcher_frame st st"
  by (simp add: batcher_frame_def)

lemma batcher_frame_trans: "batcher_frame a b \<Longrightarrow> batcher_frame b c \<Longrightarrow> batcher_frame a c"
  by (simp add: batcher_frame_def)

text \<open>Steps that neither take in nor lose track of an event.\<close>

definition neutral :: "bstate \<Rightarrow> bstate \<Rightarrow> bool" where
  "neutral st st' \<longleftrightarrow> intake st' = intake st \<and> ledger st' = ledger st \<and>
     shutdown_gap st' = shutdown_gap st \<and> batcher_frame st st'"

lemma neutral_trans: "neutral a b \<Longrightarrow> neutral b c \<Longrightarrow> neutral a c"
  by (auto simp: neutral_def intro: batcher_frame_trans)

lemma neutral_refl: "pst st \<noteq> None \<Longrightarrow> neutral st st"
  by (simp add: neutral_def)

lemma neutral_pst: "neutral st st' \<Longrightarrow> pst st' \<noteq> None"
  by (simp add: neutral_def batcher_frame_def)

lemma flush_neutral: "pst st \<noteq> None \<Longrightarrow> neutral st (flush ft st)"
  by (auto simp: neutral_def flush_def Let_def intake_def ledger_def shutdown_gap_def batcher_frame_def
      bumpShutdown_def)

lemma disarm_neutral: "pst st \<noteq> None \<Longrightarrow> neutral st (disarm st)"
  by (simp add: neutral_def intake_def ledger_def shutdown_gap_def batcher_frame_def)

lemma flush_disarm_neutral: "pst st \<noteq> None \<Longrightarrow> neutral st (disarm (flush ft st))"
  by (metis flush_neutral disarm_neutral neutral_trans neutral_pst)

lemma preFlush_neutral: "pst st \<noteq> None \<Longrightarrow> neutral st (preFlush ft ev st)"
  by (simp add: preFlush_def flush_disarm_neutral neutral_refl)

lemma postFlush_neutral: "pst st \<noteq> None \<Longrightarrow> neutral st (postFlush ft st)"
  by (simp add: postFlush_def flush_disarm_neutral neutral_refl)

lemma onTimer_neutral: "pst st \<noteq> None \<Longrightarrow> neutral st (onTimer ft st)"
  by (simp add: onTimer_def flush_disarm_neutral neutral_refl)

lemma onClosed_neutral: "pst st \<noteq> None \<Longrightarrow> neutral st (onClosed ft st)"
  by (simp add: onClosed_def flush_neutral)

lemma appendEvent_ledger:
  "intake (appendEvent ev dg st) = intake st" "ledger (appendEvent ev dg st) = ledger st - 1"
  "shutdown_gap (appendEvent ev dg st) = shutdown_gap st"
  "pst st \<noteq> None \<Longrightarrow> batcher_frame st (appendEvent ev dg st)"
  by (simp_all add: intake_def ledger_def shutdown_gap_def batcher_frame_def appendEvent_bt)

lemma bumpReceived_ledger:
  assumes "pst st \<noteq> None"
  shows "intake (bumpReceived st) = intake st + 1" "ledger (bumpReceived st) = ledger st + 1"
    "shutdown_gap (bumpReceived st) = shutdown_gap st" "batcher_frame st (bumpReceived st)"
  using assms
  by (auto simp: intake_def ledger_def shutdown_gap_def batcher_frame_def bumpReceived_def)

lemma drop_ledger:
  assumes "pst st \<noteq> None" and "st' = bumpOversize st \<or> st' = bumpParseError st"
  shows "intake st' = intake st + 1 \<and> ledger st' = ledger st \<and> shutdown_gap st' = shutdown_gap st \<and>
    batcher_frame st st'"
  using assms
  by (auto simp: intake_def ledger_def shutdown_gap_def batcher_frame_def bumpOversize_def bumpParseError_def)

text \<open>A datagram is taken in once, whatever its fate; no event is lost or counted twice.\<close>

lemma onDatagram_ledger:
  assumes "pst st \<noteq> None"
  defines "st' \<equiv> \<lambda>f1 f2 now dg. onDatagram f1 f2 now dg st"
  shows "intake (st' f1 f2 now dg) = intake st + 1 \<and> ledger (st' f1 f2 now dg) = ledger st \<and>
    shutdown_gap (st' f1 f2 now dg) = shutdown_gap st \<and> batcher_frame st (st' f1 f2 now dg)"
proof -
  obtain ev r where v: "validateEvent (dg_bytes dg) (b_maxEventBytes (bt st)) now = (ev, r)" by force
  show ?thesis
  proof (cases r)
    case validateOK
    let ?s0 = "bumpReceived st"
    let ?s1 = "preFlush f1 (the ev) ?s0"
    let ?s2 = "appendEvent (the ev) dg ?s1"
    note r = bumpReceived_ledger [OF assms(1)]
    then have "pst ?s0 \<noteq> None" by (simp add: batcher_frame_def)
    then have n1: "neutral ?s0 ?s1" by (rule preFlush_neutral)
    note a = appendEvent_ledger [where ev = "the ev" and dg = dg and st = ?s1]
    have f2: "batcher_frame ?s1 ?s2" using a(4) neutral_pst [OF n1] by blast
    then have "pst ?s2 \<noteq> None" by (simp add: batcher_frame_def)
    then have n2: "neutral ?s2 (postFlush f2 ?s2)" by (rule postFlush_neutral)
    have "batcher_frame st (postFlush f2 ?s2)"
      using r(4) n1 f2 n2 batcher_frame_trans unfolding neutral_def by blast
    then show ?thesis using r n1 a n2 validateOK
      by (simp add: st'_def onDatagram_def v neutral_def)
  qed (use assms drop_ledger [of st] in \<open>auto simp: st'_def onDatagram_def v\<close>)
qed

section \<open>Order\<close>

definition stream :: "bstate \<Rightarrow> bytes list" where
  "stream st = concat (map Events (sent st)) @ cur (bt st)"

definition accepted :: "int \<Rightarrow> bevent \<Rightarrow> bytes list" where
  "accepted mx e =
     (case e of
        Datagram f1 f2 now dg \<Rightarrow>
          (case validateEvent (dg_bytes dg) mx now of (ev, validateOK) \<Rightarrow> [the ev] | _ \<Rightarrow> [])
      | _ \<Rightarrow> [])"

definition handed_over :: "bevent \<Rightarrow> bool" where
  "handed_over e \<longleftrightarrow>
     (case e of Datagram f1 f2 now dg \<Rightarrow> f1 = HandedOver \<and> f2 = HandedOver
      | TimerFired ft \<Rightarrow> ft = HandedOver | InputClosed ft \<Rightarrow> ft = HandedOver)"

lemma flush_stream: "stream (flush HandedOver st) = stream st"
  by (simp add: stream_def flush_bt flush_sent)

lemma disarm_stream [simp]: "stream (disarm st) = stream st"
  by (simp add: stream_def)

lemma bumpReceived_stream [simp]: "stream (bumpReceived st) = stream st"
  by (simp add: stream_def)

lemma appendEvent_stream: "stream (appendEvent ev dg st) = stream st @ [ev]"
  by (simp add: stream_def appendEvent_bt)

lemma onDatagram_stream:
  "stream (onDatagram HandedOver HandedOver now dg st) =
     stream st @ accepted (b_maxEventBytes (bt st)) (Datagram f1 f2 now dg)"
  by (auto simp: onDatagram_def accepted_def postFlush_def preFlush_def flush_stream appendEvent_stream
      stream_def [of "bumpOversize st"] stream_def [of "bumpParseError st"] stream_def [of st]
      split: prod.split validateReason.split)

lemma onTimer_stream: "stream (onTimer HandedOver st) = stream st"
  by (simp add: onTimer_def flush_stream)

lemma batcherRun_stream:
  assumes "list_all handed_over es" and "\<forall>ft. InputClosed ft \<notin> set es" and "state_ok st"
  shows "stream (batcherRun (es @ [InputClosed HandedOver]) st) =
    stream st @ concat (map (accepted (b_maxEventBytes (bt st))) es)"
  using assms
proof (induction es arbitrary: st)
  case Nil
  then show ?case by (simp add: onClosed_def flush_stream)
next
  case (Cons e es)
  show ?case
  proof (cases e)
    case (Datagram f1 f2 now dg)
    then have f: "f1 = HandedOver" "f2 = HandedOver" using Cons.prems by (simp_all add: handed_over_def)
    note i = onDatagram_inv [OF Cons.prems(3), of f1 f2 now dg]
    then have "b_maxEventBytes (bt (onDatagram f1 f2 now dg st)) = b_maxEventBytes (bt st)"
      by (simp add: same_limits_def)
    moreover have "stream (onDatagram f1 f2 now dg st) = stream st @ accepted (b_maxEventBytes (bt st)) e"
      using onDatagram_stream [of now dg st f1 f2] by (simp add: Datagram f)
    ultimately show ?thesis using Cons i by (simp add: Datagram)
  next
    case (TimerFired ft)
    then have "ft = HandedOver" using Cons.prems by (simp add: handed_over_def)
    moreover note i = onTimer_inv [OF Cons.prems(3), of ft]
    ultimately show ?thesis using Cons onTimer_stream [of st]
      by (simp add: TimerFired same_limits_def accepted_def)
  next
    case (InputClosed ft)
    then show ?thesis using Cons.prems by auto
  qed
qed

lemma onClosed_all_sent: "cur (bt (onClosed HandedOver st)) = []"
  by (simp add: onClosed_def flush_bt)

fun takenIn :: "bevent list \<Rightarrow> nat" where
  "takenIn [] = 0"
| "takenIn (Datagram f1 f2 now dg # es) = Suc (takenIn es)"
| "takenIn (TimerFired ft # es) = takenIn es"
| "takenIn (InputClosed ft # es) = 0"

lemma batcherRun_ledger:
  assumes "pst st \<noteq> None"
  shows "intake (batcherRun es st) = intake st + of_nat (takenIn es) \<and> ledger (batcherRun es st) = ledger st \<and>
    shutdown_gap (batcherRun es st) = shutdown_gap st"
  using assms
proof (induction es st rule: batcherRun.induct)
  case (2 f1 f2 now dg es st)
  then show ?case using onDatagram_ledger [of st f1 f2 now dg] by (simp add: batcher_frame_def)
next
  case (3 ft es st)
  then show ?case using onTimer_neutral [of st ft] by (simp add: neutral_def batcher_frame_def)
next
  case (4 ft es st)
  then show ?case using onClosed_neutral [of st ft] by (simp add: neutral_def)
qed simp

section \<open>Properties\<close>

definition freshState :: "int \<Rightarrow> int \<Rightarrow> int \<Rightarrow> bstate" where
  "freshState maxEvents maxEventBytes window =
     \<lparr>bt = (newEventsBatcher maxEvents maxEventBytes window)\<lparr>b_hasCtx := True\<rparr>, ss = newSelfStats 0,
      pst = Some newPipelineStats, sent = []\<rparr>"

lemma fresh_ok: "state_ok (freshState me mb w)"
  using new_batcher_inv [of me mb w] by (simp add: state_ok_def freshState_def batcher_inv_def)

lemma fresh_ledger:
  "pst (freshState me mb w) \<noteq> None" "intake (freshState me mb w) = 0" "ledger (freshState me mb w) = 0"
  "shutdown_gap (freshState me mb w) = 0"
  by (simp_all add: intake_def ledger_def shutdown_gap_def freshState_def counter_defs newEventsBatcher_def)


definition sampleRun :: "bevent list" where
  "sampleRun =
     [Datagram HandedOver HandedOver 0 \<lparr>dg_bytes = '' {\"a\":1} '', dg_at = 5, dg_project = [], dg_token = []\<rparr>,
      Datagram HandedOver HandedOver 0 \<lparr>dg_bytes = [], dg_at = 6, dg_project = [], dg_token = []\<rparr>,
      TimerFired HandedOver]"

lemma sample_validate:
  "validateEvent '' {\"a\":1} '' 1048576 0 = (Some (stampEvent 0 (trimmedOf '' {\"a\":1} '')), validateOK)"
  "validateEvent [] 1048576 0 = (None, validateParseError)"
  by (simp add: validateEvent_eq sample_validObject) (simp add: validateEvent_def)

lemmas batcher_defs = onDatagram_def onTimer_def onClosed_def flush_def disarm_def appendEvent_def
  preFlush_def postFlush_def bumpReceived_def bumpParseError_def bumpOversize_def bumpShutdown_def Let_def

lemma sampleRun_sent:
  "sent (batcherRun sampleRun (freshState 500 0 0)) =
     [\<lparr>Events = [stampEvent 0 (trimmedOf '' {\"a\":1} '')], StartedAt = 5, Token = []\<rparr>]"
  by (simp add: sampleRun_def freshState_def newEventsBatcher_def DefaultMaxEventBytes_def
      MaxEventsPerBatch_def batcher_defs sample_validate)




text \<open>C16: \<open>batcher_accounts_every_event\<close>. Over any run, handed over or abandoned, each datagram taken in
  is counted as received, oversize or malformed, and each received event is in the current batch, in
  a sent batch or in the shutdown drops, which the process and the pipeline count alike (modulo
  \<open>2 ^ 64\<close>).\<close>

theorem batcher_accounts_every_event:
  fixes es me mb w
  defines "st \<equiv> batcherRun es (freshState me mb w)"
  defines "p \<equiv> the (pst st)"
  shows "of_nat (takenIn es) = p_EventsReceived p + s_DropsParseError (ss st) + s_DropsOversize (ss st) \<and>
    p_EventsReceived p = of_nat (length (cur (bt st))) + events_in (sent st) + p_DropsShutdown p \<and>
    s_DropsShutdown (ss st) = p_DropsShutdown p"
proof -
  have "intake st = of_nat (takenIn es)" "ledger st = 0" "shutdown_gap st = 0"
    using batcherRun_ledger [OF fresh_ledger(1), of es] by (simp_all add: st_def fresh_ledger(2-4))
  then show ?thesis
    by (simp add: p_def intake_def ledger_def shutdown_gap_def algebra_simps)
qed



end
