(* ===== verification/Config.thy ===== *)
theory Config
  imports Events
begin

text \<open>
  \<open>loadConfig\<close> of \<open>src/main.go\<close>: the configuration record, the environment it is read from (a function
  from names to values, the empty value for an unset name, as \<open>os.Getenv\<close>), the parsing of numbers by
  \<open>strconv.Atoi\<close> and the refusals. A duration is a signed 64-bit number of nanoseconds, so the
  conversion from milliseconds wraps.
\<close>

section \<open>Log levels\<close>

datatype Level = LevelDebug | LevelInfo | LevelWarn | LevelError

fun levelValue :: "Level \<Rightarrow> int" where
  "levelValue LevelDebug = -4"
| "levelValue LevelInfo = 0"
| "levelValue LevelWarn = 4"
| "levelValue LevelError = 8"

lemma levelValue_inject: "levelValue a = levelValue b \<Longrightarrow> a = b"
  by (cases a; cases b) simp_all

text \<open>\<open>slog\<close> compares levels by their number; a record is written when its level reaches the minimum.\<close>

instantiation Level :: linorder
begin

definition less_eq_Level :: "Level \<Rightarrow> Level \<Rightarrow> bool" where
  "less_eq_Level a b \<longleftrightarrow> levelValue a \<le> levelValue b"

definition less_Level :: "Level \<Rightarrow> Level \<Rightarrow> bool" where
  "less_Level a b \<longleftrightarrow> levelValue a < levelValue b"

instance
  by standard (auto simp: less_eq_Level_def less_Level_def intro: levelValue_inject)

end

section \<open>The configuration\<close>

record Config =
  APIKey :: bytes
  KeysFile :: bytes
  GatewayURL :: bytes
  EventsPath :: bytes
  ListenPath :: bytes
  HealthAddr :: bytes
  BatchWindow :: int
  MaxBatch :: int
  MaxEventBytes :: int
  QueueSize :: int
  MaxRetries :: int
  ShutdownGrace :: int
  LogLevel :: Level
  MaxProjects :: int
  KeysPollInterval :: int
  RequireProject :: bool
  InlineTokens :: bool
  InlineIdle :: int

datatype configError =
    BadBatchWindow | BadMaxBatch | BadMaxEventBytes | BadQueueSize | BadMaxRetries
  | BadShutdownGrace | BadMaxProjects | BadKeysPoll | BadInlineTokens | BadInlineIdle
  | BadRequireProject | BadLogLevel | NoCredentialSource | ListenPathEmpty | ListenPathTooLong

text \<open>\<open>strconv.Atoi\<close> on a 64-bit platform: an optional sign, then digits only, within \<open>int64\<close>.\<close>

definition decValue :: "bytes \<Rightarrow> int" where
  "decValue ds = foldl (\<lambda>n c. n * 10 + (int (byte_val c) - 48)) 0 ds"

definition atoi :: "bytes \<Rightarrow> int option" where
  "atoi s =
     (let neg = (s \<noteq> [] \<and> hd s = CHR ''-'');
          ds = (if s \<noteq> [] \<and> (hd s = CHR ''-'' \<or> hd s = CHR ''+'') then tl s else s);
          n = (if neg then - decValue ds else decValue ds)
      in if ds = [] \<or> \<not> list_all isDigit ds then None
         else if n < - (2 ^ 63) \<or> n > 2 ^ 63 - 1 then None else Some n)"

text \<open>\<open>time.Duration(ms) * time.Millisecond\<close>\<close>

definition millis :: "int \<Rightarrow> int" where
  "millis ms = sint (word_of_int (ms * 1000000) :: 64 word)"

definition envOr :: "(bytes \<Rightarrow> bytes) \<Rightarrow> bytes \<Rightarrow> bytes \<Rightarrow> bytes" where
  "envOr getenv k def = (let v = getenv k in if v \<noteq> [] then v else def)"

text \<open>One numeric knob: skipped when unset, refused when it is not a number or out of range.\<close>

type_synonym knob = "Config \<Rightarrow> configError + Config"

definition intKnob ::
  "(bytes \<Rightarrow> bytes) \<Rightarrow> bytes \<Rightarrow> (int \<Rightarrow> bool) \<Rightarrow> configError \<Rightarrow> (int \<Rightarrow> Config \<Rightarrow> Config) \<Rightarrow> knob" where
  "intKnob getenv k ok err upd c =
     (let v = getenv k in
      if v = [] then Inr c
      else (case atoi v of
          None \<Rightarrow> Inl err
        | Some n \<Rightarrow> if ok n then Inr (upd n c) else Inl err))"

definition boolKnob ::
  "(bytes \<Rightarrow> bytes) \<Rightarrow> bytes \<Rightarrow> configError \<Rightarrow> (bool \<Rightarrow> Config \<Rightarrow> Config) \<Rightarrow> knob" where
  "boolKnob getenv k err upd c =
     (let v = getenv k in
      if v = [] then Inr c
      else if v = ''1'' \<or> v = ''true'' \<or> v = ''TRUE'' then Inr (upd True c)
      else if v = ''0'' \<or> v = ''false'' \<or> v = ''FALSE'' then Inr (upd False c)
      else Inl err)"

definition levelKnob :: "(bytes \<Rightarrow> bytes) \<Rightarrow> knob" where
  "levelKnob getenv c =
     (let v = getenv ''MESH0_LOG_LEVEL'' in
      if v = [] then Inr c
      else if v = ''debug'' then Inr (c\<lparr>LogLevel := LevelDebug\<rparr>)
      else if v = ''info'' then Inr (c\<lparr>LogLevel := LevelInfo\<rparr>)
      else if v = ''warn'' then Inr (c\<lparr>LogLevel := LevelWarn\<rparr>)
      else if v = ''error'' then Inr (c\<lparr>LogLevel := LevelError\<rparr>)
      else Inl BadLogLevel)"

definition defaultConfig :: "(bytes \<Rightarrow> bytes) \<Rightarrow> Config" where
  "defaultConfig getenv =
     \<lparr>APIKey = getenv ''MESH0_API_KEY'',
      KeysFile = getenv ''MESH0_KEYS_FILE'',
      GatewayURL = envOr getenv ''MESH0_BASE_URL'' ''https://api.mesh0.ai'',
      EventsPath = envOr getenv ''MESH0_EVENTS_PATH'' ''/v1/events'',
      ListenPath = envOr getenv ''MESH0_LISTEN_PATH'' ''/run/mesh0/agent.sock'',
      HealthAddr = envOr getenv ''MESH0_HEALTH_ADDR'' '':8126'',
      BatchWindow = 200 * 1000000,
      MaxBatch = 500,
      MaxEventBytes = DefaultMaxEventBytes,
      QueueSize = 2000,
      MaxRetries = 4,
      ShutdownGrace = 15 * 1000000000,
      LogLevel = LevelInfo,
      MaxProjects = 0,
      KeysPollInterval = 30 * 1000000000,
      RequireProject = False,
      InlineTokens = True,
      InlineIdle = 15 * 60 * 1000000000\<rparr>"

definition bindE :: "('e + 'a) \<Rightarrow> ('a \<Rightarrow> 'e + 'b) \<Rightarrow> 'e + 'b" where
  "bindE x f = (case x of Inl e \<Rightarrow> Inl e | Inr a \<Rightarrow> f a)"

text \<open>The knobs in the order of the code; the first refusal is the result.\<close>

definition knobs :: "(bytes \<Rightarrow> bytes) \<Rightarrow> knob list" where
  "knobs getenv =
     [intKnob getenv ''MESH0_BATCH_WINDOW_MS'' (\<lambda>n. 1 \<le> n \<and> n \<le> 60000) BadBatchWindow
        (\<lambda>n c. c\<lparr>BatchWindow := millis n\<rparr>),
      intKnob getenv ''MESH0_MAX_BATCH'' (\<lambda>n. 1 \<le> n \<and> n \<le> MaxEventsPerBatch) BadMaxBatch
        (\<lambda>n c. c\<lparr>MaxBatch := n\<rparr>),
      intKnob getenv ''MESH0_MAX_EVENT_BYTES'' (\<lambda>n. MinMaxEventBytes \<le> n \<and> n \<le> MaxMaxEventBytes)
        BadMaxEventBytes (\<lambda>n c. c\<lparr>MaxEventBytes := n\<rparr>),
      intKnob getenv ''MESH0_QUEUE_SIZE'' (\<lambda>n. 1 \<le> n) BadQueueSize (\<lambda>n c. c\<lparr>QueueSize := n\<rparr>),
      intKnob getenv ''MESH0_MAX_RETRIES'' (\<lambda>n. 0 \<le> n \<and> n \<le> 16) BadMaxRetries
        (\<lambda>n c. c\<lparr>MaxRetries := n\<rparr>),
      intKnob getenv ''MESH0_SHUTDOWN_GRACE_MS'' (\<lambda>n. 0 \<le> n) BadShutdownGrace
        (\<lambda>n c. c\<lparr>ShutdownGrace := millis n\<rparr>),
      intKnob getenv ''MESH0_MAX_PROJECTS'' (\<lambda>n. 0 \<le> n \<and> n \<le> 4096) BadMaxProjects
        (\<lambda>n c. c\<lparr>MaxProjects := n\<rparr>),
      intKnob getenv ''MESH0_KEYS_POLL_MS'' (\<lambda>n. 0 \<le> n \<and> n \<le> 3600000) BadKeysPoll
        (\<lambda>n c. c\<lparr>KeysPollInterval := millis n\<rparr>),
      boolKnob getenv ''MESH0_INLINE_TOKENS'' BadInlineTokens (\<lambda>v c. c\<lparr>InlineTokens := v\<rparr>),
      intKnob getenv ''MESH0_INLINE_IDLE_MS'' (\<lambda>n. 0 \<le> n \<and> n \<le> 86400000) BadInlineIdle
        (\<lambda>n c. c\<lparr>InlineIdle := millis n\<rparr>),
      boolKnob getenv ''MESH0_REQUIRE_PROJECT'' BadRequireProject (\<lambda>v c. c\<lparr>RequireProject := v\<rparr>),
      levelKnob getenv]"

definition finalChecks :: knob where
  "finalChecks c =
     (if APIKey c = [] \<and> KeysFile c = [] \<and> \<not> InlineTokens c then Inl NoCredentialSource
      else if ListenPath c = [] then Inl ListenPathEmpty
      else if length (ListenPath c) > 103 then Inl ListenPathTooLong
      else Inr c)"

definition loadConfig :: "(bytes \<Rightarrow> bytes) \<Rightarrow> configError + Config" where
  "loadConfig getenv =
     bindE (foldl bindE (Inr (defaultConfig getenv)) (knobs getenv)) finalChecks"

section \<open>What an accepted configuration satisfies\<close>

definition ranges :: "Config \<Rightarrow> bool" where
  "ranges c \<longleftrightarrow>
     1000000 \<le> BatchWindow c \<and> BatchWindow c \<le> 60 * 1000000000 \<and>
     1 \<le> MaxBatch c \<and> MaxBatch c \<le> MaxEventsPerBatch \<and>
     MinMaxEventBytes \<le> MaxEventBytes c \<and> MaxEventBytes c \<le> MaxMaxEventBytes \<and>
     1 \<le> QueueSize c \<and> 0 \<le> MaxRetries c \<and> MaxRetries c \<le> 16 \<and>
     0 \<le> MaxProjects c \<and> MaxProjects c \<le> 4096 \<and>
     0 \<le> KeysPollInterval c \<and> KeysPollInterval c \<le> 3600 * 1000000000 \<and>
     0 \<le> InlineIdle c \<and> InlineIdle c \<le> 86400 * 1000000000"

lemma bindE_simps [simp]: "bindE (Inl e) f = Inl e" "bindE (Inr a) f = f a"
  by (simp_all add: bindE_def)

lemma bindE_Inr: "bindE x f = Inr r \<longleftrightarrow> (\<exists>a. x = Inr a \<and> f a = Inr r)"
  by (auto simp: bindE_def split: sum.splits)

lemma millis_exact: "0 \<le> n \<Longrightarrow> n \<le> 86400000 \<Longrightarrow> millis n = n * 1000000"
  unfolding millis_def int_word_sint by simp

lemma default_ranges: "ranges (defaultConfig getenv)"
  by (simp add: ranges_def defaultConfig_def MaxEventsPerBatch_def MinMaxEventBytes_def
      MaxMaxEventBytes_def DefaultMaxEventBytes_def)

text \<open>A knob keeps the ranges if its update does on every value it lets through.\<close>

lemma intKnob_ranges:
  assumes "intKnob getenv k ok err upd c = Inr c'" and "ranges c"
    and "\<And>n. ok n \<Longrightarrow> ranges (upd n c)"
  shows "ranges c'"
  using assms by (auto simp: intKnob_def Let_def split: if_split_asm option.split_asm)

lemma boolKnob_ranges:
  assumes "boolKnob getenv k err upd c = Inr c'" and "ranges c" and "\<And>v. ranges (upd v c)"
  shows "ranges c'"
  using assms by (auto simp: boolKnob_def Let_def split: if_split_asm)

lemma levelKnob_ranges: "levelKnob getenv c = Inr c' \<Longrightarrow> ranges c \<Longrightarrow> ranges c'"
  by (auto simp: levelKnob_def Let_def ranges_def split: if_split_asm)

lemma knob_ranges:
  assumes "kn \<in> set (knobs getenv)" and "kn c = Inr c'" and "ranges c"
  shows "ranges c'"
  using assms
  by (auto simp: knobs_def elim!: intKnob_ranges boolKnob_ranges levelKnob_ranges)
     (auto simp: ranges_def millis_exact)

lemma fold_knobs_ranges:
  assumes "foldl bindE (Inr c) ks = Inr c'" and "set ks \<subseteq> set (knobs getenv)" and "ranges c"
  shows "ranges c'"
  using assms
proof (induction ks arbitrary: c)
  case (Cons k ks)
  have "foldl bindE (Inl e) ks = Inl e" for e by (induction ks) simp_all
  with Cons.prems(1) obtain c1 where c1: "k c = Inr c1" and "foldl bindE (Inr c1) ks = Inr c'"
    by (cases "k c") simp_all
  then show ?case using Cons.IH knob_ranges [of k getenv c c1] Cons.prems(2,3) by simp
qed simp

section \<open>Properties\<close>


definition emptyEnv :: "bytes \<Rightarrow> bytes" where "emptyEnv k = []"

lemma loadConfig_empty: "loadConfig emptyEnv = Inr (defaultConfig emptyEnv)"
  by (simp add: loadConfig_def knobs_def intKnob_def boolKnob_def levelKnob_def emptyEnv_def
      finalChecks_def defaultConfig_def envOr_def)


text \<open>C33: \<open>shutdown_grace_can_wrap\<close>. The grace knob has no upper bound: an accepted value of a little more
  than 292 years wraps to a negative duration, which the drain reads as no grace at all.\<close>

definition graceEnv :: "bytes \<Rightarrow> bytes" where
  "graceEnv k = (if k = ''MESH0_SHUTDOWN_GRACE_MS'' then ''9223372036855'' else [])"

theorem shutdown_grace_can_wrap:
  "\<exists>c. loadConfig graceEnv = Inr c \<and> ShutdownGrace c < 0"
proof -
  have "atoi ''9223372036855'' = Some 9223372036855"
    by (simp add: atoi_def decValue_def isDigit_def)
  moreover have "millis 9223372036855 < 0"
    unfolding millis_def int_word_sint by simp
  ultimately show ?thesis
    by (simp add: loadConfig_def knobs_def intKnob_def boolKnob_def levelKnob_def graceEnv_def
        finalChecks_def defaultConfig_def envOr_def)
qed

text \<open>The limits of an accepted configuration pass
  \<open>newEventsBatcher\<close> unchanged: none of its fallbacks is ever taken.\<close>

theorem batcher_gets_the_configured_limits:
  assumes "loadConfig getenv = Inr c"
  defines "b \<equiv> newEventsBatcher (MaxBatch c) (MaxEventBytes c) (BatchWindow c)"
  shows "b_maxEvents b = MaxBatch c \<and> b_maxEventBytes b = MaxEventBytes c \<and> b_window b = BatchWindow c"
proof -
  from assms(1) obtain c0 where "foldl bindE (Inr (defaultConfig getenv)) (knobs getenv) = Inr c0"
    and f: "finalChecks c0 = Inr c" by (auto simp: loadConfig_def bindE_Inr)
  then have "ranges c0" using fold_knobs_ranges default_ranges by blast
  moreover have "c = c0" using f by (simp add: finalChecks_def split: if_split_asm)
  ultimately show ?thesis
    by (simp add: b_def newEventsBatcher_def ranges_def MinMaxEventBytes_def)
qed

theorem batcher_gets_the_configured_limits_witness:
  "b_maxEvents (newEventsBatcher (MaxBatch (defaultConfig emptyEnv)) (MaxEventBytes (defaultConfig emptyEnv))
     (BatchWindow (defaultConfig emptyEnv))) = 500"
  using batcher_gets_the_configured_limits [OF loadConfig_empty] by (simp add: defaultConfig_def)

section \<open>Reading back a printed configuration\<close>

fun showNat :: "nat \<Rightarrow> bytes" where
  "showNat n = (if n < 10 then [char_of (48 + n)] else showNat (n div 10) @ [char_of (48 + n mod 10)])"

declare showNat.simps [simp del]

definition showInt :: "int \<Rightarrow> bytes" where
  "showInt n = showNat (nat n)"

definition showBool :: "bool \<Rightarrow> bytes" where
  "showBool b = (if b then ''true'' else ''false'')"

fun showLevel :: "Level \<Rightarrow> bytes" where
  "showLevel LevelDebug = ''debug''"
| "showLevel LevelInfo = ''info''"
| "showLevel LevelWarn = ''warn''"
| "showLevel LevelError = ''error''"

text \<open>The environment that spells out a configuration; durations in whole milliseconds.\<close>

definition printEnv :: "Config \<Rightarrow> bytes \<Rightarrow> bytes" where
  "printEnv c k =
     (case map_of
        [(''MESH0_API_KEY'', APIKey c), (''MESH0_KEYS_FILE'', KeysFile c), (''MESH0_BASE_URL'', GatewayURL c),
         (''MESH0_EVENTS_PATH'', EventsPath c), (''MESH0_LISTEN_PATH'', ListenPath c),
         (''MESH0_HEALTH_ADDR'', HealthAddr c), (''MESH0_BATCH_WINDOW_MS'', showInt (BatchWindow c div 1000000)),
         (''MESH0_MAX_BATCH'', showInt (MaxBatch c)), (''MESH0_MAX_EVENT_BYTES'', showInt (MaxEventBytes c)),
         (''MESH0_QUEUE_SIZE'', showInt (QueueSize c)), (''MESH0_MAX_RETRIES'', showInt (MaxRetries c)),
         (''MESH0_SHUTDOWN_GRACE_MS'', showInt (ShutdownGrace c div 1000000)),
         (''MESH0_MAX_PROJECTS'', showInt (MaxProjects c)),
         (''MESH0_KEYS_POLL_MS'', showInt (KeysPollInterval c div 1000000)),
         (''MESH0_INLINE_TOKENS'', showBool (InlineTokens c)),
         (''MESH0_INLINE_IDLE_MS'', showInt (InlineIdle c div 1000000)),
         (''MESH0_REQUIRE_PROJECT'', showBool (RequireProject c)), (''MESH0_LOG_LEVEL'', showLevel (LogLevel c))] k
      of None \<Rightarrow> [] | Some v \<Rightarrow> v)"

definition printable :: "Config \<Rightarrow> bool" where
  "printable c \<longleftrightarrow> ranges c \<and> finalChecks c = Inr c \<and> QueueSize c < 2 ^ 63 \<and>
     0 \<le> ShutdownGrace c \<and> ShutdownGrace c < 2 ^ 63 \<and>
     list_all (\<lambda>d. d mod 1000000 = 0) [BatchWindow c, ShutdownGrace c, KeysPollInterval c, InlineIdle c] \<and>
     list_all (\<lambda>v. v \<noteq> []) [GatewayURL c, EventsPath c, HealthAddr c]"

lemma digit_val: "n < 10 \<Longrightarrow> isDigit (char_of (48 + n)) \<and> byte_val (char_of (48 + n)) = 48 + n"
  by (simp add: isDigit_def)

lemma decValue_snoc: "decValue (ds @ [d]) = decValue ds * 10 + (int (byte_val d) - 48)"
  by (simp add: decValue_def)

lemma showNat_props: "showNat n \<noteq> [] \<and> list_all isDigit (showNat n) \<and> decValue (showNat n) = int n"
proof (induction n rule: showNat.induct)
  case (1 n)
  show ?case
  proof (cases "n < 10")
    case True
    then show ?thesis using digit_val [OF True] by (simp add: showNat.simps [of n] decValue_def)
  next
    case False
    have "int (n div 10) * 10 + int (n mod 10) = int n" by presburger
    then show ?thesis using 1 False digit_val [of "n mod 10"]
      by (simp add: showNat.simps [of n] decValue_snoc)
  qed
qed

lemma atoi_showInt:
  assumes "0 \<le> n" and "n < 2 ^ 63"
  shows "atoi (showInt n) = Some n" and "showInt n \<noteq> []"
proof -
  note p = showNat_props [of "nat n"]
  then show "showInt n \<noteq> []" by (simp add: showInt_def)
  have "isDigit (hd (showNat (nat n)))" using p by (cases "showNat (nat n)") simp_all
  then have "hd (showNat (nat n)) \<noteq> CHR ''-''" "hd (showNat (nat n)) \<noteq> CHR ''+''" by (auto simp: isDigit_def)
  then show "atoi (showInt n) = Some n" using p assms by (simp add: atoi_def showInt_def Let_def)
qed

lemma printEnv_simps:
  "printEnv c ''MESH0_API_KEY'' = APIKey c" "printEnv c ''MESH0_KEYS_FILE'' = KeysFile c"
  "printEnv c ''MESH0_BASE_URL'' = GatewayURL c" "printEnv c ''MESH0_EVENTS_PATH'' = EventsPath c"
  "printEnv c ''MESH0_LISTEN_PATH'' = ListenPath c" "printEnv c ''MESH0_HEALTH_ADDR'' = HealthAddr c"
  "printEnv c ''MESH0_BATCH_WINDOW_MS'' = showInt (BatchWindow c div 1000000)"
  "printEnv c ''MESH0_MAX_BATCH'' = showInt (MaxBatch c)"
  "printEnv c ''MESH0_MAX_EVENT_BYTES'' = showInt (MaxEventBytes c)"
  "printEnv c ''MESH0_QUEUE_SIZE'' = showInt (QueueSize c)" "printEnv c ''MESH0_MAX_RETRIES'' = showInt (MaxRetries c)"
  "printEnv c ''MESH0_SHUTDOWN_GRACE_MS'' = showInt (ShutdownGrace c div 1000000)"
  "printEnv c ''MESH0_MAX_PROJECTS'' = showInt (MaxProjects c)"
  "printEnv c ''MESH0_KEYS_POLL_MS'' = showInt (KeysPollInterval c div 1000000)"
  "printEnv c ''MESH0_INLINE_TOKENS'' = showBool (InlineTokens c)"
  "printEnv c ''MESH0_INLINE_IDLE_MS'' = showInt (InlineIdle c div 1000000)"
  "printEnv c ''MESH0_REQUIRE_PROJECT'' = showBool (RequireProject c)"
  "printEnv c ''MESH0_LOG_LEVEL'' = showLevel (LogLevel c)"
  by (simp_all add: printEnv_def)

lemma intKnob_read:
  "getenv k = showInt n \<Longrightarrow> 0 \<le> n \<Longrightarrow> n < 2 ^ 63 \<Longrightarrow> ok n \<Longrightarrow> intKnob getenv k ok err upd c = Inr (upd n c)"
  by (simp add: intKnob_def atoi_showInt)

lemma boolKnob_read: "getenv k = showBool b \<Longrightarrow> boolKnob getenv k err upd c = Inr (upd b c)"
  by (simp add: boolKnob_def showBool_def)

lemma levelKnob_read: "getenv ''MESH0_LOG_LEVEL'' = showLevel l \<Longrightarrow> levelKnob getenv c = Inr (c\<lparr>LogLevel := l\<rparr>)"
  by (cases l) (simp_all add: levelKnob_def)

lemma millis_read: "0 \<le> d \<Longrightarrow> d < 2 ^ 63 \<Longrightarrow> d mod 1000000 = 0 \<Longrightarrow> millis (d div 1000000) = d"
proof -
  assume d: "0 \<le> d" "d < 2 ^ 63" "d mod 1000000 = 0"
  then have "d div 1000000 * 1000000 = d" by (intro dvd_div_mult_self) (simp add: mod_0_imp_dvd)
  then have "millis (d div 1000000) = sint (word_of_int d :: 64 word)" by (simp add: millis_def)
  also have "\<dots> = (d + 2 ^ 63) mod 2 ^ 64 - 2 ^ 63" by (simp add: int_word_sint)
  also have "\<dots> = d" using d by simp
  finally show ?thesis .
qed

lemma power_63: "(2 :: int) ^ 63 = 9223372036854775808"
  by simp

lemma fold_step: "k x = Inr y \<Longrightarrow> foldl bindE (Inr y) ks = Inr z \<Longrightarrow> foldl bindE (Inr x) (k # ks) = Inr z"
  by simp

lemma knobs_read:
  assumes "printable c"
  shows "foldl bindE (Inr c0) (knobs (printEnv c)) =
    Inr (c0\<lparr>BatchWindow := BatchWindow c, MaxBatch := MaxBatch c, MaxEventBytes := MaxEventBytes c, QueueSize := QueueSize c,
      MaxRetries := MaxRetries c, ShutdownGrace := ShutdownGrace c, MaxProjects := MaxProjects c,
      KeysPollInterval := KeysPollInterval c, InlineTokens := InlineTokens c, InlineIdle := InlineIdle c,
      RequireProject := RequireProject c, LogLevel := LogLevel c\<rparr>)"
proof -
  have r: "ranges c" and d: "BatchWindow c mod 1000000 = 0" "ShutdownGrace c mod 1000000 = 0"
    "KeysPollInterval c mod 1000000 = 0" "InlineIdle c mod 1000000 = 0"
    and q: "QueueSize c < 2 ^ 63" "0 \<le> ShutdownGrace c" "ShutdownGrace c < 2 ^ 63"
    using assms by (simp_all add: printable_def)
  note ranges = r [unfolded ranges_def]
  then have rr: "1 \<le> MaxBatch c" "MaxBatch c \<le> MaxEventsPerBatch" "MinMaxEventBytes \<le> MaxEventBytes c"
    "MaxEventBytes c \<le> MaxMaxEventBytes" "1 \<le> QueueSize c" "0 \<le> MaxRetries c" "MaxRetries c \<le> 16"
    "0 \<le> MaxProjects c" "MaxProjects c \<le> 4096" "0 \<le> KeysPollInterval c" "0 \<le> InlineIdle c" by simp_all
  have "1 \<le> BatchWindow c div 1000000" "BatchWindow c div 1000000 \<le> 60000" "KeysPollInterval c div 1000000 \<le> 3600000"
    "InlineIdle c div 1000000 \<le> 86400000" "0 \<le> ShutdownGrace c div 1000000" "ShutdownGrace c div 1000000 < 2 ^ 63"
    "0 \<le> KeysPollInterval c div 1000000" "0 \<le> InlineIdle c div 1000000"
    using ranges q d by linarith+
  note k = this
  have m: "millis (BatchWindow c div 1000000) = BatchWindow c" "millis (ShutdownGrace c div 1000000) = ShutdownGrace c"
    "millis (KeysPollInterval c div 1000000) = KeysPollInterval c" "millis (InlineIdle c div 1000000) = InlineIdle c"
    using ranges q d by (simp_all add: millis_read)
  have b: "BatchWindow c div 1000000 < 2 ^ 63" "KeysPollInterval c div 1000000 < 2 ^ 63" "InlineIdle c div 1000000 < 2 ^ 63"
    "MaxBatch c < 2 ^ 63" "MaxEventBytes c < 2 ^ 63" "MaxRetries c < 2 ^ 63" "MaxProjects c < 2 ^ 63"
    "0 \<le> BatchWindow c div 1000000" "0 \<le> MaxBatch c" "0 \<le> MaxEventBytes c" "0 \<le> QueueSize c"
    using ranges k power_63 unfolding MaxEventsPerBatch_def MinMaxEventBytes_def MaxMaxEventBytes_def by linarith+
  note z = b [unfolded power_63] k [unfolded power_63] q [unfolded power_63] rr
  show ?thesis
    unfolding knobs_def
    by ((rule fold_step,
          (rule intKnob_read, rule printEnv_simps, simp add: z, simp add: z, simp add: z) |
          (rule fold_step, (rule boolKnob_read levelKnob_read), rule printEnv_simps))+,
        simp add: m)
qed

text \<open>C29: \<open>config_round_trip\<close>. Every configuration within the documented ranges, its durations in whole
  milliseconds, can be written as environment variables, and \<open>loadConfig\<close> reads exactly it back.\<close>

theorem config_round_trip:
  assumes "printable c"
  shows "loadConfig (printEnv c) = Inr c"
proof -
  have "GatewayURL c \<noteq> []" "EventsPath c \<noteq> []" "HealthAddr c \<noteq> []" "finalChecks c = Inr c"
    using assms by (simp_all add: printable_def)
  moreover from this(4) have "ListenPath c \<noteq> []" by (auto simp: finalChecks_def split: if_split_asm)
  ultimately have "(defaultConfig (printEnv c))\<lparr>BatchWindow := BatchWindow c, MaxBatch := MaxBatch c,
      MaxEventBytes := MaxEventBytes c, QueueSize := QueueSize c, MaxRetries := MaxRetries c,
      ShutdownGrace := ShutdownGrace c, MaxProjects := MaxProjects c, KeysPollInterval := KeysPollInterval c,
      InlineTokens := InlineTokens c, InlineIdle := InlineIdle c, RequireProject := RequireProject c,
      LogLevel := LogLevel c\<rparr> = c"
    by (intro Config.equality) (simp_all add: defaultConfig_def printEnv_simps envOr_def)
  then show ?thesis using \<open>finalChecks c = Inr c\<close> by (simp add: loadConfig_def knobs_read [OF assms])
qed

definition plainConfig :: Config where
  "plainConfig = (defaultConfig emptyEnv)\<lparr>APIKey := ''k'', MaxBatch := 17, LogLevel := LevelWarn\<rparr>"

theorem config_round_trip_witness: "loadConfig (printEnv plainConfig) = Inr plainConfig"
  by (rule config_round_trip)
     (simp add: printable_def ranges_def finalChecks_def plainConfig_def defaultConfig_def emptyEnv_def envOr_def
       MaxEventsPerBatch_def MinMaxEventBytes_def MaxMaxEventBytes_def DefaultMaxEventBytes_def)

end
