(* ===== verification/Flusher.thy ===== *)
theory Flusher
  imports Batcher Config
begin

text \<open>
  \<open>src/flusher.go\<close>: one POST and how its outcome is classified, the retry loop with its backoff, and the
  accounting of a batch. What the network does is an argument: for each attempt, whether the context
  is cancelled while waiting before it, and what the request comes to. The jitter only scales the
  waiting time and has no effect on the outcome; it is not modelled.
\<close>

section \<open>One POST\<close>

text \<open>\<open>RequestErr\<close>: the request cannot be built. \<open>DoErr c\<close>: the client fails, \<open>c\<close> when the error is
  \<open>context.Canceled\<close>. \<open>Response s\<close>: the gateway answers with status \<open>s\<close>.\<close>

datatype httpOutcome = RequestErr | DoErr bool | Response int

datatype postErr = PostOK | PostCanceled | PostRetryable | PostFatal

definition postJSON :: "httpOutcome \<Rightarrow> postErr" where
  "postJSON h =
     (case h of
        RequestErr \<Rightarrow> PostFatal
      | DoErr canceled \<Rightarrow> if canceled then PostCanceled else PostRetryable
      | Response status \<Rightarrow>
          if status \<ge> 200 \<and> status < 300 then PostOK
          else if status \<ge> 500 \<or> status = 408 \<or> status = 429 then PostRetryable
          else PostFatal)"

definition isRetryable :: "postErr \<Rightarrow> bool" where
  "isRetryable e \<longleftrightarrow> e = PostRetryable"

section \<open>The flusher\<close>

record flusher =
  f_url :: bytes
  f_apiKey :: bytes
  f_maxRetries :: int

definition newEventsFlusherWithKey :: "Config \<Rightarrow> bytes \<Rightarrow> flusher" where
  "newEventsFlusherWithKey cfg apiKey =
     \<lparr>f_url = GatewayURL cfg @ EventsPath cfg, f_apiKey = apiKey, f_maxRetries = MaxRetries cfg\<rparr>"

definition newEventsFlusher :: "Config \<Rightarrow> flusher" where
  "newEventsFlusher cfg = newEventsFlusherWithKey cfg (APIKey cfg)"

definition baseBackoff :: "64 word" where "baseBackoff = 250 * 1000000"
definition maxBackoff :: "64 word" where "maxBackoff = 5 * 1000000000"

text \<open>The wait before attempt \<open>a > 0\<close>, before jitter, in nanoseconds; a shift of an \<open>int64\<close>.\<close>

definition backoff :: "nat \<Rightarrow> 64 word" where
  "backoff a = (let d = push_bit (a - 1) baseBackoff in if sint d > sint maxBackoff then maxBackoff else d)"

datatype sendResult = SentOK | Cancelled | FlushFailed

text \<open>The loop, from attempt \<open>a\<close>; with the attempts that reached \<open>postJSON\<close>.\<close>

function sendLoop :: "int \<Rightarrow> (nat \<Rightarrow> bool) \<Rightarrow> (nat \<Rightarrow> httpOutcome) \<Rightarrow> nat \<Rightarrow> sendResult \<times> nat list" where
  "sendLoop maxRetries waitCancelled http a =
     (if int a \<le> maxRetries then
        (if a > 0 \<and> waitCancelled a then (Cancelled, [])
         else
           (case postJSON (http a) of
              PostOK \<Rightarrow> (SentOK, [a])
            | PostCanceled \<Rightarrow> (Cancelled, [a])
            | PostFatal \<Rightarrow> (FlushFailed, [a])
            | PostRetryable \<Rightarrow>
                (case sendLoop maxRetries waitCancelled http (a + 1) of (r, as) \<Rightarrow> (r, a # as))))
      else (FlushFailed, []))"
  by pat_completeness auto
termination by (relation "measure (\<lambda>(m, w, h, a). nat (m + 1 - int a))") auto

declare sendLoop.simps [simp del]

record request =
  r_url :: bytes
  r_key :: bytes
  r_body :: bytes

definition bumpSent :: "nat \<Rightarrow> int \<Rightarrow> selfStats \<times> pipelineStats option \<Rightarrow> selfStats \<times> pipelineStats option" where
  "bumpSent n now x =
     (case x of (s, p) \<Rightarrow>
       (s\<lparr>s_BatchesSent := s_BatchesSent s + 1, s_EventsSent := s_EventsSent s + of_nat n,
          s_LastEventFlushMs := now\<rparr>,
        map_option (\<lambda>p. p\<lparr>p_BatchesSent := p_BatchesSent p + 1,
          p_EventsSent := p_EventsSent p + of_nat n, p_LastEventFlushMs := now\<rparr>) p))"

definition bumpFlushShutdown :: "nat \<Rightarrow> selfStats \<times> pipelineStats option \<Rightarrow> selfStats \<times> pipelineStats option" where
  "bumpFlushShutdown n x =
     (case x of (s, p) \<Rightarrow>
       (s\<lparr>s_DropsShutdown := s_DropsShutdown s + of_nat n\<rparr>,
        map_option (\<lambda>p. p\<lparr>p_DropsShutdown := p_DropsShutdown p + of_nat n\<rparr>) p))"

definition bumpFlushFailed :: "nat \<Rightarrow> selfStats \<times> pipelineStats option \<Rightarrow> selfStats \<times> pipelineStats option" where
  "bumpFlushFailed n x =
     (case x of (s, p) \<Rightarrow>
       (s\<lparr>s_DropsFlushFailed := s_DropsFlushFailed s + of_nat n\<rparr>,
        map_option (\<lambda>p. p\<lparr>p_DropsFlushFailed := p_DropsFlushFailed p + of_nat n\<rparr>) p))"

text \<open>\<open>send\<close>: the requests made, in order, and the counters afterwards.\<close>

definition send ::
  "flusher \<Rightarrow> (nat \<Rightarrow> bool) \<Rightarrow> (nat \<Rightarrow> httpOutcome) \<Rightarrow> int \<Rightarrow> EventBatch
     \<Rightarrow> selfStats \<times> pipelineStats option \<Rightarrow> request list \<times> (selfStats \<times> pipelineStats option)" where
  "send f waitCancelled http now batch x =
     (let body = encodeEventBatch batch;
          key = (if Token batch \<noteq> [] then Token batch else f_apiKey f);
          n = length (Events batch)
      in case sendLoop (f_maxRetries f) waitCancelled http 0 of
        (r, as) \<Rightarrow>
          (map (\<lambda>a. \<lparr>r_url = f_url f, r_key = key, r_body = body\<rparr>) as,
           case r of
             SentOK \<Rightarrow> bumpSent n now x
           | Cancelled \<Rightarrow> bumpFlushShutdown n x
           | FlushFailed \<Rightarrow> bumpFlushFailed n x))"

section \<open>The loop\<close>

lemma sendLoop_attempts:
  "sendLoop mr w h a = (r, as) \<Longrightarrow> int a \<le> mr + 1 \<Longrightarrow>
   (\<exists>n. as = [a ..< a + n] \<and> int (a + n) \<le> mr + 1 \<and>
     (\<forall>k \<in> {a ..< a + n}. k + 1 < a + n \<longrightarrow> postJSON (h k) = PostRetryable) \<and>
     (r = SentOK \<longrightarrow> 0 < n \<and> postJSON (h (a + n - 1)) = PostOK) \<and>
     (r = FlushFailed \<longrightarrow> int (a + n) = mr + 1 \<or> (0 < n \<and> postJSON (h (a + n - 1)) = PostFatal)) \<and>
     (r = Cancelled \<longrightarrow> 0 < a + n \<and> (w (a + n) \<or> 0 < n \<and> postJSON (h (a + n - 1)) = PostCanceled)))"
proof (induction mr w h a arbitrary: r as rule: sendLoop.induct)
  case (1 mr w h a)
  show ?case
  proof (cases "int a \<le> mr \<and> \<not> (a > 0 \<and> w a) \<and> postJSON (h a) = PostRetryable")
    case True
    obtain r' as' where rec: "sendLoop mr w h (a + 1) = (r', as')" by force
    have e: "r = r'" "as = a # as'"
      using "1.prems"(1) True rec by (subst (asm) sendLoop.simps; simp)+
    obtain n where n: "as' = [a + 1 ..< a + 1 + n]" "int (a + 1 + n) \<le> mr + 1"
      "\<forall>k \<in> {a + 1 ..< a + 1 + n}. k + 1 < a + 1 + n \<longrightarrow> postJSON (h k) = PostRetryable"
      "r' = SentOK \<longrightarrow> 0 < n \<and> postJSON (h (a + 1 + n - 1)) = PostOK"
      "r' = FlushFailed \<longrightarrow> int (a + 1 + n) = mr + 1 \<or> (0 < n \<and> postJSON (h (a + 1 + n - 1)) = PostFatal)"
      "r' = Cancelled \<longrightarrow> 0 < a + 1 + n \<and> (w (a + 1 + n) \<or> 0 < n \<and> postJSON (h (a + 1 + n - 1)) = PostCanceled)"
      using "1.IH" [OF _ _ _ rec] True by auto
    show ?thesis
    proof (intro exI [of _ "Suc n"] conjI)
      show "as = [a ..< a + Suc n]" using e n(1) by (simp add: upt_conv_Cons)
      show "\<forall>k \<in> {a ..< a + Suc n}. k + 1 < a + Suc n \<longrightarrow> postJSON (h k) = PostRetryable"
      proof
        fix k
        assume k: "k \<in> {a ..< a + Suc n}"
        then show "k + 1 < a + Suc n \<longrightarrow> postJSON (h k) = PostRetryable"
          using True n(3) by (cases "k = a") auto
      qed
    qed (use n e True in auto)
  next
    case False
    then show ?thesis using "1.prems"
      by (subst (asm) sendLoop.simps)
         (auto split: if_split_asm postErr.split_asm
           intro: exI [of _ 0] exI [of _ 1] simp: upt_conv_Cons)
  qed
qed

lemma sendLoop_success:
  "fst (sendLoop mr w h a) = SentOK \<longleftrightarrow>
     (\<exists>k \<ge> a. int k \<le> mr \<and> postJSON (h k) = PostOK \<and>
        (\<forall>j \<in> {a ..< k}. postJSON (h j) = PostRetryable) \<and> (\<forall>j \<in> {a..k}. 0 < j \<longrightarrow> \<not> w j))"
proof (induction "nat (mr + 1 - int a)" arbitrary: a rule: less_induct)
  case less
  let ?P = "\<lambda>a k. int k \<le> mr \<and> postJSON (h k) = PostOK \<and>
      (\<forall>j \<in> {a ..< k}. postJSON (h j) = PostRetryable) \<and> (\<forall>j \<in> {a..k}. 0 < j \<longrightarrow> \<not> w j)"
  show ?case
  proof (cases "int a \<le> mr \<and> \<not> (0 < a \<and> w a) \<and> postJSON (h a) = PostRetryable")
    case True
    have "fst (sendLoop mr w h a) = fst (sendLoop mr w h (a + 1))"
      using True by (subst sendLoop.simps) (auto split: prod.split)
    also have "\<dots> = SentOK \<longleftrightarrow> (\<exists>k \<ge> a + 1. ?P (a + 1) k)"
      using True by (intro less.hyps) auto
    also have "\<dots> \<longleftrightarrow> (\<exists>k \<ge> a. ?P a k)"
    proof
      assume "\<exists>k \<ge> a + 1. ?P (a + 1) k"
      then obtain k where "k \<ge> a + 1" "?P (a + 1) k" by blast
      moreover from this have "{a ..< k} = insert a {a + 1 ..< k}" "{a..k} = insert a {a + 1..k}" by auto
      ultimately have "?P a k" using True by auto
      then show "\<exists>k \<ge> a. ?P a k" using \<open>k \<ge> a + 1\<close> by (intro exI [of _ k]) simp
    next
      assume "\<exists>k \<ge> a. ?P a k"
      then obtain k where k: "k \<ge> a" "?P a k" by blast
      then have "k \<noteq> a" using True by auto
      then show "\<exists>k \<ge> a + 1. ?P (a + 1) k" using k by (intro exI [of _ k]) auto
    qed
    finally show ?thesis .
  next
    case False
    have "?P a k \<Longrightarrow> k \<ge> a \<Longrightarrow> k = a" for k
      using False by (cases "k = a") auto
    then have r: "(\<exists>k \<ge> a. ?P a k) \<longleftrightarrow> ?P a a" by blast
    have "fst (sendLoop mr w h a) = SentOK \<longleftrightarrow> ?P a a"
      using False by (subst sendLoop.simps) (auto split: postErr.split)
    then show ?thesis using r by blast
  qed
qed

section \<open>Properties\<close>

lemma send_requests:
  "fst (send f w h now batch x) =
     replicate (length (snd (sendLoop (f_maxRetries f) w h 0)))
       \<lparr>r_url = f_url f, r_key = (if Token batch \<noteq> [] then Token batch else f_apiKey f),
        r_body = encodeEventBatch batch\<rparr>"
  by (simp add: send_def Let_def case_prod_unfold map_replicate_const)

text \<open>C25: \<open>attempts_bounded_and_same_request\<close>. A batch is posted at most once more than the configured
  number of retries, every time with the same body and the credential of the batch itself when it
  has one, and every post but the last ended in a retryable failure.\<close>

theorem attempts_bounded_and_same_request:
  assumes "0 \<le> f_maxRetries f"
  defines "rs \<equiv> \<lambda>w h now batch x. fst (send f w h now batch x)"
  shows "int (length (rs w h now batch x)) \<le> 1 + f_maxRetries f \<and>
    (\<forall>r \<in> set (rs w h now batch x). r_url r = f_url f \<and> r_body r = encodeEventBatch batch \<and>
       r_key r = (if Token batch \<noteq> [] then Token batch else f_apiKey f)) \<and>
    (\<forall>k. k + 1 < length (rs w h now batch x) \<longrightarrow> postJSON (h k) = PostRetryable)"
proof -
  obtain r as where l: "sendLoop (f_maxRetries f) w h 0 = (r, as)" by force
  obtain n where "as = [0 ..< n]" "int n \<le> f_maxRetries f + 1"
    "\<forall>k \<in> {0 ..< n}. k + 1 < n \<longrightarrow> postJSON (h k) = PostRetryable"
    using sendLoop_attempts [OF l] assms(1) by auto
  then show ?thesis unfolding rs_def send_requests l by auto
qed

definition sampleFlusher :: flusher where
  "sampleFlusher = newEventsFlusherWithKey (defaultConfig emptyEnv) ''key''"

theorem attempts_bounded_and_same_request_witness:
  "length (fst (send sampleFlusher (\<lambda>_. False) (\<lambda>_. Response 503) 0
     \<lparr>Events = [''{}''], StartedAt = 0, Token = []\<rparr> (newSelfStats 0, None))) \<le> 5"
proof -
  have "f_maxRetries sampleFlusher = 4"
    by (simp add: sampleFlusher_def newEventsFlusherWithKey_def defaultConfig_def)
  then show ?thesis
    using attempts_bounded_and_same_request [of sampleFlusher "\<lambda>_. False" "\<lambda>_. Response 503" 0
        "\<lparr>Events = [''{}''], StartedAt = 0, Token = []\<rparr>" "(newSelfStats 0, None)"] by simp
qed





text \<open>A 4xx other than 408 and 429 (and any other status that is
  neither 2xx nor 5xx) ends the batch after a single post.\<close>

theorem permanent_failure_is_not_retried:
  assumes "h 0 = Response status" and "status < 500" and "status \<noteq> 408" and "status \<noteq> 429"
    and "\<not> (200 \<le> status \<and> status < 300)" and "0 \<le> f_maxRetries f"
  shows "length (fst (send f w h now batch x)) = 1 \<and>
    snd (send f w h now batch x) = bumpFlushFailed (length (Events batch)) x"
proof -
  have "sendLoop (f_maxRetries f) w h 0 = (FlushFailed, [0])"
    using assms by (subst sendLoop.simps) (auto simp: postJSON_def)
  then show ?thesis by (simp add: send_def Let_def)
qed

theorem permanent_failure_is_not_retried_witness:
  "length (fst (send sampleFlusher (\<lambda>_. False) (\<lambda>_. Response 401) 0
     \<lparr>Events = [''{}''], StartedAt = 0, Token = []\<rparr> (newSelfStats 0, None))) = 1"
  using permanent_failure_is_not_retried [of "\<lambda>_. Response 401" 401 sampleFlusher]
  by (simp add: sampleFlusher_def newEventsFlusherWithKey_def defaultConfig_def)

text \<open>For every attempt a valid configuration allows, the 64-bit
  shift does not wrap and the wait before jitter is 250 ms doubled per attempt, capped at 5 s.\<close>

theorem backoff_doubles_up_to_the_cap:
  assumes "1 \<le> a" and "a \<le> 16"
  shows "uint (backoff a) = min (250 * 1000000 * 2 ^ (a - 1)) (5 * 1000000000)"
proof -
  have "a = 1 \<or> a = 2 \<or> a = 3 \<or> a = 4 \<or> a = 5 \<or> a = 6 \<or> a = 7 \<or> a = 8 \<or> a = 9 \<or> a = 10 \<or>
      a = 11 \<or> a = 12 \<or> a = 13 \<or> a = 14 \<or> a = 15 \<or> a = 16"
    using assms by presburger
  then show ?thesis
    by (auto simp: backoff_def baseBackoff_def maxBackoff_def Let_def push_bit_eq_mult)
qed

theorem backoff_doubles_up_to_the_cap_witness: "uint (backoff 3) = 1000000000"
  using backoff_doubles_up_to_the_cap [of 3] by simp

end
