(* ===== verification/Keys.thy ===== *)
theory Keys
  imports Events
begin

text \<open>
  The keys file (\<open>src/routing.go\<close>: \<open>loadKeysFile\<close>, \<open>openKeysFile\<close>). What the operating system
  answers (opening without following a link, resolving links, the file's mode and content) is the
  argument \<open>os\<close>; the lexical path functions of \<open>path/filepath\<close> and the decoding of a
  \<open>map[string]string\<close> are written out.
\<close>

unbundle bit_operations_syntax

section \<open>Lexical paths\<close>

text \<open>A cleaned path: whether it is rooted, and its elements.\<close>

type_synonym cpath = "bool \<times> bytes list"

fun splitSlash :: "bytes \<Rightarrow> bytes list" where
  "splitSlash [] = [[]]"
| "splitSlash (c # cs) =
     (if c = CHR ''/'' then [] # splitSlash cs
      else (case splitSlash cs of [] \<Rightarrow> [[c]] | w # es \<Rightarrow> (c # w) # es))"

text \<open>\<open>filepath.Clean\<close> on the elements: empty elements and \<open>.\<close> go, \<open>..\<close> takes back the element before
  it, goes at a root and stays where there is nothing to take back.\<close>

fun cleanElems :: "bool \<Rightarrow> bytes list \<Rightarrow> bytes list \<Rightarrow> bytes list" where
  "cleanElems r out [] = out"
| "cleanElems r out (w # es) =
     (if w = [] \<or> w = ''.'' then cleanElems r out es
      else if w = ''..'' then
        (if out \<noteq> [] \<and> last out \<noteq> ''..'' then cleanElems r (butlast out) es
         else if r then cleanElems r out es
         else cleanElems r (out @ [w]) es)
      else cleanElems r (out @ [w]) es)"

definition cleanPath :: "bytes \<Rightarrow> cpath" where
  "cleanPath p =
     (let r = (p \<noteq> [] \<and> hd p = CHR ''/'') in (r, cleanElems r [] (splitSlash p)))"

fun joinSlash :: "bytes list \<Rightarrow> bytes" where
  "joinSlash [] = []"
| "joinSlash [w] = w"
| "joinSlash (w # es) = w @ ''/'' @ joinSlash es"

definition showPath :: "cpath \<Rightarrow> bytes" where
  "showPath p =
     (case p of (r, es) \<Rightarrow>
       if r then CHR ''/'' # joinSlash es else if es = [] then ''.'' else joinSlash es)"

definition filepathDir :: "bytes \<Rightarrow> bytes" where
  "filepathDir p = showPath (cleanPath (rev (dropWhile (\<lambda>c. c \<noteq> CHR ''/'') (rev p))))"

fun stripCommon :: "bytes list \<Rightarrow> bytes list \<Rightarrow> bytes list \<times> bytes list" where
  "stripCommon (b # bs) (t # ts) = (if b = t then stripCommon bs ts else (b # bs, t # ts))"
| "stripCommon bs ts = (bs, ts)"

definition filepathRel :: "bytes \<Rightarrow> bytes \<Rightarrow> bytes option" where
  "filepathRel basepath targpath =
     (let (rb, cb) = cleanPath basepath; (rt, ct) = cleanPath targpath in
      if (rb, cb) = (rt, ct) then Some ''.''
      else if rb \<noteq> rt then None
      else
        (let (bs, ts) = stripCommon cb (if \<not> rt \<and> ct = [] then [''.''] else ct) in
         if bs \<noteq> [] \<and> ts \<noteq> [] \<and> hd bs = ''..'' then None
         else Some (joinSlash (replicate (length bs) ''..'' @ ts))))"

section \<open>Opening the file\<close>

record openFile =
  fstat :: "(bool \<times> 32 word) option"
  fdata :: "bytes option"

datatype openResult = Opened openFile | ELOOP | OpenFailed

record osView =
  openNoFollow :: "bytes \<Rightarrow> openResult"
  evalSymlinks :: "bytes \<Rightarrow> bytes option"

datatype keysError =
    CannotOpen | EvalFailed | OutsideDirectory | StatFailed | NotRegular | WorldWritable | ReadFailed
  | TooLarge | BadJSON | EmptyName | ReservedName | EmptyKey

definition escapes :: "bytes \<Rightarrow> bool" where
  "escapes rel \<longleftrightarrow> rel = ''..'' \<or> take 3 rel = ''../''"

definition openKeysFile :: "osView \<Rightarrow> bytes \<Rightarrow> keysError + openFile" where
  "openKeysFile os path =
     (case openNoFollow os path of
        Opened f \<Rightarrow> Inr f
      | OpenFailed \<Rightarrow> Inl CannotOpen
      | ELOOP \<Rightarrow>
          (case evalSymlinks os (filepathDir path) of
             None \<Rightarrow> Inl EvalFailed
           | Some base \<Rightarrow>
               (case evalSymlinks os path of
                  None \<Rightarrow> Inl EvalFailed
                | Some resolved \<Rightarrow>
                    (case filepathRel base resolved of
                       None \<Rightarrow> Inl OutsideDirectory
                     | Some rel \<Rightarrow>
                         if escapes rel then Inl OutsideDirectory
                         else (case openNoFollow os resolved of
                             Opened f \<Rightarrow> Inr f | _ \<Rightarrow> Inl CannotOpen)))))"

section \<open>Reading and checking it\<close>

definition keysFileMaxBytes :: nat where "keysFileMaxBytes = 2 ^ 20"

text \<open>An element of a \<open>map[string]string\<close>: a string, or \<open>null\<close>, which leaves the zero value; any other
  value is a type error.\<close>

definition decodeElem :: "bytes \<times> bytes \<Rightarrow> (bytes \<times> bytes) option" where
  "decodeElem m =
     (case m of (k, v) \<Rightarrow>
       (case unquote_body k of
          None \<Rightarrow> None
        | Some name \<Rightarrow>
            if v \<noteq> [] \<and> hd v = dquote then map_option (Pair name) (json_unmarshal_string v)
            else if v \<noteq> [] \<and> hd v = CHR ''n'' then Some (name, [])
            else None))"

fun decodeElems :: "(bytes \<times> bytes) list \<Rightarrow> (bytes \<times> bytes) list \<Rightarrow> (bytes \<times> bytes) list option" where
  "decodeElems raw [] = Some raw"
| "decodeElems raw (m # ms) =
     (case decodeElem m of
        None \<Rightarrow> None
      | Some (name, ak) \<Rightarrow> decodeElems (AList.update name ak raw) ms)"

text \<open>\<open>dec.Decode(&raw)\<close>: the first value of the stream; what follows it is not looked at.\<close>

definition decodeKeys :: "bytes \<Rightarrow> (bytes \<times> bytes) list option" where
  "decodeKeys b =
     (case readValue (BeginValue, []) b of
        None \<Rightarrow> None
      | Some n \<Rightarrow>
          (let v = skip (take n b) in
           if v \<noteq> [] \<and> hd v = CHR ''n'' then Some []
           else (case object_members v of
               None \<Rightarrow> None
             | Some ms \<Rightarrow> decodeElems [] ms)))"

fun checkKeys :: "(bytes \<times> bytes) list \<Rightarrow> keysError option" where
  "checkKeys [] = None"
| "checkKeys ((name, ak) # ks) =
     (if name = [] then Some EmptyName
      else if name ! 0 = CHR ''_'' then Some ReservedName
      else if ak = [] then Some EmptyKey
      else checkKeys ks)"

definition loadKeysFile :: "osView \<Rightarrow> bytes \<Rightarrow> keysError + (bytes \<times> bytes) list" where
  "loadKeysFile os path =
     (case openKeysFile os path of
        Inl e \<Rightarrow> Inl e
      | Inr f \<Rightarrow>
          (case fstat f of
             None \<Rightarrow> Inl StatFailed
           | Some (regular, perm) \<Rightarrow>
               if \<not> regular then Inl NotRegular
               else if perm AND 2 \<noteq> 0 then Inl WorldWritable
               else (case fdata f of
                   None \<Rightarrow> Inl ReadFailed
                 | Some d \<Rightarrow>
                     (let b = take (keysFileMaxBytes + 1) d in
                      if length b > keysFileMaxBytes then Inl TooLarge
                      else (case decodeKeys b of
                          None \<Rightarrow> Inl BadJSON
                        | Some raw \<Rightarrow>
                            (case checkKeys raw of
                               Some e \<Rightarrow> Inl e
                             | None \<Rightarrow> Inr raw))))))"

section \<open>Where the file can be\<close>

definition within :: "bytes \<Rightarrow> bytes \<Rightarrow> bool" where
  "within base p \<longleftrightarrow> fst (cleanPath p) = fst (cleanPath base) \<and>
     (\<exists>rest. snd (cleanPath p) = snd (cleanPath base) @ rest \<and> take 1 rest \<noteq> [''..''])"

lemma stripCommon_split:
  "stripCommon bs ts = (bs', ts') \<Longrightarrow> \<exists>c. bs = c @ bs' \<and> ts = c @ ts'"
proof (induction bs ts rule: stripCommon.induct)
  case (1 b bs t ts)
  then show ?case
    by (cases "b = t") (auto intro: exI [of _ "b # c" for c])
qed auto

lemma cleanElems_no_dot: "''.'' \<notin> set out \<Longrightarrow> ''.'' \<notin> set (cleanElems r out es)"
proof (induction r out es rule: cleanElems.induct)
  case (2 r out w es)
  moreover from this have "''.'' \<notin> set (butlast out)" by (auto dest: in_set_butlastD)
  ultimately show ?case by auto
qed simp

lemma joinSlash_dotdot: "escapes (joinSlash (''..'' # es))"
  by (cases es) (simp_all add: escapes_def)

lemma rel_within:
  assumes "filepathRel base p = Some rel" and "\<not> escapes rel"
  shows "within base p"
proof (cases "cleanPath base = cleanPath p")
  case True
  then show ?thesis by (simp add: within_def)
next
  case False
  obtain rb cb rt ct where c: "cleanPath base = (rb, cb)" "cleanPath p = (rt, ct)" by fastforce
  let ?ct = "if \<not> rt \<and> ct = [] then [''.''] else ct"
  obtain bs ts where sc: "stripCommon cb ?ct = (bs, ts)" by fastforce
  have r: "rb = rt" and rel: "rel = joinSlash (replicate (length bs) ''..'' @ ts)"
    using assms(1) False by (auto simp: filepathRel_def c sc Let_def split: if_split_asm)
  have bs: "bs = []"
  proof (rule ccontr)
    assume "bs \<noteq> []"
    then show False using assms(2) joinSlash_dotdot rel by (cases bs) simp_all
  qed
  have "take 1 ts \<noteq> [''..'']"
  proof
    assume "take 1 ts = [''..'']"
    then show False using assms(2) joinSlash_dotdot rel bs by (cases ts) simp_all
  qed
  moreover obtain q where q: "cb = q" "?ct = q @ ts" using stripCommon_split [OF sc] bs by auto
  moreover have "''.'' \<notin> set cb"
    using cleanElems_no_dot [of "[]"] c(1) by (auto simp: cleanPath_def Let_def)
  ultimately show ?thesis using False
    by (cases cb) (auto simp: within_def c r split: if_split_asm)
qed

section \<open>What an accepted file holds\<close>

lemma decodeElems_distinct: "decodeElems raw ms = Some ks \<Longrightarrow> distinct (map fst raw) \<Longrightarrow> distinct (map fst ks)"
  by (induction raw ms rule: decodeElems.induct)
     (auto split: option.split_asm simp: distinct_update)

lemma decodeKeys_distinct: "decodeKeys b = Some ks \<Longrightarrow> distinct (map fst ks)"
  by (auto simp: decodeKeys_def Let_def decodeElems_distinct split: option.split_asm if_split_asm)

definition key_entry_ok :: "bytes \<times> bytes \<Rightarrow> bool" where
  "key_entry_ok e \<longleftrightarrow> fst e \<noteq> [] \<and> hd (fst e) \<noteq> CHR ''_'' \<and> snd e \<noteq> []"

lemma checkKeys_ok: "checkKeys ks = None \<longleftrightarrow> list_all key_entry_ok ks"
  by (induction ks rule: checkKeys.induct) (auto simp: key_entry_ok_def hd_conv_nth)

lemma loadKeysFile_ok:
  assumes "loadKeysFile os path = Inr ks"
  shows "distinct (map fst ks)" and "list_all key_entry_ok ks"
  using assms
  by (auto simp: loadKeysFile_def Let_def checkKeys_ok decodeKeys_distinct
      split: sum.split_asm option.split_asm if_split_asm prod.split_asm)

section \<open>Properties\<close>

text \<open>C27: \<open>keys_file_stays_inside\<close>. The file that is read is either the configured path itself, opened
  without following a link, or a file whose resolved path lies inside the resolved directory of the
  configured path: a link cannot make the agent read anything outside that directory.\<close>

theorem keys_file_stays_inside:
  assumes "openKeysFile os path = Inr f"
  shows "openNoFollow os path = Opened f \<or>
    (openNoFollow os path = ELOOP \<and>
     (\<exists>base p. evalSymlinks os (filepathDir path) = Some base \<and> evalSymlinks os path = Some p \<and>
        within base p \<and> openNoFollow os p = Opened f))"
  using assms rel_within
  by (auto simp: openKeysFile_def split: openResult.split_asm option.split_asm if_split_asm)

text \<open>A Kubernetes Secret mount: the configured name is a link into a dated directory of the mount.\<close>

definition secretFile :: openFile where
  "secretFile = \<lparr>fstat = Some (True, 0x1A0), fdata = Some ''{\"web\":\"k1\"}''\<rparr>"

definition secretMount :: osView where
  "secretMount =
     \<lparr>openNoFollow = (\<lambda>p. if p = ''/m/keys.json'' then ELOOP
        else if p = ''/m/..data_1/keys.json'' then Opened secretFile else OpenFailed),
      evalSymlinks = (\<lambda>p. if p = ''/m'' then Some ''/m''
        else if p = ''/m/keys.json'' then Some ''/m/..data_1/keys.json'' else None)\<rparr>"

lemma secretMount_paths:
  "filepathDir ''/m/keys.json'' = ''/m''" "filepathRel ''/m'' ''/m/..data_1/keys.json'' = Some ''..data_1/keys.json''"
  "\<not> escapes ''..data_1/keys.json''"
  by code_simp+

lemma secretMount_opens: "openKeysFile secretMount ''/m/keys.json'' = Inr secretFile"
  by (simp add: openKeysFile_def secretMount_paths)
     (simp add: secretMount_def secretMount_paths)

theorem keys_file_stays_inside_witness:
  "within ''/m'' ''/m/..data_1/keys.json''"
  using keys_file_stays_inside [OF secretMount_opens] by (simp add: secretMount_def secretMount_paths)

text \<open>C26: \<open>loaded_keys_usable\<close>. A keys file that is accepted is a regular file nobody but its owner and
  group can write, of at most 1 MiB, and maps distinct names to keys: no name is empty or starts with
  an underscore (so none can pose as the default project) and no key is empty.\<close>

theorem loaded_keys_usable:
  assumes "loadKeysFile os path = Inr ks"
  shows "distinct (map fst ks) \<and> list_all (\<lambda>(n, k). n \<noteq> [] \<and> hd n \<noteq> CHR ''_'' \<and> k \<noteq> []) ks \<and>
    (\<exists>f perm d. openKeysFile os path = Inr f \<and> fstat f = Some (True, perm) \<and> perm AND 2 = 0 \<and>
       fdata f = Some d \<and> length d \<le> 2 ^ 20 \<and> decodeKeys d = Some ks)"
  using assms
  by (auto simp: loadKeysFile_def Let_def checkKeys_ok decodeKeys_distinct keysFileMaxBytes_def
      key_entry_ok_def list_all_iff min_def
      split: sum.split_asm option.split_asm if_split_asm prod.split_asm)

lemma secret_readValue: "readValue (BeginValue, []) ''{\"web\":\"k1\"}'' = Some 12"
  by (simp add: j_begin_value_def j_push_def j_begin_string_def j_end_value_def maxNestingDepth_def
      isJSONSpace_def isDigit_def nonzeroDigit_def complete_def)

lemma secret_parts:
  "object_members ''{\"web\":\"k1\"}'' = Some [(''web'', ''\"k1\"'')]" "skip ''{\"web\":\"k1\"}'' = ''{\"web\":\"k1\"}''"
  "unquote_body ''web'' = Some ''web''" "unquote_body ''k1'' = Some ''k1''"
  by code_simp+

lemma secret_unmarshal: "json_unmarshal_string ''\"k1\"'' = Some ''k1''"
  by (simp add: json_unmarshal_string_def json_valid_def json_valid_upto_def j_begin_value_def slice_def
      j_end_value_def isJSONSpace_def isDigit_def nonzeroDigit_def secret_parts)

lemma secret_decode: "decodeKeys ''{\"web\":\"k1\"}'' = Some [(''web'', ''k1'')]"
  by (simp add: decodeKeys_def secret_readValue secret_parts decodeElem_def secret_unmarshal del: readValue.simps)

lemma secretMount_load: "loadKeysFile secretMount ''/m/keys.json'' = Inr [(''web'', ''k1'')]"
  by (simp add: loadKeysFile_def secretMount_opens)
     (simp add: secretFile_def keysFileMaxBytes_def secret_decode)

theorem loaded_keys_usable_witness:
  "distinct (map fst [(''web'', ''k1'')]) \<and> decodeKeys ''{\"web\":\"k1\"}'' = Some [(''web'', ''k1'')]"
  using loaded_keys_usable [OF secretMount_load] by (simp add: secretMount_opens secretFile_def)

end
