(* ===== verification/Channel.thy ===== *)
theory Channel
  imports Prelude
begin

text \<open>
  Go's buffered channels, as the pipelines use them: the shared queue, a pipeline's handoff channel and
  its batch channel. A send on a closed channel and a second close panic; a receive from a closed
  channel drains the buffer first. The locale \<open>fifo\<close> is what the code relies on: order is kept and
  the capacity is never exceeded.
\<close>

section \<open>Channels\<close>

record 'a chan =
  buf :: "'a list"
  cap :: nat
  ch_closed :: bool

definition chMake :: "nat \<Rightarrow> 'a chan" where
  "chMake n = \<lparr>buf = [], cap = n, ch_closed = False\<rparr>"

datatype 'a sendRes = Sent "'a chan" | Full | SendPanic

text \<open>\<open>select { case c <- x: ... default: ... }\<close>\<close>

definition chTrySend :: "'a \<Rightarrow> 'a chan \<Rightarrow> 'a sendRes" where
  "chTrySend x c =
     (if ch_closed c then SendPanic
      else if length (buf c) < cap c then Sent (c\<lparr>buf := buf c @ [x]\<rparr>)
      else Full)"

text \<open>A receive; \<open>None\<close> where it would block or the channel is closed and drained.\<close>

definition chRecv :: "'a chan \<Rightarrow> ('a \<times> 'a chan) option" where
  "chRecv c = (case buf c of [] \<Rightarrow> None | x # xs \<Rightarrow> Some (x, c\<lparr>buf := xs\<rparr>))"

definition chEnded :: "'a chan \<Rightarrow> bool" where
  "chEnded c \<longleftrightarrow> ch_closed c \<and> buf c = []"

text \<open>\<open>close(c)\<close>; \<open>None\<close> is the panic of a second close.\<close>

definition chClose :: "'a chan \<Rightarrow> 'a chan option" where
  "chClose c = (if ch_closed c then None else Some (c\<lparr>ch_closed := True\<rparr>))"

lemmas chan_defs = chTrySend_def chRecv_def chEnded_def chClose_def chMake_def

section \<open>The contract\<close>

locale fifo =
  fixes put :: "'a \<Rightarrow> 'c \<Rightarrow> 'c option"
    and get :: "'c \<Rightarrow> ('a \<times> 'c) option"
    and contents :: "'c \<Rightarrow> 'a list"
    and bound :: "'c \<Rightarrow> nat"
  assumes put_contents: "put x c = Some c' \<Longrightarrow>
      contents c' = contents c @ [x] \<and> bound c' = bound c \<and> length (contents c') \<le> bound c'"
    and get_contents: "get c = Some (x, c') \<Longrightarrow> contents c = x # contents c' \<and> bound c' = bound c"
begin

text \<open>A schedule of offers and receives; with what was accepted and what came out.\<close>

fun drive :: "'a option list \<Rightarrow> 'c \<Rightarrow> 'a list \<times> 'a list \<times> 'c" where
  "drive [] c = ([], [], c)"
| "drive (Some x # es) c =
     (case put x c of
        Some c' \<Rightarrow> (case drive es c' of (i, p, c'') \<Rightarrow> (x # i, p, c''))
      | None \<Rightarrow> drive es c)"
| "drive (None # es) c =
     (case get c of
        Some (y, c') \<Rightarrow> (case drive es c' of (i, p, c'') \<Rightarrow> (i, y # p, c''))
      | None \<Rightarrow> drive es c)"

lemma drive_fifo:
  "drive es c = (i, p, c') \<Longrightarrow> contents c @ i = p @ contents c' \<and> bound c' = bound c"
proof (induction es c arbitrary: i p c' rule: drive.induct)
  case (2 x es c)
  show ?case
  proof (cases "put x c")
    case (Some d)
    obtain i' where i: "i = x # i'" "drive es d = (i', p, c')"
      using "2.prems" Some by (auto split: prod.split_asm)
    then show ?thesis using "2.IH"(2) [OF Some i(2)] put_contents [OF Some] by simp
  qed (use 2 in simp)
next
  case (3 es c)
  then show ?case
    by (auto split: option.split_asm prod.split_asm dest!: get_contents)
qed simp

lemma drive_bounded:
  "drive es c = (i, p, c') \<Longrightarrow> length (contents c) \<le> bound c \<Longrightarrow> length (contents c') \<le> bound c'"
proof (induction es c arbitrary: i p c' rule: drive.induct)
  case (2 x es c)
  then show ?case
    by (cases "put x c") (auto split: prod.split_asm dest: put_contents)
next
  case (3 es c)
  show ?case
  proof (cases "get c")
    case (Some yc)
    obtain y d where yc: "yc = (y, d)" by force
    obtain i' p' where d: "drive es d = (i', p', c')"
      using "3.prems"(1) by (auto simp: Some yc split: prod.split_asm)
    have "length (contents d) \<le> bound d"
      using get_contents [of c y d] "3.prems"(2) by (simp add: Some yc)
    then show ?thesis using "3.IH"(2) [OF _ _ d] Some yc by simp
  qed (use 3 in simp)
qed simp

end

definition chPut :: "'a \<Rightarrow> 'a chan \<Rightarrow> 'a chan option" where
  "chPut x c = (case chTrySend x c of Sent c' \<Rightarrow> Some c' | _ \<Rightarrow> None)"

interpretation ch: fifo chPut chRecv buf cap
  by unfold_locales
     (auto simp: chPut_def chan_defs split: if_split_asm list.split_asm)

text \<open>What the pipelines use: sends and receives keep the bound, and a drained channel stays drained.\<close>

lemma chTrySend_Sent:
  "chTrySend x c = Sent c' \<Longrightarrow> buf c' = buf c @ [x] \<and> cap c' = cap c \<and> ch_closed c' = ch_closed c \<and>
     length (buf c') \<le> cap c'"
  using ch.put_contents [of x c c'] by (auto simp: chPut_def chTrySend_def split: if_split_asm)

lemma chRecv_Some:
  "chRecv c = Some (x, c') \<Longrightarrow> buf c = x # buf c' \<and> cap c' = cap c \<and> ch_closed c' = ch_closed c"
  by (auto simp: chRecv_def split: list.split_asm)

lemma chClose_Some:
  "chClose c = Some c' \<Longrightarrow> buf c' = buf c \<and> cap c' = cap c \<and> ch_closed c' \<and> \<not> ch_closed c"
  by (auto simp: chClose_def split: if_split_asm)

end
