(* ===== verification/Registry.thy ===== *)
theory Registry
  imports Extract Flusher Keys Channel
begin

text \<open>
  Pipelines and the registry of \<open>src/routing.go\<close>. A \<open>*pipeline\<close> is an index into the registry's \<open>heap\<close>,
  so that the routing table, the drains and the copies of older tables share it as the code shares
  pointers. A Go map is an association list with distinct keys; its order stands for the iteration
  order. Each method of the registry is one definition; what runs in its own goroutine (demuxer,
  batcher, flusher, drains) is a set of atomic steps. Clock readings and the outcome of reading the
  keys file are arguments.
\<close>

section \<open>Pipelines\<close>

definition DefaultProject :: bytes where "DefaultProject = ''_default''"
definition pipelineHandoffDepth :: nat where "pipelineHandoffDepth = 16"

text \<open>\<open>batcherHold\<close> is the datagram \<open>batcher.run\<close> has received and not yet processed, \<open>flusherHold\<close> the batch
  being sent; \<open>ctxDone\<close> that \<open>p.cancel\<close> was called.\<close>

record pipeline =
  pl_project :: bytes
  pl_apiKey :: bytes
  pl_inline :: bool
  lastSeen :: int
  rawCh :: "rawDatagram chan"
  batchCh :: "EventBatch chan"
  pl_batcher :: batcher
  pl_flusher :: flusher
  pl_stats :: pipelineStats
  ctxDone :: bool
  pl_started :: bool
  pl_closed :: bool
  batcherHold :: "rawDatagram option"
  flusherHold :: "EventBatch option"
  batcherDone :: bool
  flushDone :: bool

definition newPipeline :: "bytes \<Rightarrow> bytes \<Rightarrow> Config \<Rightarrow> int \<Rightarrow> pipeline" where
  "newPipeline proj apiKey cfg now =
     \<lparr>pl_project = proj, pl_apiKey = apiKey, pl_inline = False, lastSeen = now,
      rawCh = chMake pipelineHandoffDepth, batchCh = chMake 8,
      pl_batcher = (newEventsBatcher (MaxBatch cfg) (MaxEventBytes cfg) (BatchWindow cfg))\<lparr>b_hasCtx := True\<rparr>,
      pl_flusher = newEventsFlusherWithKey cfg apiKey,
      pl_stats = newPipelineStats, ctxDone = False, pl_started = False, pl_closed = False,
      batcherHold = None, flusherHold = None, batcherDone = False, flushDone = False\<rparr>"

definition start :: "pipeline \<Rightarrow> pipeline" where
  "start p = p\<lparr>pl_started := True\<rparr>"

datatype tryResult = Delivered pipeline | Closed | QueueFull | TryPanic

definition trySend :: "rawDatagram \<Rightarrow> pipeline \<Rightarrow> tryResult" where
  "trySend dg p =
     (if pl_closed p then Closed
      else (case chTrySend dg (rawCh p) of
          Sent c \<Rightarrow> Delivered (p\<lparr>rawCh := c\<rparr>)
        | Full \<Rightarrow> QueueFull
        | SendPanic \<Rightarrow> TryPanic))"

text \<open>\<open>drain\<close> in its three parts, between which it waits; \<open>None\<close> is a panic.\<close>

definition drainClose :: "int \<Rightarrow> pipeline \<Rightarrow> pipeline option" where
  "drainClose grace p =
     (let p = p\<lparr>pl_closed := True\<rparr> in
      case chClose (rawCh p) of
        None \<Rightarrow> None
      | Some c \<Rightarrow>
          (let p = p\<lparr>rawCh := c\<rparr> in Some (if grace > 0 then p else p\<lparr>ctxDone := True\<rparr>)))"

definition drainBatches :: "pipeline \<Rightarrow> pipeline option" where
  "drainBatches p = map_option (\<lambda>c. p\<lparr>batchCh := c\<rparr>) (chClose (batchCh p))"

definition drainEnd :: "pipeline \<Rightarrow> pipeline" where
  "drainEnd p = p\<lparr>ctxDone := True\<rparr>"

section \<open>The registry\<close>

record routingTable =
  pipelines :: "(bytes \<times> nat) list"
  hasDefault :: bool

datatype drainPhase = Pending | WaitBatcher | WaitFlusher | Drained

text \<open>A \<open>drain\<close> goroutine: its pipeline, its grace and whether an expiry started it.\<close>

record drainTask =
  dr_pid :: nat
  dr_grace :: int
  dr_expiry :: bool
  dr_phase :: drainPhase

record registry =
  heap :: "pipeline list"
  rcur :: "routingTable option"
  cfg :: Config
  processStats :: selfStats
  sharedRawCh :: "rawDatagram chan"
  sharedClosed :: bool
  demuxRunning :: bool
  demuxHold :: "rawDatagram option"
  demuxDone :: bool
  drains :: "drainTask list"
  InlineProjectsRegistered :: u64
  InlineProjectsExpired :: u64
  KeysReloadFailures :: u64
  LastKeysReloadUnix :: int
  panicked :: bool

definition newRegistry :: "Config \<Rightarrow> selfStats \<Rightarrow> registry" where
  "newRegistry c ps =
     (let qs = (if QueueSize c \<le> 0 then 2000 else QueueSize c) in
      \<lparr>heap = [], rcur = None, cfg = c, processStats = ps, sharedRawCh = chMake (nat qs),
       sharedClosed = False, demuxRunning = False, demuxHold = None, demuxDone = False, drains = [],
       InlineProjectsRegistered = 0, InlineProjectsExpired = 0, KeysReloadFailures = 0,
       LastKeysReloadUnix = 0, panicked = False\<rparr>)"

text \<open>Updates through a pointer and of the counter blocks.\<close>

definition updPipe :: "nat \<Rightarrow> (pipeline \<Rightarrow> pipeline) \<Rightarrow> registry \<Rightarrow> registry" where
  "updPipe i f r = r\<lparr>heap := (heap r)[i := f (heap r ! i)]\<rparr>"

definition bumpSelf :: "(selfStats \<Rightarrow> selfStats) \<Rightarrow> registry \<Rightarrow> registry" where
  "bumpSelf f r = r\<lparr>processStats := f (processStats r)\<rparr>"

definition bumpPipe :: "nat \<Rightarrow> (pipelineStats \<Rightarrow> pipelineStats) \<Rightarrow> registry \<Rightarrow> registry" where
  "bumpPipe i f r = updPipe i (\<lambda>p. p\<lparr>pl_stats := f (pl_stats p)\<rparr>) r"

definition startPipe :: "nat \<Rightarrow> registry \<Rightarrow> registry" where
  "startPipe i r = updPipe i start r"

subsection \<open>Tables\<close>

text \<open>\<open>for k, v := range new { keys[k] = v }\<close>\<close>

fun mergeKeys :: "(bytes \<times> bytes) list \<Rightarrow> (bytes \<times> bytes) list \<Rightarrow> (bytes \<times> bytes) list" where
  "mergeKeys ks [] = ks"
| "mergeKeys ks ((n, k) # new) = mergeKeys (AList.update n k ks) new"

text \<open>The keys a table is built from: the process-lifetime API key, then the file.\<close>

definition desiredKeys :: "Config \<Rightarrow> (bytes \<times> bytes) list \<Rightarrow> (bytes \<times> bytes) list" where
  "desiredKeys c fileKeys =
     mergeKeys (if APIKey c \<noteq> [] then [(DefaultProject, APIKey c)] else []) fileKeys"

definition tooMany :: "Config \<Rightarrow> nat \<Rightarrow> bool" where
  "tooMany c n \<longleftrightarrow> MaxProjects c > 0 \<and> int n > MaxProjects c"

fun buildEntries ::
  "Config \<Rightarrow> int \<Rightarrow> (bytes \<times> nat) list \<Rightarrow> (bytes \<times> bytes) list \<Rightarrow> pipeline list \<times> (bytes \<times> nat) list
     \<Rightarrow> pipeline list \<times> (bytes \<times> nat) list" where
  "buildEntries c now prev [] (h, t) = (h, t)"
| "buildEntries c now prev ((n, k) # ks) (h, t) =
     (case map_of prev n of
        Some old \<Rightarrow>
          if pl_apiKey (h ! old) = k then buildEntries c now prev ks (h, AList.update n old t)
          else buildEntries c now prev ks (h @ [newPipeline n k c now], AList.update n (length h) t)
      | None \<Rightarrow> buildEntries c now prev ks (h @ [newPipeline n k c now], AList.update n (length h) t))"

text \<open>With no previous table \<open>prev\<close> is empty; a lookup in it misses, as the code's nil check makes it.\<close>

definition prevEntries :: "registry \<Rightarrow> (bytes \<times> nat) list" where
  "prevEntries r = (case rcur r of None \<Rightarrow> [] | Some t \<Rightarrow> pipelines t)"

definition buildTable :: "int \<Rightarrow> (bytes \<times> bytes) list \<Rightarrow> (bytes \<times> nat) list \<Rightarrow> registry \<Rightarrow> routingTable \<times> registry" where
  "buildTable now keys prev r =
     (case buildEntries (cfg r) now prev keys (heap r, []) of
        (h, t) \<Rightarrow>
          (\<lparr>pipelines = t, hasDefault = (map_of t DefaultProject \<noteq> None)\<rparr>, r\<lparr>heap := h\<rparr>))"

fun startNew :: "(bytes \<times> nat) list \<Rightarrow> (bytes \<times> nat) list \<Rightarrow> registry \<Rightarrow> registry" where
  "startNew prev [] r = r"
| "startNew prev ((n, i) # t) r =
     startNew prev t (if map_of prev n = Some i then r else startPipe i r)"

definition keysUnchanged :: "routingTable \<Rightarrow> (bytes \<times> bytes) list \<Rightarrow> registry \<Rightarrow> bool" where
  "keysUnchanged t keys r \<longleftrightarrow>
     length (pipelines t) = length keys \<and>
     list_all (\<lambda>(n, k). case map_of (pipelines t) n of
        None \<Rightarrow> False | Some i \<Rightarrow> pl_apiKey (heap r ! i) = k) keys"

definition spawnDrain :: "int \<Rightarrow> bool \<Rightarrow> nat \<Rightarrow> registry \<Rightarrow> registry" where
  "spawnDrain grace expiry i r =
     r\<lparr>drains := drains r @ [\<lparr>dr_pid = i, dr_grace = grace, dr_expiry = expiry, dr_phase = Pending\<rparr>]\<rparr>"

text \<open>The pipelines of \<open>prev\<close> that are gone or replaced.\<close>

fun drainStale :: "(bytes \<times> nat) list \<Rightarrow> (bytes \<times> nat) list \<Rightarrow> registry \<Rightarrow> registry" where
  "drainStale new [] r = r"
| "drainStale new ((n, i) # t) r =
     drainStale new t (if map_of new n = Some i then r else spawnDrain (ShutdownGrace (cfg r)) False i r)"

subsection \<open>install and reload\<close>

datatype installError = KeysFileError keysError | TooManyProjects

text \<open>\<open>readKeys\<close> is what \<open>loadKeysFile\<close> returns for the configured path.\<close>

definition install ::
  "(keysError + (bytes \<times> bytes) list) \<Rightarrow> int \<Rightarrow> registry \<Rightarrow> installError + registry" where
  "install readKeys now r =
     (case (if KeysFile (cfg r) \<noteq> [] then readKeys else Inr []) of
        Inl e \<Rightarrow> Inl (KeysFileError e)
      | Inr fileKeys \<Rightarrow>
          (let keys = desiredKeys (cfg r) fileKeys in
           if tooMany (cfg r) (length keys) then Inl TooManyProjects
           else
             (case buildTable now keys [] r of
                (tbl, r) \<Rightarrow>
                  (let r = startNew [] (pipelines tbl) r
                   in Inr (r\<lparr>rcur := Some tbl, demuxRunning := True\<rparr>)))))"

datatype reloadOutcome = NoKeysFile | KeepOld | Unchanged | Reloaded

text \<open>The second half of \<open>reload\<close>: build, start, swap, drain.\<close>

definition swapTable :: "int \<Rightarrow> int \<Rightarrow> (bytes \<times> bytes) list \<Rightarrow> registry \<Rightarrow> registry" where
  "swapTable now nowUnix newKeys r =
     (let prev = prevEntries r in
      case buildTable now newKeys prev r of
        (tbl, r) \<Rightarrow>
          (let r = startNew prev (pipelines tbl) r;
               r = r\<lparr>rcur := Some tbl\<rparr>;
               r = drainStale (pipelines tbl) prev r
           in r\<lparr>LastKeysReloadUnix := nowUnix\<rparr>))"

definition reload ::
  "(keysError + (bytes \<times> bytes) list) \<Rightarrow> (keysError + (bytes \<times> bytes) list) \<Rightarrow> int \<Rightarrow> int \<Rightarrow> registry
     \<Rightarrow> reloadOutcome \<times> registry" where
  "reload first retry now nowUnix r =
     (if KeysFile (cfg r) = [] then (NoKeysFile, r)
      else
        (case (case first of Inl _ \<Rightarrow> retry | Inr ks \<Rightarrow> Inr ks) of
           Inl _ \<Rightarrow> (KeepOld, r\<lparr>KeysReloadFailures := KeysReloadFailures r + 1\<rparr>)
         | Inr fileKeys \<Rightarrow>
             (let newKeys = desiredKeys (cfg r) fileKeys in
              if tooMany (cfg r) (length newKeys)
              then (KeepOld, r\<lparr>KeysReloadFailures := KeysReloadFailures r + 1\<rparr>)
              else
                (case rcur r of
                   Some prev \<Rightarrow> if keysUnchanged prev newKeys r
                     then (Unchanged, r\<lparr>LastKeysReloadUnix := nowUnix\<rparr>)
                     else (Reloaded, swapTable now nowUnix newKeys r)
                 | None \<Rightarrow> (Reloaded, swapTable now nowUnix newKeys r)))))"

subsection \<open>lookup, registerInline and dispatch\<close>

text \<open>The pointer and the flag of the code; the pointer is \<open>None\<close> for \<open>nil\<close>.\<close>

definition lookup :: "bytes \<Rightarrow> registry \<Rightarrow> nat option \<times> bool" where
  "lookup proj r =
     (case rcur r of
        None \<Rightarrow> (None, False)
      | Some t \<Rightarrow>
          if proj = [] then
            (if hasDefault t \<and> \<not> RequireProject (cfg r)
             then (map_of (pipelines t) DefaultProject, True) else (None, False))
          else (map_of (pipelines t) proj, map_of (pipelines t) proj \<noteq> None))"

definition registerInline :: "int \<Rightarrow> bytes \<Rightarrow> registry \<Rightarrow> (nat option \<times> bool) \<times> registry" where
  "registerInline now proj r =
     (case lookup proj r of
        (p, True) \<Rightarrow> ((p, True), r)
      | (_, False) \<Rightarrow>
          if rcur r \<noteq> None \<and> MaxProjects (cfg r) > 0 \<and> int (length (prevEntries r)) \<ge> MaxProjects (cfg r)
          then ((None, False), r)
          else
            (let i = length (heap r);
                 p = start ((newPipeline proj [] (cfg r) now)\<lparr>pl_inline := True\<rparr>);
                 nxt = \<lparr>pipelines = AList.update proj i (prevEntries r),
                         hasDefault = (case rcur r of None \<Rightarrow> False | Some t \<Rightarrow> hasDefault t)\<rparr>
             in ((Some i, True),
                 r\<lparr>heap := heap r @ [p], rcur := Some nxt,
                   InlineProjectsRegistered := InlineProjectsRegistered r + 1\<rparr>)))"

datatype dispatchResult = DDelivered | DDropped | DQueueFull

definition routingClosed :: "nat \<Rightarrow> registry \<Rightarrow> registry" where
  "routingClosed i r =
     bumpSelf (\<lambda>s. s\<lparr>s_DropsRoutingClosed := s_DropsRoutingClosed s + 1\<rparr>)
       (bumpPipe i (\<lambda>p. p\<lparr>p_DropsRoutingClosed := p_DropsRoutingClosed p + 1\<rparr>) r)"

text \<open>The end of \<open>dispatch\<close>, once the pipeline is known.\<close>

definition enqueue :: "nat \<Rightarrow> bytes \<Rightarrow> rawDatagram \<Rightarrow> registry \<Rightarrow> dispatchResult \<times> registry" where
  "enqueue i proj dg r =
     (if pl_inline (heap r ! i) \<and> dg_token dg = [] then
        (DDropped,
         bumpSelf (\<lambda>s. s\<lparr>s_DropsMissingToken := s_DropsMissingToken s + 1\<rparr>)
           (bumpPipe i (\<lambda>p. p\<lparr>p_DropsMissingToken := p_DropsMissingToken p + 1\<rparr>) r))
      else
        (let r = updPipe i (\<lambda>p. p\<lparr>lastSeen := dg_at dg\<rparr>) r in
         if pl_closed (heap r ! i) then (DDropped, routingClosed i r)
         else
           (let dg = dg\<lparr>dg_project := proj\<rparr> in
            if sharedClosed r then (DDropped, routingClosed i r)
            else (case chTrySend dg (sharedRawCh r) of
                Sent c \<Rightarrow> (DDelivered, r\<lparr>sharedRawCh := c\<rparr>)
              | Full \<Rightarrow> (DQueueFull, r)
              | SendPanic \<Rightarrow> (DDropped, r\<lparr>panicked := True\<rparr>)))))"

definition dispatch :: "int \<Rightarrow> rawDatagram \<Rightarrow> registry \<Rightarrow> dispatchResult \<times> registry" where
  "dispatch now dg r =
     (let f = extractAndStripRouting (dg_bytes dg) in
      if f_malformed f then
        (DDropped, bumpSelf (\<lambda>s. s\<lparr>s_DropsParseError := s_DropsParseError s + 1\<rparr>) r)
      else if f_badProject f then
        (DDropped, bumpSelf (\<lambda>s. s\<lparr>s_DropsUnroutedUnknown := s_DropsUnroutedUnknown s + 1\<rparr>) r)
      else
        (let proj = f_project f;
             dg = (if f_removed f then dg\<lparr>dg_bytes := f_stripped f\<rparr> else dg)
         in if f_badToken f \<and> InlineTokens (cfg r) then
              (DDropped, bumpSelf (\<lambda>s. s\<lparr>s_DropsBadToken := s_DropsBadToken s + 1\<rparr>) r)
            else
              (let dg = (if InlineTokens (cfg r) then dg\<lparr>dg_token := f_token f\<rparr> else dg);
                   res = lookup proj r;
                   ((p, ok), r) =
                     (if \<not> snd res \<and> InlineTokens (cfg r) \<and> f_token f \<noteq> [] \<and> proj \<noteq> []
                      then registerInline now proj r else (res, r))
               in if \<not> ok then
                    (if proj = [] then
                       (DDropped, bumpSelf (\<lambda>s. s\<lparr>s_DropsUnroutedMissing := s_DropsUnroutedMissing s + 1\<rparr>) r)
                     else
                       (DDropped, bumpSelf (\<lambda>s. s\<lparr>s_DropsUnroutedUnknown := s_DropsUnroutedUnknown s + 1\<rparr>) r))
                  else (case p of
                      Some i \<Rightarrow> enqueue i proj dg r
                    | None \<Rightarrow> (DDropped, r\<lparr>panicked := True\<rparr>)))))"

subsection \<open>The demuxer\<close>

definition demuxOne :: "rawDatagram \<Rightarrow> registry \<Rightarrow> registry" where
  "demuxOne dg r =
     (case lookup (dg_project dg) r of
        (_, False) \<Rightarrow> bumpSelf (\<lambda>s. s\<lparr>s_DropsRoutingClosed := s_DropsRoutingClosed s + 1\<rparr>) r
      | (None, True) \<Rightarrow> r\<lparr>panicked := True\<rparr>
      | (Some i, True) \<Rightarrow>
          (case trySend dg (heap r ! i) of
             Delivered p \<Rightarrow> updPipe i (\<lambda>_. p) r
           | Closed \<Rightarrow> routingClosed i r
           | QueueFull \<Rightarrow> bumpPipe i (\<lambda>p. p\<lparr>p_DropsQueueFull := p_DropsQueueFull p + 1\<rparr>) r
           | TryPanic \<Rightarrow> r\<lparr>panicked := True\<rparr>))"

subsection \<open>Inline expiry and shutdown\<close>

definition idleInline :: "registry \<Rightarrow> int \<Rightarrow> bytes \<times> nat \<Rightarrow> bool" where
  "idleInline r cutoff e \<longleftrightarrow> pl_inline (heap r ! snd e) \<and> lastSeen (heap r ! snd e) < cutoff"

fun spawnDrains :: "int \<Rightarrow> bool \<Rightarrow> nat list \<Rightarrow> registry \<Rightarrow> registry" where
  "spawnDrains grace expiry [] r = r"
| "spawnDrains grace expiry (i # is) r = spawnDrains grace expiry is (spawnDrain grace expiry i r)"

definition expireInline :: "int \<Rightarrow> int \<Rightarrow> registry \<Rightarrow> nat \<times> registry" where
  "expireInline idle now r =
     (if idle \<le> 0 then (0, r)
      else
        (case rcur r of
           None \<Rightarrow> (0, r)
         | Some prev \<Rightarrow>
             (let cutoff = now - idle;
                  retired = map snd (filter (idleInline r cutoff) (pipelines prev))
              in if length retired = 0 then (0, r)
                 else
                   (let nxt = \<lparr>pipelines = filter (\<lambda>e. snd e \<notin> set retired) (pipelines prev),
                                hasDefault = hasDefault prev\<rparr>
                    in (length retired,
                        spawnDrains (ShutdownGrace (cfg r)) True retired (r\<lparr>rcur := Some nxt\<rparr>))))))"

definition expiryTick :: "int \<Rightarrow> int" where
  "expiryTick idle = (if idle div 4 < 1000000000 then 1000000000 else idle div 4)"

text \<open>\<open>closeShared\<close>; the flag stands for the \<open>sync.Once\<close>.\<close>

definition closeShared :: "registry \<Rightarrow> registry" where
  "closeShared r =
     (if sharedClosed r then r
      else (case chClose (sharedRawCh r) of
          None \<Rightarrow> r\<lparr>panicked := True\<rparr>
        | Some c \<Rightarrow> r\<lparr>sharedClosed := True, sharedRawCh := c\<rparr>))"

text \<open>What \<open>shutdown\<close> does once the demuxer is done: one drain per pipeline of the table.\<close>

definition shutdownDrains :: "int \<Rightarrow> registry \<Rightarrow> registry" where
  "shutdownDrains grace r =
     (case rcur r of None \<Rightarrow> r | Some t \<Rightarrow> spawnDrains grace False (map snd (pipelines t)) r)"

subsection \<open>What /stats reads\<close>

definition inlineLive :: "registry \<Rightarrow> nat" where
  "inlineLive r =
     (case rcur r of None \<Rightarrow> 0
      | Some t \<Rightarrow> length (filter (\<lambda>e. pl_inline (heap r ! snd e)) (pipelines t)))"

definition snapshot :: "int \<Rightarrow> registry \<Rightarrow> (bytes \<times> projectStatsSnapshot) list" where
  "snapshot now r =
     (case rcur r of None \<Rightarrow> []
      | Some t \<Rightarrow> map (\<lambda>(n, i). (n, pipelineSnapshot now (pl_stats (heap r ! i)))) (pipelines t))"

end
