(* ===== verification/Registry_Inv.thy ===== *)
theory Registry_Inv
  imports Registry
begin

text \<open>
  The invariants of the registry: what a routing table promises about the pipelines it points to, how
  tables, pipelines and drains partition the heap, and how each operation keeps both.
\<close>

section \<open>Frames\<close>

text \<open>What no operation changes about a pipeline once it is on the heap.\<close>

definition same_id :: "pipeline \<Rightarrow> pipeline \<Rightarrow> bool" where
  "same_id p q \<longleftrightarrow> pl_project q = pl_project p \<and> pl_apiKey q = pl_apiKey p \<and> pl_inline q = pl_inline p \<and>
     pl_flusher q = pl_flusher p \<and> (pl_started p \<longrightarrow> pl_started q)"

definition heap_ext :: "pipeline list \<Rightarrow> pipeline list \<Rightarrow> bool" where
  "heap_ext h h' \<longleftrightarrow> length h \<le> length h' \<and> (\<forall>i < length h. same_id (h ! i) (h' ! i))"

lemma same_id_refl [simp]: "same_id p p"
  by (simp add: same_id_def)

lemma same_id_trans: "same_id p q \<Longrightarrow> same_id q s \<Longrightarrow> same_id p s"
  by (simp add: same_id_def)

lemma heap_ext_refl [simp]: "heap_ext h h"
  by (simp add: heap_ext_def)

lemma heap_ext_trans: "heap_ext a b \<Longrightarrow> heap_ext b c \<Longrightarrow> heap_ext a c"
  unfolding heap_ext_def by (meson less_le_trans le_trans same_id_trans)

lemma heap_ext_append [simp]: "heap_ext h (h @ ps)"
  by (simp add: heap_ext_def nth_append)

lemma heap_ext_upd: "same_id (h ! i) p \<Longrightarrow> heap_ext h (h[i := p])"
  by (cases "i < length h") (auto simp: heap_ext_def nth_list_update)

section \<open>Tables\<close>

definition entries_ok :: "pipeline list \<Rightarrow> (bytes \<times> nat) list \<Rightarrow> bool" where
  "entries_ok h t \<longleftrightarrow> distinct (map fst t) \<and>
     (\<forall>(n, i) \<in> set t. i < length h \<and> pl_project (h ! i) = n)"

definition started :: "pipeline list \<Rightarrow> (bytes \<times> nat) list \<Rightarrow> bool" where
  "started h t \<longleftrightarrow> (\<forall>(n, i) \<in> set t. pl_started (h ! i))"

definition default_ok :: "pipeline list \<Rightarrow> routingTable \<Rightarrow> bool" where
  "default_ok h t \<longleftrightarrow>
     (hasDefault t \<longleftrightarrow> (\<exists>i. map_of (pipelines t) DefaultProject = Some i \<and> \<not> pl_inline (h ! i)))"

definition table_ok :: "Config \<Rightarrow> pipeline list \<Rightarrow> routingTable \<Rightarrow> bool" where
  "table_ok c h t \<longleftrightarrow> entries_ok h (pipelines t) \<and> started h (pipelines t) \<and> default_ok h t \<and>
     (MaxProjects c > 0 \<longrightarrow> int (length (pipelines t)) \<le> MaxProjects c)"

lemma entries_ok_simps [simp]: "entries_ok h []"
  by (simp add: entries_ok_def)

lemma entries_mem: "entries_ok h t \<Longrightarrow> (n, i) \<in> set t \<Longrightarrow> i < length h \<and> pl_project (h ! i) = n"
  unfolding entries_ok_def by blast

lemma entries_lookup: "entries_ok h t \<Longrightarrow> (n, i) \<in> set t \<longleftrightarrow> map_of t n = Some i"
  by (metis entries_ok_def map_of_eq_Some_iff)

lemma entries_get: "entries_ok h t \<Longrightarrow> map_of t n = Some i \<Longrightarrow> i < length h \<and> pl_project (h ! i) = n"
  by (auto simp: entries_ok_def dest!: map_of_SomeD)

text \<open>Different names have different pipelines.\<close>

lemma entries_distinct_pids:
  assumes "entries_ok h t"
  shows "distinct (map snd t)"
proof -
  have "inj_on snd (set t)"
  proof (rule inj_onI)
    fix x y
    assume "x \<in> set t" "y \<in> set t" "snd x = snd y"
    then show "x = y" using entries_mem [OF assms] by (metis prod.collapse)
  qed
  moreover have "distinct t" using assms by (simp add: entries_ok_def distinct_map)
  ultimately show ?thesis by (simp add: distinct_map)
qed

lemma entries_ext: "entries_ok h t \<Longrightarrow> heap_ext h h' \<Longrightarrow> entries_ok h' t"
  by (fastforce simp: entries_ok_def heap_ext_def same_id_def)

lemma table_ext:
  assumes "table_ok c h t" and "heap_ext h h'"
  shows "table_ok c h' t"
proof -
  have e: "entries_ok h (pipelines t)" using assms(1) by (simp add: table_ok_def)
  have "started h' (pipelines t)"
    using assms e by (fastforce simp: table_ok_def started_def entries_ok_def heap_ext_def same_id_def)
  moreover have "default_ok h' t"
    using assms entries_get [OF e]
    by (fastforce simp: table_ok_def default_ok_def heap_ext_def same_id_def)
  ultimately show ?thesis using assms entries_ext [OF e] by (simp add: table_ok_def)
qed

lemma entries_update:
  assumes "entries_ok h t" and "i < length h" and "pl_project (h ! i) = n"
  shows "entries_ok h (AList.update n i t)"
proof -
  have "distinct (map fst (AList.update n i t))"
    using assms(1) by (simp add: entries_ok_def distinct_update)
  moreover have "j < length h \<and> pl_project (h ! j) = m" if "(m, j) \<in> set (AList.update n i t)" for m j
  proof -
    have "map_of (AList.update n i t) m = Some j"
      using that calculation by simp
    then show ?thesis using assms entries_get [OF assms(1)]
      by (auto simp: update_conv' split: if_split_asm)
  qed
  ultimately show ?thesis by (auto simp: entries_ok_def)
qed

lemma length_update:
  "length (AList.update k v xs) = length xs + (if map_of xs k = None then 1 else 0)"
  by (induction xs) auto

lemma entries_filter:
  "entries_ok h t \<Longrightarrow> entries_ok h (filter P t)"
  by (auto simp: entries_ok_def distinct_map_filter)

section \<open>Building a table\<close>

text \<open>
  The entry of one key: the old pipeline where its key is the same, a fresh one otherwise.
\<close>

definition reuses :: "pipeline list \<Rightarrow> (bytes \<times> nat) list \<Rightarrow> bytes \<times> bytes \<Rightarrow> bool" where
  "reuses h prev e \<longleftrightarrow> (\<exists>old. map_of prev (fst e) = Some old \<and> pl_apiKey (h ! old) = snd e)"

definition built ::
  "Config \<Rightarrow> int \<Rightarrow> (bytes \<times> nat) list \<Rightarrow> pipeline list \<Rightarrow> pipeline list \<Rightarrow> bytes \<times> bytes \<Rightarrow> bytes \<times> nat \<Rightarrow> bool" where
  "built c now prev h h' e x \<longleftrightarrow> fst x = fst e \<and>
     (if reuses h prev e then map_of prev (fst e) = Some (snd x)
      else length h \<le> snd x \<and> snd x < length h' \<and> h' ! snd x = newPipeline (fst e) (snd e) c now)"

text \<open>The heap only grows, by pipelines that are all entered in the table.\<close>

definition builds ::
  "Config \<Rightarrow> int \<Rightarrow> (bytes \<times> nat) list \<Rightarrow> (bytes \<times> bytes) list \<Rightarrow> pipeline list \<Rightarrow> pipeline list \<Rightarrow> (bytes \<times> nat) list \<Rightarrow> bool" where
  "builds c now prev ks h h' es \<longleftrightarrow>
     (\<exists>ps. h' = h @ ps) \<and> list_all2 (built c now prev h h') ks es \<and>
     {length h ..< length h'} \<subseteq> snd ` set es"

lemma update_fresh: "n \<notin> fst ` set t \<Longrightarrow> AList.update n i t = t @ [(n, i)]"
  by (induction t) auto

lemma reuses_append:
  assumes "entries_ok h prev"
  shows "reuses (h @ ps) prev e = reuses h prev e"
  using entries_get [OF assms] by (auto simp: reuses_def nth_append)

lemma buildEntries_builds:
  assumes "buildEntries c now prev ks (h, t) = (h', t')" and "entries_ok h prev"
    and "distinct (map fst t @ map fst ks)"
  shows "\<exists>es. t' = t @ es \<and> builds c now prev ks h h' es"
  using assms
proof (induction ks arbitrary: h t)
  case Nil
  then show ?case by (auto simp: builds_def)
next
  case (Cons e ks)
  obtain n k where e: "e = (n, k)" by force
  have n: "n \<notin> fst ` set t" using Cons.prems(3) e by auto
  show ?case
  proof (cases "reuses h prev e")
    case True
    then obtain old where old: "map_of prev n = Some old" "pl_apiKey (h ! old) = k"
      by (auto simp: reuses_def e)
    have "buildEntries c now prev ks (h, t @ [(n, old)]) = (h', t')"
      using Cons.prems(1) old by (simp add: e update_fresh [OF n])
    moreover have "distinct (map fst (t @ [(n, old)]) @ map fst ks)" using Cons.prems(3) e by auto
    ultimately obtain es where "t' = (t @ [(n, old)]) @ es" "builds c now prev ks h h' es"
      using Cons.IH Cons.prems(2) by blast
    then show ?thesis using True old
      by (intro exI [of _ "(n, old) # es"]) (auto simp: builds_def built_def e)
  next
    case False
    let ?h = "h @ [newPipeline n k c now]"
    have "buildEntries c now prev ks (?h, t @ [(n, length h)]) = (h', t')"
      using Cons.prems(1) False by (auto simp: e reuses_def update_fresh [OF n] split: option.split_asm)
    moreover have "distinct (map fst (t @ [(n, length h)]) @ map fst ks)" using Cons.prems(3) e by auto
    moreover have "entries_ok ?h prev" using Cons.prems(2) entries_ext heap_ext_append by blast
    ultimately obtain es where es: "t' = (t @ [(n, length h)]) @ es" "builds c now prev ks ?h h' es"
      using Cons.IH by blast
    then have "list_all2 (built c now prev h h') ks es"
      by (auto simp: builds_def built_def reuses_append [OF Cons.prems(2)] elim!: list_all2_mono
          split: if_split_asm)
    moreover obtain ps where ps: "h' = ?h @ ps" using es(2) by (auto simp: builds_def)
    moreover have "{length h ..< length h'} = insert (length h) {length ?h ..< length h'}"
      using ps by auto
    ultimately have "builds c now prev (e # ks) h h' ((n, length h) # es)"
      using es(2) False by (auto simp: builds_def built_def e nth_append)
    then show ?thesis using es(1) by (intro exI [of _ "(n, length h) # es"]) simp
  qed
qed

lemma buildTable_builds:
  assumes "buildTable now ks prev r = (tbl, r')" and "entries_ok (heap r) prev" and "distinct (map fst ks)"
  shows "r' = r\<lparr>heap := heap r'\<rparr>" and "builds (cfg r) now prev ks (heap r) (heap r') (pipelines tbl)"
    and "hasDefault tbl \<longleftrightarrow> map_of (pipelines tbl) DefaultProject \<noteq> None"
proof -
  obtain h t where b: "buildEntries (cfg r) now prev ks (heap r, []) = (h, t)" by fastforce
  then have "tbl = \<lparr>pipelines = t, hasDefault = (map_of t DefaultProject \<noteq> None)\<rparr>" "r' = r\<lparr>heap := h\<rparr>"
    using assms(1) by (auto simp: buildTable_def)
  then show "r' = r\<lparr>heap := heap r'\<rparr>"
    "hasDefault tbl \<longleftrightarrow> map_of (pipelines tbl) DefaultProject \<noteq> None"
    "builds (cfg r) now prev ks (heap r) (heap r') (pipelines tbl)"
    using buildEntries_builds [OF b assms(2)] assms(3) by simp_all
qed

lemma builds_names: "builds c now prev ks h h' es \<Longrightarrow> map fst es = map fst ks"
proof -
  assume "builds c now prev ks h h' es"
  then have "list_all2 (\<lambda>e x. fst x = fst e) ks es"
    by (auto simp: builds_def built_def elim!: list_all2_mono)
  then show ?thesis by (induction ks es rule: list_all2_induct) auto
qed

text \<open>The entry of a key in the table that is built, and where an entry comes from.\<close>

lemma list_all2_memD1: "list_all2 P xs ys \<Longrightarrow> x \<in> set xs \<Longrightarrow> \<exists>y \<in> set ys. P x y"
  by (induction xs ys rule: list_all2_induct) auto

lemma list_all2_memD2: "list_all2 P xs ys \<Longrightarrow> y \<in> set ys \<Longrightarrow> \<exists>x \<in> set xs. P x y"
  by (induction xs ys rule: list_all2_induct) auto

lemma builds_entry:
  assumes "builds c now prev ks h h' es" and "x \<in> set es"
  obtains e where "e \<in> set ks" "built c now prev h h' e x"
  using assms(2) list_all2_memD2 [of "built c now prev h h'" ks es x] assms(1) that
  by (auto simp: builds_def)

lemma builds_entries_ok:
  assumes b: "builds c now prev ks h h' es" and prev: "entries_ok h prev" and d: "distinct (map fst ks)"
  shows "entries_ok h' es" and "heap_ext h h'" and "length es = length ks"
proof -
  obtain ps where h': "h' = h @ ps" using b by (auto simp: builds_def)
  then show "heap_ext h h'" by simp
  show "length es = length ks" using b list_all2_lengthD by (fastforce simp: builds_def)
  have m: "i < length h' \<and> pl_project (h' ! i) = n" if "(n, i) \<in> set es" for n i
  proof -
    obtain e where "built c now prev h h' e (n, i)" using builds_entry [OF b \<open>(n, i) \<in> set es\<close>] .
    then consider "map_of prev n = Some i" | "i < length h'" "h' ! i = newPipeline n (snd e) c now"
      by (auto simp: built_def split: if_split_asm)
    then show ?thesis
    proof cases
      case 1
      then show ?thesis using entries_get [OF prev 1] by (simp add: h' nth_append)
    qed (simp add: newPipeline_def)
  qed
  have "distinct (map fst es)" using d builds_names [OF b] by simp
  with m show "entries_ok h' es" unfolding entries_ok_def by blast
qed

section \<open>Starting and draining\<close>

lemma updPipe_frame [simp]:
  "length (heap (updPipe i f r)) = length (heap r)" "rcur (updPipe i f r) = rcur r"
  "cfg (updPipe i f r) = cfg r" "drains (updPipe i f r) = drains r"
  "processStats (updPipe i f r) = processStats r" "sharedRawCh (updPipe i f r) = sharedRawCh r"
  "sharedClosed (updPipe i f r) = sharedClosed r" "panicked (updPipe i f r) = panicked r"
  "demuxHold (updPipe i f r) = demuxHold r" "prevEntries (updPipe i f r) = prevEntries r"
  "demuxRunning (updPipe i f r) = demuxRunning r" "demuxDone (updPipe i f r) = demuxDone r"
  by (simp_all add: updPipe_def prevEntries_def)

lemma updPipe_heap: "heap (updPipe i f r) = (heap r)[i := f (heap r ! i)]"
  by (simp add: updPipe_def)

definition toStart :: "(bytes \<times> nat) list \<Rightarrow> (bytes \<times> nat) list \<Rightarrow> nat set" where
  "toStart prev t = snd ` {x \<in> set t. map_of prev (fst x) \<noteq> Some (snd x)}"

definition startAll :: "nat set \<Rightarrow> pipeline list \<Rightarrow> pipeline list" where
  "startAll js h = map (\<lambda>j. if j \<in> js then start (h ! j) else h ! j) [0 ..< length h]"

lemma startAll_empty [simp]: "startAll {} h = h"
  by (simp add: startAll_def map_nth)

lemma length_startAll [simp]: "length (startAll js h) = length h"
  by (simp add: startAll_def)

lemma nth_startAll: "j < length h \<Longrightarrow> startAll js h ! j = (if j \<in> js then start (h ! j) else h ! j)"
  by (simp add: startAll_def)

lemma startAll_insert: "startAll js (h[i := start (h ! i)]) = startAll (insert i js) h"
proof (rule nth_equalityI)
  fix j
  assume "j < length (startAll js (h[i := start (h ! i)]))"
  then show "startAll js (h[i := start (h ! i)]) ! j = startAll (insert i js) h ! j"
    by (cases "j = i") (simp_all add: nth_startAll start_def)
qed simp

lemma toStart_Cons:
  "toStart prev ((n, i) # t) = (if map_of prev n = Some i then toStart prev t else insert i (toStart prev t))"
proof -
  have "{x \<in> set ((n, i) # t). map_of prev (fst x) \<noteq> Some (snd x)} =
    (if map_of prev n = Some i then {x \<in> set t. map_of prev (fst x) \<noteq> Some (snd x)}
     else insert (n, i) {x \<in> set t. map_of prev (fst x) \<noteq> Some (snd x)})"
    by auto
  then show ?thesis by (simp add: toStart_def)
qed

lemma startNew_effect: "startNew prev t r = r\<lparr>heap := startAll (toStart prev t) (heap r)\<rparr>"
proof (induction prev t r rule: startNew.induct)
  case (1 prev r)
  then show ?case by (simp add: toStart_def)
next
  case (2 prev n i t r)
  then show ?case
    by (simp add: toStart_Cons startPipe_def updPipe_def startAll_insert)
qed

definition drainOf :: "int \<Rightarrow> bool \<Rightarrow> nat \<Rightarrow> drainTask" where
  "drainOf grace expiry i = \<lparr>dr_pid = i, dr_grace = grace, dr_expiry = expiry, dr_phase = Pending\<rparr>"

lemma drainStale_effect:
  "drainStale new t r = r\<lparr>drains := drains r @ map (drainOf (ShutdownGrace (cfg r)) False)
     (map snd (filter (\<lambda>x. map_of new (fst x) \<noteq> Some (snd x)) t))\<rparr>"
  by (induction new t r rule: drainStale.induct) (auto simp: spawnDrain_def drainOf_def)

lemma spawnDrains_effect:
  "spawnDrains grace expiry is r = r\<lparr>drains := drains r @ map (drainOf grace expiry) is\<rparr>"
  by (induction grace expiry "is" r rule: spawnDrains.induct) (auto simp: spawnDrain_def drainOf_def)

lemma dr_pid_drainOf [simp]: "dr_pid (drainOf g x i) = i" "map dr_pid (map (drainOf g x) is) = is"
  by (simp_all add: drainOf_def comp_def)

section \<open>The invariant of the registry\<close>

definition ident_ok :: "pipeline \<Rightarrow> bool" where
  "ident_ok p \<longleftrightarrow> (pl_inline p \<longleftrightarrow> pl_apiKey p = []) \<and> f_apiKey (pl_flusher p) = pl_apiKey p \<and> pl_started p"

text \<open>Every pipeline is in the table or has exactly one drain.\<close>

definition owners :: "registry \<Rightarrow> nat list" where
  "owners r = map snd (prevEntries r) @ map dr_pid (drains r)"

definition owned :: "registry \<Rightarrow> bool" where
  "owned r \<longleftrightarrow> distinct (owners r) \<and> set (owners r) = {..< length (heap r)}"

definition reg_inv :: "registry \<Rightarrow> bool" where
  "reg_inv r \<longleftrightarrow> (\<forall>t. rcur r = Some t \<longrightarrow> table_ok (cfg r) (heap r) t) \<and>
     list_all ident_ok (heap r) \<and> owned r"

lemma reg_inv_entries: "reg_inv r \<Longrightarrow> entries_ok (heap r) (prevEntries r)"
  by (auto simp: reg_inv_def prevEntries_def table_ok_def split: option.splits)

text \<open>Keys a table can be built from.\<close>

definition keys_ok :: "Config \<Rightarrow> (bytes \<times> bytes) list \<Rightarrow> bool" where
  "keys_ok c ks \<longleftrightarrow> distinct (map fst ks) \<and> (\<forall>e \<in> set ks. snd e \<noteq> []) \<and> \<not> tooMany c (length ks)"

definition stale :: "(bytes \<times> nat) list \<Rightarrow> (bytes \<times> nat) list \<Rightarrow> nat list" where
  "stale new prev = map snd (filter (\<lambda>x. map_of new (fst x) \<noteq> Some (snd x)) prev)"

lemma swapTable_effect:
  assumes "entries_ok (heap r) (prevEntries r)" and "distinct (map fst ks)"
  obtains h1 es where "builds (cfg r) now (prevEntries r) ks (heap r) h1 es"
    and "swapTable now u ks r =
      r\<lparr>heap := startAll (toStart (prevEntries r) es) h1,
        rcur := Some \<lparr>pipelines = es, hasDefault = (map_of es DefaultProject \<noteq> None)\<rparr>,
        drains := drains r @ map (drainOf (ShutdownGrace (cfg r)) False) (stale es (prevEntries r)),
        LastKeysReloadUnix := u\<rparr>"
proof -
  obtain tbl r1 where b: "buildTable now ks (prevEntries r) r = (tbl, r1)" by force
  note bb = buildTable_builds [OF b assms]
  obtain h1 where r1: "r1 = r\<lparr>heap := h1\<rparr>" using bb(1) by blast
  have "tbl = \<lparr>pipelines = pipelines tbl, hasDefault = (map_of (pipelines tbl) DefaultProject \<noteq> None)\<rparr>"
    using bb(3) by (cases tbl) simp
  then show thesis using bb(2)
    by (intro that [of h1 "pipelines tbl"])
       (simp_all add: swapTable_def b startNew_effect drainStale_effect stale_def r1 Let_def)
qed

lemma builds_pids:
  assumes b: "builds c now prev ks h h1 es" and "(n, i) \<in> set es" and "entries_ok h prev"
  shows "map_of prev n = Some i \<or> length h \<le> i \<and> i < length h1"
proof -
  obtain e where "built c now prev h h1 e (n, i)" using builds_entry [OF b assms(2)] .
  then show ?thesis by (auto simp: built_def split: if_split_asm)
qed

lemma stale_pids:
  assumes b: "builds c now prev ks h h1 es" and p: "entries_ok h prev" and e: "entries_ok h1 es"
  shows "set (stale es prev) = snd ` set prev - snd ` set es"
proof (intro equalityI subsetI)
  fix i
  assume "i \<in> set (stale es prev)"
  then obtain n where n: "(n, i) \<in> set prev" "map_of es n \<noteq> Some i" by (auto simp: stale_def)
  note i = entries_mem [OF p n(1)]
  have "i \<noteq> j" if "(m, j) \<in> set es" for m j
  proof
    assume j: "i = j"
    then have "map_of prev m = Some i" using builds_pids [OF b that p] i by auto
    then have "m = n" using entries_get [OF p] i by auto
    then show False using that n(2) j entries_lookup [OF e] by simp
  qed
  then show "i \<in> snd ` set prev - snd ` set es" using n(1) by force
next
  fix i
  assume "i \<in> snd ` set prev - snd ` set es"
  then obtain n where "(n, i) \<in> set prev" "i \<notin> snd ` set es" by auto
  moreover from this have "map_of es n \<noteq> Some i" by (metis image_eqI map_of_SomeD snd_conv)
  ultimately show "i \<in> set (stale es prev)" by (force simp: stale_def)
qed

lemma stale_distinct: "entries_ok h prev \<Longrightarrow> distinct (stale es prev)"
  unfolding stale_def by (intro entries_distinct_pids entries_filter)

lemma swap_owned:
  assumes o: "owned r" and b: "builds c now (prevEntries r) ks (heap r) h1 es"
    and p: "entries_ok (heap r) (prevEntries r)" and e: "entries_ok h1 es"
  shows "distinct (map snd es @ map dr_pid (drains r) @ stale es (prevEntries r))"
    and "set (map snd es @ map dr_pid (drains r) @ stale es (prevEntries r)) = {..< length h1}"
proof -
  let ?prev = "prevEntries r" and ?D = "dr_pid ` set (drains r)" and ?E = "snd ` set es"
  have od: "snd ` set ?prev \<inter> ?D = {}" "snd ` set ?prev \<union> ?D = {..< length (heap r)}"
    "distinct (map dr_pid (drains r))"
    using o by (auto simp: owned_def owners_def)
  obtain ps where h1: "h1 = heap r @ ps" using b by (auto simp: builds_def)
  have new: "?E \<subseteq> snd ` set ?prev \<union> {length (heap r) ..< length h1}"
  proof
    fix i
    assume "i \<in> ?E"
    then obtain n where "(n, i) \<in> set es" by auto
    then show "i \<in> snd ` set ?prev \<union> {length (heap r) ..< length h1}"
      using builds_pids [OF b _ p, of n i] by (force dest: map_of_SomeD)
  qed
  have fresh: "{length (heap r) ..< length h1} \<subseteq> ?E" using b by (simp add: builds_def)
  have "?D \<subseteq> {..< length (heap r)}" using od(2) by blast
  then have "?D \<inter> {length (heap r) ..< length h1} = {}" by force
  then have "?E \<inter> ?D = {}" using new od(1) by blast
  moreover have "set (stale es ?prev) \<inter> (?E \<union> ?D) = {}" using od(1) by (auto simp: stale_pids [OF b p e])
  ultimately show "distinct (map snd es @ map dr_pid (drains r) @ stale es ?prev)"
    using od(3) entries_distinct_pids [OF e] stale_distinct [OF p, of es]
    unfolding distinct_append set_append set_map by blast
  have l: "{..< length h1} = {..< length (heap r)} \<union> {length (heap r) ..< length h1}" by (auto simp: h1)
  have "?E \<union> (?D \<union> (snd ` set ?prev - ?E)) = snd ` set ?prev \<union> ?D \<union> {length (heap r) ..< length h1}"
    using new fresh by blast
  then show "set (map snd es @ map dr_pid (drains r) @ stale es ?prev) = {..< length h1}"
    by (simp only: l od(2) set_append set_map stale_pids [OF b p e])
qed

lemma ident_fresh: "k \<noteq> [] \<Longrightarrow> ident_ok (start (newPipeline n k c now))"
  by (simp add: ident_ok_def start_def newPipeline_def newEventsFlusherWithKey_def)

lemma ident_start: "ident_ok p \<Longrightarrow> start p = p"
  by (cases p) (simp add: ident_ok_def start_def)

lemma same_id_start [simp]: "same_id p (start p)"
  by (simp add: same_id_def start_def)

lemma startAll_ext: "heap_ext h (startAll js h)"
  by (simp add: heap_ext_def nth_startAll)

lemma default_built:
  assumes b: "builds c now prev ks h h1 es" and id: "list_all ident_ok h" and p: "entries_ok h prev"
    and k: "\<forall>e \<in> set ks. snd e \<noteq> []" and n: "map_of es n = Some i"
  shows "\<not> pl_inline (h1 ! i)"
proof -
  obtain e where e: "e \<in> set ks" "built c now prev h h1 e (n, i)"
    using builds_entry [OF b map_of_SomeD [OF n]] .
  obtain ps where h1: "h1 = h @ ps" using b by (auto simp: builds_def)
  show ?thesis
  proof (cases "reuses h prev e")
    case True
    then have i: "map_of prev n = Some i" "pl_apiKey (h ! i) = snd e"
      using e(2) by (auto simp: built_def reuses_def)
    then have "i < length h" using entries_get [OF p] by blast
    then show ?thesis using id i(2) k e(1) by (auto simp: list_all_length ident_ok_def h1 nth_append)
  qed (use e(2) in \<open>simp add: built_def newPipeline_def\<close>)
qed

lemma builds_ident:
  assumes b: "builds c now prev ks h h1 es" and id: "list_all ident_ok h" and p: "entries_ok h prev"
    and k: "\<forall>e \<in> set ks. snd e \<noteq> []"
  shows "list_all ident_ok (startAll (toStart prev es) h1)"
  unfolding list_all_length length_startAll
proof (intro allI impI)
  fix j
  assume j: "j < length h1"
  obtain ps where h1: "h1 = h @ ps" using b by (auto simp: builds_def)
  show "ident_ok (startAll (toStart prev es) h1 ! j)"
  proof (cases "j < length h")
    case True
    then have "ident_ok (h1 ! j)" using id by (simp add: list_all_length h1 nth_append)
    then show ?thesis using j by (simp add: nth_startAll ident_start)
  next
    case False
    then have "j \<in> {length h ..< length h1}" using j by simp
    then have "j \<in> snd ` set es" using b unfolding builds_def by blast
    then obtain n where n: "(n, j) \<in> set es" by auto
    then obtain e where e: "e \<in> set ks" "built c now prev h h1 e (n, j)" using builds_entry [OF b] by blast
    have m: "map_of prev n \<noteq> Some j" using False entries_get [OF p] by blast
    then have "h1 ! j = newPipeline (fst e) (snd e) c now" using e(2) by (auto simp: built_def split: if_split_asm)
    moreover have "j \<in> toStart prev es" using n m by (force simp: toStart_def)
    ultimately show ?thesis using ident_fresh k e(1) j by (simp add: nth_startAll)
  qed
qed

lemma keys_ok_bound: "keys_ok c ks \<Longrightarrow> MaxProjects c > 0 \<Longrightarrow> int (length ks) \<le> MaxProjects c"
  by (auto simp: keys_ok_def tooMany_def)

lemma swapTable_inv:
  assumes inv: "reg_inv r" and k: "keys_ok (cfg r) ks"
  shows "reg_inv (swapTable now u ks r)"
proof -
  have p: "entries_ok (heap r) (prevEntries r)" and id: "list_all ident_ok (heap r)" and o: "owned r"
    using inv reg_inv_entries by (simp_all add: reg_inv_def)
  have d: "distinct (map fst ks)" and nz: "\<forall>e \<in> set ks. snd e \<noteq> []" using k by (simp_all add: keys_ok_def)
  obtain h1 es where b: "builds (cfg r) now (prevEntries r) ks (heap r) h1 es"
    and s: "swapTable now u ks r =
      r\<lparr>heap := startAll (toStart (prevEntries r) es) h1,
        rcur := Some \<lparr>pipelines = es, hasDefault = (map_of es DefaultProject \<noteq> None)\<rparr>,
        drains := drains r @ map (drainOf (ShutdownGrace (cfg r)) False) (stale es (prevEntries r)),
        LastKeysReloadUnix := u\<rparr>"
    using swapTable_effect [OF p d, of now u] .
  let ?h = "startAll (toStart (prevEntries r) es) h1"
  note e = builds_entries_ok [OF b p d]
  have id': "list_all ident_ok ?h" by (rule builds_ident [OF b id p nz])
  have eh: "entries_ok ?h es" using e(1) startAll_ext by (rule entries_ext)
  have "started ?h es"
    using id' entries_mem [OF eh] by (auto simp: started_def list_all_length ident_ok_def)
  moreover have "\<not> pl_inline (?h ! i)" if "map_of es n = Some i" for n i
    using default_built [OF b id p nz that] entries_get [OF e(1) that]
    by (simp add: nth_startAll start_def)
  then have "default_ok ?h \<lparr>pipelines = es, hasDefault = (map_of es DefaultProject \<noteq> None)\<rparr>"
    by (auto simp: default_ok_def)
  moreover have "owned (swapTable now u ks r)"
    using swap_owned [OF o b p e(1)] by (simp add: owned_def owners_def s prevEntries_def comp_def)
  ultimately show ?thesis
    using id' eh keys_ok_bound [OF k] e(3) by (simp add: reg_inv_def s table_ok_def)
qed

text \<open>The pipeline of a project registered from a datagram: without a key.\<close>

definition inlinePipeline :: "bytes \<Rightarrow> Config \<Rightarrow> int \<Rightarrow> pipeline" where
  "inlinePipeline proj c now = start ((newPipeline proj [] c now)\<lparr>pl_inline := True\<rparr>)"

text \<open>A pipeline as \<open>newPipeline\<close> and \<open>start\<close> leave it.\<close>

definition fresh_started :: "Config \<Rightarrow> int \<Rightarrow> pipeline \<Rightarrow> bool" where
  "fresh_started c now p \<longleftrightarrow>
     (\<exists>n k. p = start (newPipeline n k c now) \<and> k \<noteq> []) \<or> (\<exists>n. p = inlinePipeline n c now)"

lemma swapTable_heap:
  assumes inv: "reg_inv r" and k: "keys_ok (cfg r) ks"
  shows "\<exists>ps. heap (swapTable now u ks r) = heap r @ ps \<and> list_all (fresh_started (cfg r) now) ps"
proof -
  have p: "entries_ok (heap r) (prevEntries r)" and id: "list_all ident_ok (heap r)"
    using inv reg_inv_entries by (simp_all add: reg_inv_def)
  have d: "distinct (map fst ks)" and nz: "\<forall>e \<in> set ks. snd e \<noteq> []" using k by (simp_all add: keys_ok_def)
  obtain h1 es where b: "builds (cfg r) now (prevEntries r) ks (heap r) h1 es"
    and s: "swapTable now u ks r =
      r\<lparr>heap := startAll (toStart (prevEntries r) es) h1,
        rcur := Some \<lparr>pipelines = es, hasDefault = (map_of es DefaultProject \<noteq> None)\<rparr>,
        drains := drains r @ map (drainOf (ShutdownGrace (cfg r)) False) (stale es (prevEntries r)),
        LastKeysReloadUnix := u\<rparr>"
    using swapTable_effect [OF p d, of now u] .
  let ?h = "startAll (toStart (prevEntries r) es) h1"
  obtain qs where h1: "h1 = heap r @ qs" using b by (auto simp: builds_def)
  have "take (length (heap r)) ?h = heap r"
    using id by (intro nth_equalityI) (auto simp: h1 nth_startAll nth_append ident_start list_all_length)
  moreover have "fresh_started (cfg r) now (?h ! j)" if j: "length (heap r) \<le> j" "j < length h1" for j
  proof -
    have "j \<in> snd ` set es" using b j unfolding builds_def by (meson atLeastLessThan_iff subsetD)
    then obtain n where n: "(n, j) \<in> set es" by auto
    obtain e where e: "e \<in> set ks" "built (cfg r) now (prevEntries r) (heap r) h1 e (n, j)"
      using builds_entry [OF b n] .
    have m: "map_of (prevEntries r) n \<noteq> Some j" using j(1) entries_get [OF p] by force
    then have "h1 ! j = newPipeline (fst e) (snd e) (cfg r) now"
      using e(2) by (auto simp: built_def split: if_split_asm)
    moreover have "j \<in> toStart (prevEntries r) es" using n m by (force simp: toStart_def)
    ultimately show ?thesis using nz e(1) j(2) by (auto simp: nth_startAll fresh_started_def)
  qed
  then have "list_all (fresh_started (cfg r) now) (drop (length (heap r)) ?h)"
    by (simp add: list_all_length)
  ultimately show ?thesis
    using append_take_drop_id [of "length (heap r)" ?h] by (intro exI [of _ "drop (length (heap r)) ?h"]) (simp add: s)
qed

section \<open>Keys\<close>

lemma mergeKeys_distinct: "distinct (map fst ks) \<Longrightarrow> distinct (map fst (mergeKeys ks new))"
  by (induction ks new rule: mergeKeys.induct) (simp_all add: distinct_update)

lemma set_update: "set (AList.update n k ks) \<subseteq> insert (n, k) (set ks)"
  by (induction ks) auto

lemma mergeKeys_set: "set (mergeKeys ks new) \<subseteq> set ks \<union> set new"
proof (induction ks new rule: mergeKeys.induct)
  case (2 ks n k new)
  then show ?case using set_update [of n k ks] by auto
qed simp

lemma mergeKeys_map:
  "distinct (map fst new) \<Longrightarrow> map_of (mergeKeys ks new) = map_of ks ++ map_of new"
proof (induction ks new rule: mergeKeys.induct)
  case (2 ks n k new)
  then have "map_of new n = None" by (simp add: map_of_eq_None_iff)
  then show ?case using 2 by (auto simp: update_conv' map_add_def fun_eq_iff split: option.split)
qed simp

lemma desiredKeys_ok:
  assumes "distinct (map fst ks)" and "list_all key_entry_ok ks" and "\<not> tooMany c (length (desiredKeys c ks))"
  shows "keys_ok c (desiredKeys c ks)"
  using assms mergeKeys_set [of "if APIKey c \<noteq> [] then [(DefaultProject, APIKey c)] else []" ks]
  by (auto simp: keys_ok_def desiredKeys_def mergeKeys_distinct list_all_iff key_entry_ok_def)

section \<open>The operations keep it\<close>

text \<open>What reading the keys file can give.\<close>

definition file_ok :: "keysError + (bytes \<times> bytes) list \<Rightarrow> bool" where
  "file_ok x \<longleftrightarrow> (case x of Inl _ \<Rightarrow> True | Inr ks \<Rightarrow> distinct (map fst ks) \<and> list_all key_entry_ok ks)"

lemma loadKeysFile_file_ok: "file_ok (loadKeysFile os path)"
  using loadKeysFile_ok by (auto simp: file_ok_def split: sum.split)

lemma same_ident: "same_id p q \<Longrightarrow> ident_ok p \<Longrightarrow> ident_ok q"
  by (auto simp: same_id_def ident_ok_def)

lemma reg_inv_frame:
  assumes inv: "reg_inv r" and ext: "heap_ext (heap r) (heap r')" and l: "length (heap r') = length (heap r)"
    and eq: "cfg r' = cfg r" "rcur r' = rcur r" "map dr_pid (drains r') = map dr_pid (drains r)"
  shows "reg_inv r'"
proof -
  have "table_ok (cfg r) (heap r') t" if "rcur r = Some t" for t
    using inv that table_ext [OF _ ext] by (simp add: reg_inv_def)
  moreover have "list_all ident_ok (heap r')"
    using inv ext l by (auto simp: reg_inv_def list_all_length heap_ext_def intro: same_ident)
  ultimately show ?thesis
    using inv l by (simp add: reg_inv_def eq owned_def owners_def prevEntries_def)
qed

lemma updPipe_ext: "(\<And>p. same_id p (f p)) \<Longrightarrow> heap_ext (heap r) (heap (updPipe i f r))"
  by (simp add: updPipe_heap heap_ext_upd)

lemma reg_inv_upd: "reg_inv r \<Longrightarrow> (\<And>p. same_id p (f p)) \<Longrightarrow> reg_inv (updPipe i f r)"
  by (rule reg_inv_frame [where r = r]) (simp_all add: updPipe_ext)

lemma reg_inv_simps [simp]:
  "reg_inv (r\<lparr>processStats := s\<rparr>) = reg_inv r" "reg_inv (r\<lparr>sharedRawCh := c\<rparr>) = reg_inv r"
  "reg_inv (r\<lparr>sharedClosed := b\<rparr>) = reg_inv r" "reg_inv (r\<lparr>panicked := b\<rparr>) = reg_inv r"
  "reg_inv (r\<lparr>demuxHold := d\<rparr>) = reg_inv r" "reg_inv (r\<lparr>demuxRunning := b\<rparr>) = reg_inv r"
  "reg_inv (r\<lparr>demuxDone := b\<rparr>) = reg_inv r" "reg_inv (r\<lparr>KeysReloadFailures := n\<rparr>) = reg_inv r"
  "reg_inv (r\<lparr>LastKeysReloadUnix := u\<rparr>) = reg_inv r" "reg_inv (r\<lparr>InlineProjectsExpired := n\<rparr>) = reg_inv r"
  "reg_inv (bumpSelf f r) = reg_inv r"
  by (simp_all add: reg_inv_def owned_def owners_def prevEntries_def bumpSelf_def)

lemma reload_inv:
  assumes "reg_inv r" and "file_ok first" and "file_ok retry"
  shows "reg_inv (snd (reload first retry now u r))"
proof -
  have "reg_inv (swapTable now u (desiredKeys (cfg r) ks) r)"
    if "first = Inr ks \<or> retry = Inr ks" "\<not> tooMany (cfg r) (length (desiredKeys (cfg r) ks))" for ks
    using that assms by (intro swapTable_inv desiredKeys_ok) (auto simp: file_ok_def)
  then show ?thesis
    using assms(1) by (auto simp: reload_def Let_def split: sum.split option.split)
qed

lemma install_inv:
  assumes "install file now (newRegistry c ps) = Inr r" and "file_ok file"
  shows "reg_inv r \<and> rcur r \<noteq> None" and "list_all (fresh_started c now) (heap r)" and "drains r = []"
    and "\<exists>t h. r = (newRegistry c ps)\<lparr>heap := h, rcur := Some t, demuxRunning := True\<rparr>"
proof -
  let ?r0 = "newRegistry c ps"
  have r0: "heap ?r0 = []" "prevEntries ?r0 = []" "drains ?r0 = []" "cfg ?r0 = c" "rcur ?r0 = None"
    by (simp_all add: newRegistry_def prevEntries_def Let_def)
  obtain fk where fk: "(if KeysFile c \<noteq> [] then file else Inr []) = Inr fk"
    using assms(1) by (auto simp: install_def r0 split: sum.split_asm)
  define ks where "ks = desiredKeys c fk"
  obtain tbl r1 where b: "buildTable now ks [] ?r0 = (tbl, r1)" by fastforce
  have "\<not> tooMany c (length ks)"
    and i: "r = (startNew [] (pipelines tbl) r1)\<lparr>rcur := Some tbl, demuxRunning := True\<rparr>"
    using assms(1) by (auto simp: install_def r0 fk ks_def [symmetric] b Let_def split: if_split_asm)
  moreover have "distinct (map fst fk) \<and> list_all key_entry_ok fk"
    using fk assms(2) by (auto simp: file_ok_def split: if_split_asm)
  ultimately have k: "keys_ok c ks" using desiredKeys_ok by (simp add: ks_def)
  have d: "distinct (map fst ks)" using k by (simp add: keys_ok_def)
  have "reg_inv ?r0" by (simp add: reg_inv_def owned_def owners_def r0)
  then have "reg_inv (swapTable now 0 ks ?r0)" using k r0 by (intro swapTable_inv) simp_all
  moreover have "swapTable now 0 ks ?r0 = (startNew [] (pipelines tbl) r1)\<lparr>rcur := Some tbl, LastKeysReloadUnix := 0\<rparr>"
    using b by (simp add: swapTable_def r0 Let_def)
  ultimately have "reg_inv ((startNew [] (pipelines tbl) r1)\<lparr>rcur := Some tbl\<rparr>)"
    and h: "heap r = heap (swapTable now 0 ks ?r0)"
    by (simp_all add: i)
  then show "reg_inv r \<and> rcur r \<noteq> None" by (simp add: i)
  show "list_all (fresh_started c now) (heap r)"
    using swapTable_heap [of ?r0 ks now 0] k \<open>reg_inv ?r0\<close> by (auto simp: r0 h)
  have "\<exists>h. r1 = ?r0\<lparr>heap := h\<rparr>"
    using buildTable_builds(1) [OF b] d r0(1) by (metis entries_ok_simps)
  then obtain h1 where r1: "r1 = ?r0\<lparr>heap := h1\<rparr>" ..
  show ex: "\<exists>t h. r = ?r0\<lparr>heap := h, rcur := Some t, demuxRunning := True\<rparr>"
    unfolding i startNew_effect r1
    by (intro exI [of _ tbl] exI [of _ "startAll (toStart [] (pipelines tbl)) h1"]) simp
  then show "drains r = []" by (auto simp: r0)
qed

text \<open>\<open>registerInline\<close> adds the project at the end of the table.\<close>

lemma inlinePipeline_simps [simp]:
  "pl_inline (inlinePipeline proj c now)" "pl_apiKey (inlinePipeline proj c now) = []"
  "pl_project (inlinePipeline proj c now) = proj" "pl_started (inlinePipeline proj c now)"
  "\<not> pl_closed (inlinePipeline proj c now)"
  by (simp_all add: inlinePipeline_def start_def newPipeline_def)

lemma ident_inline: "ident_ok (inlinePipeline proj c now)"
  by (simp add: inlinePipeline_def ident_ok_def start_def newPipeline_def newEventsFlusherWithKey_def)

lemma lookup_miss:
  "lookup proj r = (p, False) \<Longrightarrow> proj \<noteq> [] \<Longrightarrow> p = None \<and> map_of (prevEntries r) proj = None"
  by (auto simp: lookup_def prevEntries_def split: option.split_asm if_split_asm)

lemma registerInline_new:
  assumes "lookup proj r = (p, False)" and "proj \<noteq> []"
  shows "registerInline now proj r =
    (if rcur r \<noteq> None \<and> MaxProjects (cfg r) > 0 \<and> int (length (prevEntries r)) \<ge> MaxProjects (cfg r)
     then ((None, False), r)
     else ((Some (length (heap r)), True),
       r\<lparr>heap := heap r @ [inlinePipeline proj (cfg r) now],
         rcur := Some \<lparr>pipelines = prevEntries r @ [(proj, length (heap r))],
           hasDefault = (case rcur r of None \<Rightarrow> False | Some t \<Rightarrow> hasDefault t)\<rparr>,
         InlineProjectsRegistered := InlineProjectsRegistered r + 1\<rparr>))"
proof -
  have "proj \<notin> fst ` set (prevEntries r)"
    using lookup_miss [OF assms] by (metis map_of_eq_None_iff)
  then show ?thesis
    using assms(1) by (simp add: registerInline_def Let_def update_fresh inlinePipeline_def)
qed

lemma registerInline_inv:
  assumes inv: "reg_inv r" and "proj \<noteq> []" and "rcur r \<noteq> None"
  shows "reg_inv (snd (registerInline now proj r)) \<and> rcur (snd (registerInline now proj r)) \<noteq> None"
proof (cases "lookup proj r")
  case (Pair p ok)
  show ?thesis
  proof (cases ok)
    case True
    then show ?thesis using assms Pair by (simp add: registerInline_def)
  next
    case False
    then have l: "lookup proj r = (p, False)" using Pair by simp
    obtain t where t: "rcur r = Some t" using assms(3) by blast
    have pe: "prevEntries r = pipelines t" by (simp add: prevEntries_def t)
    have ok: "table_ok (cfg r) (heap r) t" and id: "list_all ident_ok (heap r)" and o: "owned r"
      using inv t by (simp_all add: reg_inv_def)
    let ?h = "heap r @ [inlinePipeline proj (cfg r) now]"
    let ?t = "pipelines t @ [(proj, length (heap r))]"
    have ext: "table_ok (cfg r) ?h t" by (rule table_ext [OF ok heap_ext_append])
    have new: "proj \<notin> fst ` set (pipelines t)"
      using lookup_miss [OF l assms(2)] by (simp add: pe map_of_eq_None_iff)
    have "entries_ok ?h ?t"
      using ext new by (auto simp: table_ok_def entries_ok_def)
    moreover have "started ?h ?t"
      using ext by (auto simp: table_ok_def started_def)
    moreover have "default_ok ?h \<lparr>pipelines = ?t, hasDefault = hasDefault t\<rparr>"
      using ext by (auto simp: table_ok_def default_ok_def map_add_def split: option.split)
    moreover have "owned (r\<lparr>heap := ?h, rcur := Some \<lparr>pipelines = ?t, hasDefault = hasDefault t\<rparr>\<rparr>)"
    proof -
      have "owners r = map snd (pipelines t) @ map dr_pid (drains r)" by (simp add: owners_def pe)
      moreover from this have "length (heap r) \<notin> set (map snd (pipelines t) @ map dr_pid (drains r))"
        using o by (simp add: owned_def)
      ultimately show ?thesis
        using o by (simp add: owned_def owners_def prevEntries_def lessThan_Suc)
    qed
    moreover have "list_all ident_ok ?h" using id ident_inline by simp
    ultimately have r': "reg_inv (r\<lparr>heap := ?h, rcur := Some \<lparr>pipelines = ?t, hasDefault = hasDefault t\<rparr>,
        InlineProjectsRegistered := InlineProjectsRegistered r + 1\<rparr>)"
      if "\<not> (MaxProjects (cfg r) > 0 \<and> int (length (pipelines t)) \<ge> MaxProjects (cfg r))"
      using that by (auto simp: reg_inv_def table_ok_def owned_def owners_def prevEntries_def)
    then show ?thesis
      using inv by (simp add: registerInline_new [OF l assms(2)] t pe)
  qed
qed

lemma reg_inv_bump [simp]: "reg_inv r \<Longrightarrow> reg_inv (bumpPipe i f r)"
  by (simp add: bumpPipe_def reg_inv_upd same_id_def)

lemma bump_frame_reg [simp]:
  "rcur (bumpSelf f r) = rcur r" "rcur (bumpPipe i g r) = rcur r" "rcur (routingClosed i r) = rcur r"
  by (simp_all add: bumpSelf_def bumpPipe_def routingClosed_def)

lemma reg_inv_routingClosed [simp]: "reg_inv r \<Longrightarrow> reg_inv (routingClosed i r)"
  by (simp add: routingClosed_def)

lemma enqueue_inv: "reg_inv r \<Longrightarrow> reg_inv (snd (enqueue i proj dg r)) \<and> rcur (snd (enqueue i proj dg r)) = rcur r"
  by (auto simp: enqueue_def Let_def reg_inv_upd same_id_def split: sendRes.split)

lemma dispatch_inv:
  assumes "reg_inv r" and "rcur r \<noteq> None"
  shows "reg_inv (snd (dispatch now dg r)) \<and> rcur (snd (dispatch now dg r)) \<noteq> None"
proof -
  let ?f = "extractAndStripRouting (dg_bytes dg)"
  obtain p ok r' where l: "(if \<not> snd (lookup (f_project ?f) r) \<and> InlineTokens (cfg r) \<and> f_token ?f \<noteq> [] \<and> f_project ?f \<noteq> []
      then registerInline now (f_project ?f) r else (lookup (f_project ?f) r, r)) = ((p, ok), r')"
    by (metis surj_pair)
  then have r': "reg_inv r' \<and> rcur r' \<noteq> None"
    using assms registerInline_inv [OF assms(1) _ assms(2), of "f_project ?f" now] by (auto split: if_split_asm)
  then show ?thesis
    using assms enqueue_inv [of r']
    by (auto simp: dispatch_def Let_def l split: option.split)
qed

lemma trySend_same: "trySend dg p = Delivered q \<Longrightarrow> same_id p q"
  by (auto simp: trySend_def same_id_def split: if_split_asm sendRes.split_asm)

lemma demuxOne_inv: "reg_inv r \<Longrightarrow> reg_inv (demuxOne dg r) \<and> rcur (demuxOne dg r) = rcur r"
  by (auto simp: demuxOne_def split: prod.split option.split tryResult.split bool.split
      intro!: reg_inv_frame [where r = r and r' = "updPipe i f r" for i f] dest: trySend_same
      simp: updPipe_heap heap_ext_upd)

lemma split_pids:
  assumes "P \<inter> D = {}" and "L = P - X" and "X \<subseteq> P"
  shows "L \<inter> (D \<union> X) = {}" and "D \<inter> X = {}" and "L \<union> (D \<union> X) = P \<union> D"
  using assms by blast+

text \<open>The pipelines an expiry retires, and the table without them.\<close>

definition retiredPids :: "int \<Rightarrow> int \<Rightarrow> registry \<Rightarrow> nat list" where
  "retiredPids idle now r = map snd (filter (idleInline r (now - idle)) (prevEntries r))"

definition liveTable :: "nat list \<Rightarrow> routingTable \<Rightarrow> routingTable" where
  "liveTable dead t = \<lparr>pipelines = filter (\<lambda>e. snd e \<notin> set dead) (pipelines t), hasDefault = hasDefault t\<rparr>"

lemma expireInline_effect:
  fixes idle now :: int
  assumes "rcur r = Some t"
  defines "dead \<equiv> retiredPids idle now r"
  shows "snd (expireInline idle now r) = (if idle \<le> 0 \<or> dead = [] then r
      else r\<lparr>rcur := Some (liveTable dead t), drains := drains r @ map (drainOf (ShutdownGrace (cfg r)) True) dead\<rparr>)"
  unfolding dead_def
  by (simp add: expireInline_def assms(1) Let_def spawnDrains_effect liveTable_def retiredPids_def prevEntries_def)

lemma liveTable_ok:
  assumes ok: "table_ok c (heap r) t" and t: "rcur r = Some t"
  shows "table_ok c (heap r) (liveTable (retiredPids idle now r) t)"
proof -
  let ?dead = "retiredPids idle now r"
  let ?live = "filter (\<lambda>e. snd e \<notin> set ?dead) (pipelines t)"
  have dead: "?dead = map snd (filter (idleInline r (now - idle)) (pipelines t))"
    by (simp add: retiredPids_def prevEntries_def t)
  have e: "entries_ok (heap r) (pipelines t)" using ok by (simp add: table_ok_def)
  have "map_of ?live DefaultProject = Some i" if "map_of (pipelines t) DefaultProject = Some i" "\<not> pl_inline (heap r ! i)" for i
  proof -
    have "(DefaultProject, i) \<in> set ?live"
      using that by (auto simp: dead idleInline_def dest: map_of_SomeD)
    then show ?thesis using entries_lookup [OF entries_filter [OF e]] by blast
  qed
  moreover have "map_of (pipelines t) n = Some i" if "map_of ?live n = Some i" for n i
    using map_of_SomeD [OF that] entries_lookup [OF e] by simp
  ultimately have "(\<exists>i. map_of ?live DefaultProject = Some i \<and> \<not> pl_inline (heap r ! i)) \<longleftrightarrow>
      (\<exists>i. map_of (pipelines t) DefaultProject = Some i \<and> \<not> pl_inline (heap r ! i))"
    by blast
  then have "default_ok (heap r) (liveTable ?dead t)"
    using ok by (simp add: table_ok_def default_ok_def liveTable_def)
  moreover have "int (length ?live) \<le> MaxProjects c" if "MaxProjects c > 0"
  proof -
    have "int (length ?live) \<le> int (length (pipelines t))" by simp
    also have "\<dots> \<le> MaxProjects c" using ok that by (simp add: table_ok_def)
    finally show ?thesis .
  qed
  moreover have "started (heap r) ?live" using ok by (auto simp: table_ok_def started_def)
  ultimately show ?thesis
    using entries_filter [OF e] by (simp add: liveTable_def table_ok_def)
qed

lemma expireInline_inv:
  assumes inv: "reg_inv r"
  shows "reg_inv (snd (expireInline idle now r)) \<and> (rcur r \<noteq> None \<longrightarrow> rcur (snd (expireInline idle now r)) \<noteq> None)"
proof (cases "rcur r")
  case (Some t)
  let ?dead = "retiredPids idle now r"
  let ?live = "filter (\<lambda>e. snd e \<notin> set ?dead) (pipelines t)"
  have dead: "?dead = map snd (filter (idleInline r (now - idle)) (pipelines t))"
    by (simp add: retiredPids_def prevEntries_def Some)
  have ok: "table_ok (cfg r) (heap r) t" using inv Some by (simp add: reg_inv_def)
  have e: "entries_ok (heap r) (pipelines t)" using ok by (simp add: table_ok_def)
  have d: "distinct (map snd (pipelines t))" by (rule entries_distinct_pids [OF e])
  have o: "distinct (map snd (pipelines t) @ map dr_pid (drains r))"
    "snd ` set (pipelines t) \<union> dr_pid ` set (drains r) = {..< length (heap r)}"
    using inv by (simp_all add: reg_inv_def owned_def owners_def prevEntries_def Some)
  have s: "snd ` set ?live = snd ` set (pipelines t) - set ?dead" "set ?dead \<subseteq> snd ` set (pipelines t)"
    by (auto simp: dead)
  have "distinct ?dead" "distinct (map snd ?live)" using d by (simp_all add: dead distinct_map_filter)
  moreover have "snd ` set (pipelines t) \<inter> dr_pid ` set (drains r) = {}" using o(1) by simp
  note split_pids [OF this s]
  ultimately have "owned (r\<lparr>rcur := Some (liveTable ?dead t),
      drains := drains r @ map (drainOf (ShutdownGrace (cfg r)) True) ?dead\<rparr>)"
    using o by (simp add: owned_def owners_def prevEntries_def liveTable_def comp_def)
  then have "reg_inv (r\<lparr>rcur := Some (liveTable ?dead t),
      drains := drains r @ map (drainOf (ShutdownGrace (cfg r)) True) ?dead\<rparr>)"
    using inv liveTable_ok [OF ok Some] by (simp add: reg_inv_def)
  then show ?thesis using inv by (simp add: expireInline_effect [OF Some])
qed (use inv in \<open>simp add: expireInline_def\<close>)

end
