(* ===== verification/Router.thy ===== *)
theory Router
  imports Registry_Inv
begin

text \<open>
  What the registry promises to the listener, without pointers: a map from projects to credentials (the
  empty credential for a project registered from a datagram), one bounded queue and the counters. The
  concrete \<open>dispatch\<close>, \<open>reload\<close> and \<open>expireInline\<close> implement it, and what each of them does to the
  pipelines is stated on top.
\<close>

section \<open>The abstract router\<close>

record arouter =
  a_routes :: "bytes \<Rightarrow> bytes option"
  aqueue :: "rawDatagram list"
  astats :: selfStats

definition routesOf :: "registry \<Rightarrow> bytes \<Rightarrow> bytes option" where
  "routesOf r n = map_option (\<lambda>i. pl_apiKey (heap r ! i)) (map_of (prevEntries r) n)"

definition absRouter :: "registry \<Rightarrow> arouter" where
  "absRouter r = \<lparr>a_routes = routesOf r, aqueue = buf (sharedRawCh r), astats = processStats r\<rparr>"

text \<open>Where a project goes: datagrams without a project fall back on the default credential.\<close>

definition destination :: "Config \<Rightarrow> (bytes \<Rightarrow> bytes option) \<Rightarrow> bytes \<Rightarrow> bytes option" where
  "destination c rt proj =
     (if proj = [] then
        (if rt DefaultProject \<noteq> Some [] \<and> \<not> RequireProject c then rt DefaultProject else None)
      else rt proj)"

definition roomForProject :: "Config \<Rightarrow> (bytes \<Rightarrow> bytes option) \<Rightarrow> bool" where
  "roomForProject c rt \<longleftrightarrow> MaxProjects c \<le> 0 \<or> int (card (dom rt)) < MaxProjects c"

text \<open>The verdict on a routable datagram: its destination and the routes afterwards.\<close>

definition admit ::
  "Config \<Rightarrow> (bytes \<Rightarrow> bytes option) \<Rightarrow> bytes \<Rightarrow> bytes \<Rightarrow> bytes option \<times> (bytes \<Rightarrow> bytes option)" where
  "admit c rt proj tok =
     (case destination c rt proj of
        Some k \<Rightarrow> (Some k, rt)
      | None \<Rightarrow>
          if InlineTokens c \<and> tok \<noteq> [] \<and> proj \<noteq> [] \<and> roomForProject c rt
          then (Some [], rt(proj \<mapsto> [])) else (None, rt))"

definition aDispatch :: "Config \<Rightarrow> nat \<Rightarrow> rawDatagram \<Rightarrow> arouter \<Rightarrow> arouter" where
  "aDispatch c n dg a =
     (let f = extractAndStripRouting (dg_bytes dg); s = astats a in
      if f_malformed f then a\<lparr>astats := s\<lparr>s_DropsParseError := s_DropsParseError s + 1\<rparr>\<rparr>
      else if f_badProject f then a\<lparr>astats := s\<lparr>s_DropsUnroutedUnknown := s_DropsUnroutedUnknown s + 1\<rparr>\<rparr>
      else if f_badToken f \<and> InlineTokens c then a\<lparr>astats := s\<lparr>s_DropsBadToken := s_DropsBadToken s + 1\<rparr>\<rparr>
      else
        (let tok = (if InlineTokens c then f_token f else dg_token dg);
             body = (if f_removed f then f_stripped f else dg_bytes dg);
             (dest, rt) = admit c (a_routes a) (f_project f) (f_token f);
             a = a\<lparr>a_routes := rt\<rparr>
         in case dest of
              None \<Rightarrow>
                if f_project f = [] then a\<lparr>astats := s\<lparr>s_DropsUnroutedMissing := s_DropsUnroutedMissing s + 1\<rparr>\<rparr>
                else a\<lparr>astats := s\<lparr>s_DropsUnroutedUnknown := s_DropsUnroutedUnknown s + 1\<rparr>\<rparr>
            | Some k \<Rightarrow>
                if k = [] \<and> tok = [] then a\<lparr>astats := s\<lparr>s_DropsMissingToken := s_DropsMissingToken s + 1\<rparr>\<rparr>
                else if length (aqueue a) < n
                then a\<lparr>aqueue := aqueue a @ [dg\<lparr>dg_bytes := body, dg_token := tok, dg_project := f_project f\<rparr>]\<rparr>
                else a))"

section \<open>Routes and tables\<close>

lemma routesOf_frame:
  assumes "prevEntries r' = prevEntries r" and "\<And>i. pl_apiKey (heap r' ! i) = pl_apiKey (heap r ! i)"
  shows "routesOf r' = routesOf r"
  using assms by (simp add: routesOf_def fun_eq_iff)

lemma routesOf_simps [simp]:
  "routesOf (r\<lparr>processStats := s\<rparr>) = routesOf r" "routesOf (r\<lparr>sharedRawCh := c\<rparr>) = routesOf r"
  "routesOf (r\<lparr>drains := d\<rparr>) = routesOf r" "routesOf (r\<lparr>KeysReloadFailures := k\<rparr>) = routesOf r"
  "routesOf (r\<lparr>LastKeysReloadUnix := u\<rparr>) = routesOf r" "routesOf (bumpSelf f r) = routesOf r"
  by (simp_all add: routesOf_def fun_eq_iff prevEntries_def bumpSelf_def)

lemma card_routes: "reg_inv r \<Longrightarrow> card (dom (routesOf r)) = length (prevEntries r)"
proof -
  assume "reg_inv r"
  then have "distinct (map fst (prevEntries r))" using reg_inv_entries by (auto simp: entries_ok_def)
  moreover have "dom (routesOf r) = fst ` set (prevEntries r)"
    by (auto simp: routesOf_def dom_def) (metis map_of_eq_None_iff not_None_eq fst_conv image_eqI)+
  ultimately show ?thesis by (metis distinct_card length_map list.set_map)
qed

lemma reg_inv_pipe:
  assumes "reg_inv r" and "map_of (prevEntries r) n = Some i"
  shows "i < length (heap r)" and "pl_project (heap r ! i) = n" and "ident_ok (heap r ! i)"
  using entries_get [OF reg_inv_entries [OF assms(1)] assms(2)] assms(1)
  by (simp_all add: reg_inv_def list_all_length)

lemma hasDefault_iff:
  assumes "reg_inv r" and "rcur r = Some t"
  shows "hasDefault t \<longleftrightarrow> routesOf r DefaultProject \<noteq> None \<and> routesOf r DefaultProject \<noteq> Some []"
proof -
  have "default_ok (heap r) t" using assms by (simp add: reg_inv_def table_ok_def)
  moreover have "pl_inline (heap r ! i) \<longleftrightarrow> pl_apiKey (heap r ! i) = []"
    if "map_of (pipelines t) DefaultProject = Some i" for i
    using reg_inv_pipe(3) [OF assms(1)] that assms(2) by (simp add: prevEntries_def ident_ok_def)
  ultimately show ?thesis
    by (auto simp: default_ok_def routesOf_def prevEntries_def assms(2))
qed

lemma lookup_routes:
  assumes "reg_inv r" and "rcur r \<noteq> None"
  shows "map_option (\<lambda>i. pl_apiKey (heap r ! i)) (fst (lookup proj r)) = destination (cfg r) (routesOf r) proj"
    and "snd (lookup proj r) \<longleftrightarrow> fst (lookup proj r) \<noteq> None"
    and "fst (lookup proj r) = Some i \<Longrightarrow> map_of (prevEntries r) (if proj = [] then DefaultProject else proj) = Some i"
proof -
  obtain t where t: "rcur r = Some t" using assms(2) by blast
  note h = hasDefault_iff [OF assms(1) t]
  show "map_option (\<lambda>i. pl_apiKey (heap r ! i)) (fst (lookup proj r)) = destination (cfg r) (routesOf r) proj"
    "snd (lookup proj r) \<longleftrightarrow> fst (lookup proj r) \<noteq> None"
    "fst (lookup proj r) = Some i \<Longrightarrow> map_of (prevEntries r) (if proj = [] then DefaultProject else proj) = Some i"
    using h by (auto simp: lookup_def t destination_def routesOf_def prevEntries_def split: if_split_asm)
qed

section \<open>Dispatch\<close>

text \<open>The registry is in service: the shared queue and the pipelines of the table take datagrams.\<close>

definition in_service :: "registry \<Rightarrow> bool" where
  "in_service r \<longleftrightarrow> reg_inv r \<and> rcur r \<noteq> None \<and> \<not> sharedClosed r \<and> \<not> ch_closed (sharedRawCh r) \<and>
     (\<forall>(n, i) \<in> set (prevEntries r). \<not> pl_closed (heap r ! i))"

lemma routesOf_upd [simp]:
  assumes "\<And>p. pl_apiKey (f p) = pl_apiKey p"
  shows "routesOf (updPipe i f r) = routesOf r"
proof (rule routesOf_frame)
  fix j
  show "pl_apiKey (heap (updPipe i f r) ! j) = pl_apiKey (heap r ! j)"
    using assms by (cases "i < length (heap r)") (auto simp: updPipe_heap nth_list_update list_update_beyond)
qed simp

lemma bumpSelf_frame [simp]:
  "sharedRawCh (bumpSelf f r) = sharedRawCh r" "processStats (bumpSelf f r) = f (processStats r)"
  "heap (bumpSelf f r) = heap r" "prevEntries (bumpSelf f r) = prevEntries r" "cfg (bumpSelf f r) = cfg r"
  "sharedClosed (bumpSelf f r) = sharedClosed r" "drains (bumpSelf f r) = drains r"
  "panicked (bumpSelf f r) = panicked r" "demuxHold (bumpSelf f r) = demuxHold r"
  "demuxRunning (bumpSelf f r) = demuxRunning r" "demuxDone (bumpSelf f r) = demuxDone r"
  by (simp_all add: bumpSelf_def prevEntries_def)

lemma bumpPipe_frame [simp]:
  "sharedRawCh (bumpPipe i f r) = sharedRawCh r" "processStats (bumpPipe i f r) = processStats r"
  "routesOf (bumpPipe i f r) = routesOf r" "prevEntries (bumpPipe i f r) = prevEntries r"
  "cfg (bumpPipe i f r) = cfg r" "drains (bumpPipe i f r) = drains r" "panicked (bumpPipe i f r) = panicked r"
  "demuxHold (bumpPipe i f r) = demuxHold r" "length (heap (bumpPipe i f r)) = length (heap r)"
  "sharedClosed (bumpPipe i f r) = sharedClosed r" "demuxRunning (bumpPipe i f r) = demuxRunning r"
  "demuxDone (bumpPipe i f r) = demuxDone r"
  by (simp_all add: bumpPipe_def)

lemma enqueue_abs:
  assumes "reg_inv r" and "i < length (heap r)" and "\<not> pl_closed (heap r ! i)" and "\<not> sharedClosed r"
    and "\<not> ch_closed (sharedRawCh r)"
  defines "k \<equiv> pl_apiKey (heap r ! i)" and "s \<equiv> processStats r"
  shows "absRouter (snd (enqueue i proj dg r)) =
    (if k = [] \<and> dg_token dg = [] then (absRouter r)\<lparr>astats := s\<lparr>s_DropsMissingToken := s_DropsMissingToken s + 1\<rparr>\<rparr>
     else if length (buf (sharedRawCh r)) < cap (sharedRawCh r)
     then (absRouter r)\<lparr>aqueue := buf (sharedRawCh r) @ [dg\<lparr>dg_project := proj\<rparr>]\<rparr>
     else absRouter r)"
proof -
  have "pl_inline (heap r ! i) \<longleftrightarrow> k = []"
    using assms(1,2) by (simp add: reg_inv_def list_all_length ident_ok_def k_def)
  moreover have "heap (updPipe i (lastSeen_update (\<lambda>_. dg_at dg)) r) ! i = (heap r ! i)\<lparr>lastSeen := dg_at dg\<rparr>"
    using assms(2) by (simp add: updPipe_heap)
  ultimately show ?thesis
    using assms(3-5) by (simp add: enqueue_def absRouter_def Let_def chTrySend_def s_def)
qed

lemma registerInline_routes:
  assumes "reg_inv r" and "rcur r \<noteq> None" and "lookup proj r = (p, False)" and "proj \<noteq> []"
  shows "\<not> roomForProject (cfg r) (routesOf r) \<Longrightarrow> registerInline now proj r = ((None, False), r)"
    and "roomForProject (cfg r) (routesOf r) \<Longrightarrow> \<exists>r'. registerInline now proj r = ((Some (length (heap r)), True), r') \<and>
      routesOf r' = (routesOf r)(proj \<mapsto> []) \<and> heap r' = heap r @ [inlinePipeline proj (cfg r) now] \<and>
      prevEntries r' = prevEntries r @ [(proj, length (heap r))] \<and> processStats r' = processStats r \<and>
      sharedRawCh r' = sharedRawCh r \<and> sharedClosed r' = sharedClosed r \<and> cfg r' = cfg r"
proof -
  note n = registerInline_new [OF assms(3,4), of now]
  show "\<not> roomForProject (cfg r) (routesOf r) \<Longrightarrow> registerInline now proj r = ((None, False), r)"
    using assms(2) by (simp add: n roomForProject_def card_routes [OF assms(1)] not_less not_le)
  assume room: "roomForProject (cfg r) (routesOf r)"
  let ?r = "r\<lparr>heap := heap r @ [inlinePipeline proj (cfg r) now],
      rcur := Some \<lparr>pipelines = prevEntries r @ [(proj, length (heap r))],
        hasDefault = (case rcur r of None \<Rightarrow> False | Some t \<Rightarrow> hasDefault t)\<rparr>,
      InlineProjectsRegistered := InlineProjectsRegistered r + 1\<rparr>"
  have "\<not> (0 < MaxProjects (cfg r) \<and> MaxProjects (cfg r) \<le> int (length (prevEntries r)))"
    using room by (auto simp: roomForProject_def card_routes [OF assms(1)])
  then have "registerInline now proj r = ((Some (length (heap r)), True), ?r)"
    by (simp add: n)
  moreover have "prevEntries ?r = prevEntries r @ [(proj, length (heap r))]" by (simp add: prevEntries_def)
  moreover have "routesOf ?r m = ((routesOf r)(proj \<mapsto> [])) m" for m
    using lookup_miss [OF assms(3,4)] reg_inv_pipe(1) [OF assms(1)]
    by (auto simp: routesOf_def calculation(2) map_add_def nth_append split: option.split)
  then have "routesOf ?r = (routesOf r)(proj \<mapsto> [])" by blast
  ultimately show "\<exists>r'. registerInline now proj r = ((Some (length (heap r)), True), r') \<and>
      routesOf r' = (routesOf r)(proj \<mapsto> []) \<and> heap r' = heap r @ [inlinePipeline proj (cfg r) now] \<and>
      prevEntries r' = prevEntries r @ [(proj, length (heap r))] \<and> processStats r' = processStats r \<and>
      sharedRawCh r' = sharedRawCh r \<and> sharedClosed r' = sharedClosed r \<and> cfg r' = cfg r"
    by (intro exI [of _ ?r]) simp
qed

text \<open>Resolving the project: \<open>lookup\<close> and \<open>registerInline\<close> against \<open>admit\<close>.\<close>

definition resolve :: "int \<Rightarrow> routingFields \<Rightarrow> registry \<Rightarrow> (nat option \<times> bool) \<times> registry" where
  "resolve now f r =
     (if \<not> snd (lookup (f_project f) r) \<and> InlineTokens (cfg r) \<and> f_token f \<noteq> [] \<and> f_project f \<noteq> []
      then registerInline now (f_project f) r else (lookup (f_project f) r, r))"

lemma resolve_admit:
  assumes s: "in_service r" and res: "resolve now f r = ((p, ok), r')"
  shows "in_service r'" and "processStats r' = processStats r" and "sharedRawCh r' = sharedRawCh r"
    and "admit (cfg r) (routesOf r) (f_project f) (f_token f) =
      (map_option (\<lambda>i. pl_apiKey (heap r' ! i)) p, routesOf r')"
    and "ok \<longleftrightarrow> p \<noteq> None" and "p = Some i \<Longrightarrow> i < length (heap r') \<and> \<not> pl_closed (heap r' ! i)"
    and "cfg r' = cfg r"
proof -
  have inv: "reg_inv r" "rcur r \<noteq> None" using s by (simp_all add: in_service_def)
  obtain q b where l: "lookup (f_project f) r = (q, b)" by force
  note lr = lookup_routes [OF inv, of "f_project f", unfolded l fst_conv snd_conv]
  have all: "in_service r' \<and> processStats r' = processStats r \<and> sharedRawCh r' = sharedRawCh r \<and>
      admit (cfg r) (routesOf r) (f_project f) (f_token f) =
        (map_option (\<lambda>i. pl_apiKey (heap r' ! i)) p, routesOf r') \<and>
      (ok \<longleftrightarrow> p \<noteq> None) \<and> (\<forall>i. p = Some i \<longrightarrow> i < length (heap r') \<and> \<not> pl_closed (heap r' ! i)) \<and> cfg r' = cfg r"
  proof (cases "\<not> b \<and> InlineTokens (cfg r) \<and> f_token f \<noteq> [] \<and> f_project f \<noteq> []")
    case False
    have "resolve now f r = ((q, b), r)" by (simp only: resolve_def l snd_conv if_not_P [OF False])
    then have e: "p = q" "ok = b" "r' = r" using res by simp_all
    have "(n, i) \<in> set (prevEntries r) \<Longrightarrow> \<not> pl_closed (heap r ! i)" for n i
      using s by (auto simp: in_service_def)
    then have "i < length (heap r) \<and> \<not> pl_closed (heap r ! i)" if "q = Some i" for i
      using lr(3) [OF that] reg_inv_pipe(1) [OF inv(1)] map_of_SomeD by fastforce
    moreover have "admit (cfg r) (routesOf r) (f_project f) (f_token f) =
        (map_option (\<lambda>i. pl_apiKey (heap r ! i)) q, routesOf r)"
      unfolding admit_def lr(1) [symmetric] using False lr(2) by (cases q) auto
    ultimately show ?thesis using s lr(2) e by simp
  next
    case True
    then have l': "lookup (f_project f) r = (q, False)" "f_project f \<noteq> []" and q: "q = None"
      using l lr(2) by simp_all
    have res': "registerInline now (f_project f) r = ((p, ok), r')" using res True by (simp add: resolve_def l)
    have d: "destination (cfg r) (routesOf r) (f_project f) = None" using lr(1) q by simp
    note rr = registerInline_routes [OF inv l', of now]
    show ?thesis
    proof (cases "roomForProject (cfg r) (routesOf r)")
      case False
      then show ?thesis using rr(1) res' s d by (simp add: admit_def)
    next
      case room: True
      have "reg_inv r' \<and> rcur r' \<noteq> None"
        using registerInline_inv [OF inv(1) l'(2) inv(2), of now] res' by simp
      moreover have "(n, i) \<in> set (prevEntries r) \<Longrightarrow> i < length (heap r) \<and> \<not> pl_closed (heap r ! i)" for n i
        using s entries_mem [OF reg_inv_entries [OF inv(1)]] by (auto simp: in_service_def)
      ultimately show ?thesis using rr(2) [OF room] res' s d True room
        by (fastforce simp: admit_def in_service_def nth_append)
    qed
  qed
  then show "in_service r'" "processStats r' = processStats r" "sharedRawCh r' = sharedRawCh r"
    "admit (cfg r) (routesOf r) (f_project f) (f_token f) =
        (map_option (\<lambda>i. pl_apiKey (heap r' ! i)) p, routesOf r')"
    "ok \<longleftrightarrow> p \<noteq> None" "p = Some i \<Longrightarrow> i < length (heap r') \<and> \<not> pl_closed (heap r' ! i)" "cfg r' = cfg r"
    by blast+
qed

lemma absRouter_bumpSelf: "absRouter (bumpSelf f r) = (absRouter r)\<lparr>astats := f (processStats r)\<rparr>"
  by (simp add: absRouter_def)

lemma dispatch_cases:
  defines "f \<equiv> \<lambda>dg. extractAndStripRouting (dg_bytes dg)"
  assumes "resolve now (f dg) r = ((p, ok), r')"
  shows "snd (dispatch now dg r) =
    (if f_malformed (f dg) then bumpSelf (\<lambda>s. s\<lparr>s_DropsParseError := s_DropsParseError s + 1\<rparr>) r
     else if f_badProject (f dg) then bumpSelf (\<lambda>s. s\<lparr>s_DropsUnroutedUnknown := s_DropsUnroutedUnknown s + 1\<rparr>) r
     else if f_badToken (f dg) \<and> InlineTokens (cfg r)
       then bumpSelf (\<lambda>s. s\<lparr>s_DropsBadToken := s_DropsBadToken s + 1\<rparr>) r
     else if \<not> ok then
       (if f_project (f dg) = [] then bumpSelf (\<lambda>s. s\<lparr>s_DropsUnroutedMissing := s_DropsUnroutedMissing s + 1\<rparr>) r'
        else bumpSelf (\<lambda>s. s\<lparr>s_DropsUnroutedUnknown := s_DropsUnroutedUnknown s + 1\<rparr>) r')
     else (case p of None \<Rightarrow> r'\<lparr>panicked := True\<rparr>
       | Some i \<Rightarrow> snd (enqueue i (f_project (f dg))
           (dg\<lparr>dg_bytes := (if f_removed (f dg) then f_stripped (f dg) else dg_bytes dg),
               dg_token := (if InlineTokens (cfg r) then f_token (f dg) else dg_token dg)\<rparr>) r')))"
  using assms(2) by (auto simp: dispatch_def resolve_def f_def Let_def split: option.split)

section \<open>Properties\<close>

text \<open>C7: \<open>dispatch_refines_router\<close>. Seen through its routes, its queue and its counters, dispatching a
  datagram is the abstract router's step: which datagrams are dropped and counted as what, which
  project is registered on demand and what enters the queue depend on nothing else.\<close>

theorem dispatch_refines_router:
  assumes "in_service r"
  shows "absRouter (snd (dispatch now dg r)) = aDispatch (cfg r) (cap (sharedRawCh r)) dg (absRouter r)"
proof -
  let ?f = "extractAndStripRouting (dg_bytes dg)"
  obtain p ok r' where res: "resolve now ?f r = ((p, ok), r')" by (metis surj_pair)
  note a = resolve_admit [OF assms res]
  have abs: "absRouter r' = (absRouter r)\<lparr>a_routes := routesOf r'\<rparr>" using a by (simp add: absRouter_def)
  have adm: "admit (cfg r) (a_routes (absRouter r)) (f_project ?f) (f_token ?f) =
      (map_option (\<lambda>i. pl_apiKey (heap r' ! i)) p, routesOf r')"
    using a(4) by (simp add: absRouter_def)
  have st: "astats (absRouter r) = processStats r" "aqueue (absRouter r) = buf (sharedRawCh r)"
    by (simp_all add: absRouter_def)
  show ?thesis
  proof (cases p)
    case None
    then show ?thesis using a(5)
      by (simp add: dispatch_cases [OF res] aDispatch_def Let_def absRouter_bumpSelf adm abs st a(2))
  next
    case (Some i)
    have e: "reg_inv r'" "i < length (heap r')" "\<not> pl_closed (heap r' ! i)" "\<not> sharedClosed r'"
      "\<not> ch_closed (sharedRawCh r')"
      using a(1,6) Some by (simp_all add: in_service_def)
    show ?thesis using a(5) Some
      by (simp add: dispatch_cases [OF res] aDispatch_def Let_def absRouter_bumpSelf adm enqueue_abs [OF e]
          abs st a(2,3))
  qed
qed

lemma fresh_started_open:
  "fresh_started c now p \<Longrightarrow> \<not> pl_closed p \<and> rawCh p = chMake 16 \<and> batchCh p = chMake 8 \<and>
     pl_stats p = newPipelineStats \<and> batcherHold p = None \<and> flusherHold p = None"
  by (auto simp: fresh_started_def inlinePipeline_def start_def newPipeline_def pipelineHandoffDepth_def)

lemma install_in_service:
  assumes "install file now (newRegistry c ps) = Inr r" and "file_ok file"
  shows "in_service r" and "cfg r = c"
proof -
  note i = install_inv [OF assms]
  obtain t h where r: "r = (newRegistry c ps)\<lparr>heap := h, rcur := Some t, demuxRunning := True\<rparr>" using i(4) by blast
  have "\<not> pl_closed (heap r ! j)" if "j < length (heap r)" for j
    using i(2) that fresh_started_open by (auto simp: list_all_length)
  then have "\<forall>(n, j) \<in> set (prevEntries r). \<not> pl_closed (heap r ! j)"
    using i(1) entries_mem [OF reg_inv_entries] by blast
  then show "in_service r" using i(1) by (simp add: in_service_def) (simp add: r newRegistry_def chMake_def Let_def)
  show "cfg r = c" by (simp add: r newRegistry_def Let_def)
qed

text \<open>An agent with one API key, inline tokens and a keys file that is still empty, just installed.\<close>

definition sampleConfig :: Config where
  "sampleConfig = (defaultConfig emptyEnv)\<lparr>APIKey := ''k'', KeysFile := ''/m/keys.json''\<rparr>"

definition sampleRegistry :: registry where
  "sampleRegistry =
     (newRegistry sampleConfig (newSelfStats 0))\<lparr>heap := [start (newPipeline DefaultProject ''k'' sampleConfig 0)],
       rcur := Some \<lparr>pipelines = [(DefaultProject, 0)], hasDefault = True\<rparr>, demuxRunning := True\<rparr>"

lemma sample_install: "install (Inr []) 0 (newRegistry sampleConfig (newSelfStats 0)) = Inr sampleRegistry"
  by (simp add: install_def newRegistry_def sampleConfig_def defaultConfig_def emptyEnv_def desiredKeys_def
      tooMany_def buildTable_def sampleRegistry_def Let_def startPipe_def updPipe_def)

lemma sample_in_service: "in_service sampleRegistry"
  using install_in_service [OF sample_install] by (simp add: file_ok_def)

definition sampleDatagram :: rawDatagram where
  "sampleDatagram =
     \<lparr>dg_bytes = ''{\"_project\":\"a\",\"_token\":\"t\",\"x\":1}'', dg_at = 5, dg_project = [], dg_token = []\<rparr>"

lemma sample_extract:
  "extractAndStripRouting (dg_bytes sampleDatagram) =
     \<lparr>f_project = ''a'', f_token = ''t'', f_stripped = ''{\"x\":1}'', f_removed = True, f_malformed = False,
      f_badProject = False, f_badToken = False\<rparr>"
  by code_simp

lemma sample_routes: "routesOf sampleRegistry = [DefaultProject \<mapsto> ''k'']"
  by (simp add: routesOf_def sampleRegistry_def prevEntries_def start_def newPipeline_def fun_eq_iff)

lemma sample_fields [simp]:
  "cfg sampleRegistry = sampleConfig" "InlineTokens sampleConfig" "MaxProjects sampleConfig = 0"
  "buf (sharedRawCh sampleRegistry) = []" "cap (sharedRawCh sampleRegistry) = 2000"
  by (simp_all add: sampleRegistry_def newRegistry_def sampleConfig_def defaultConfig_def chMake_def Let_def)

theorem dispatch_refines_router_witness:
  "routesOf (snd (dispatch 0 sampleDatagram sampleRegistry)) = [DefaultProject \<mapsto> ''k'', ''a'' \<mapsto> []] \<and>
   map dg_bytes (buf (sharedRawCh (snd (dispatch 0 sampleDatagram sampleRegistry)))) = [''{\"x\":1}'']"
proof -
  let ?a = "absRouter (snd (dispatch 0 sampleDatagram sampleRegistry))"
  have "a_routes ?a = [DefaultProject \<mapsto> ''k'', ''a'' \<mapsto> []] \<and> map dg_bytes (aqueue ?a) = [''{\"x\":1}'']"
    unfolding dispatch_refines_router [OF sample_in_service]
    by (simp add: aDispatch_def sample_extract Let_def
        admit_def destination_def absRouter_def sample_routes roomForProject_def DefaultProject_def)
  then show ?thesis by (simp add: absRouter_def)
qed

section \<open>Reloading\<close>

text \<open>The keys file a reload acts on: the second read counts only when the first failed.\<close>

definition keysRead ::
  "(keysError + (bytes \<times> bytes) list) \<Rightarrow> (keysError + (bytes \<times> bytes) list) \<Rightarrow> keysError + (bytes \<times> bytes) list" where
  "keysRead first retry = (case first of Inl _ \<Rightarrow> retry | Inr ks \<Rightarrow> Inr ks)"

lemma reload_Reloaded:
  assumes "reload first retry now u r = (Reloaded, r')"
  obtains ks where "keysRead first retry = Inr ks" "\<not> tooMany (cfg r) (length (desiredKeys (cfg r) ks))"
    "r' = swapTable now u (desiredKeys (cfg r) ks) r"
  using assms
  by (auto simp: reload_def keysRead_def Let_def split: sum.split_asm if_split_asm option.split_asm)

lemma reload_keeps:
  assumes "reload first retry now u r = (o', r')" and "o' \<noteq> Reloaded"
  shows "rcur r' = rcur r" and "heap r' = heap r" and "drains r' = drains r"
  using assms
  by (auto simp: reload_def Let_def split: sum.split_asm if_split_asm option.split_asm)

lemma builds_routes:
  assumes b: "builds c now (prevEntries r) ks (heap r) h1 es" and p: "entries_ok (heap r) (prevEntries r)"
    and d: "distinct (map fst ks)"
  shows "map_option (\<lambda>i. pl_apiKey (h1 ! i)) (map_of es n) = map_of ks n"
proof (cases "map_of es n")
  case None
  then have "n \<notin> fst ` set es" by (simp add: map_of_eq_None_iff)
  then have "n \<notin> fst ` set ks" using builds_names [OF b] by (metis list.set_map)
  then show ?thesis using None by (metis map_of_eq_None_iff option.map(1))
next
  case (Some i)
  obtain e where e: "e \<in> set ks" "built c now (prevEntries r) (heap r) h1 e (n, i)"
    using builds_entry [OF b map_of_SomeD [OF Some]] .
  have n: "n = fst e" using e(2) by (simp add: built_def)
  obtain ps where h1: "h1 = heap r @ ps" using b by (auto simp: builds_def)
  have "pl_apiKey (h1 ! i) = snd e"
  proof (cases "reuses (heap r) (prevEntries r) e")
    case True
    then have "map_of (prevEntries r) n = Some i" "pl_apiKey (heap r ! i) = snd e"
      using e(2) by (auto simp: built_def reuses_def)
    then show ?thesis using entries_get [OF p] by (simp add: h1 nth_append)
  qed (use e(2) in \<open>simp add: built_def newPipeline_def\<close>)
  moreover have "map_of ks n = Some (snd e)" using d e(1) n by (metis map_of_eq_Some_iff prod.collapse)
  ultimately show ?thesis using Some by simp
qed

lemma swapTable_routes:
  fixes now u :: int
  assumes inv: "reg_inv r" and k: "keys_ok (cfg r) ks"
  defines "r' \<equiv> swapTable now u ks r"
  shows "routesOf r' = map_of ks"
    and "map_of (prevEntries r) n = Some i \<Longrightarrow>
      (map_of (prevEntries r') n = Some i) = (routesOf r n = routesOf r' n)"
    and "\<exists>new. drains r' = drains r @ map (drainOf (ShutdownGrace (cfg r)) False) new \<and>
      set new = {i. \<exists>n. map_of (prevEntries r) n = Some i \<and> routesOf r n \<noteq> routesOf r' n}"
proof -
  have p: "entries_ok (heap r) (prevEntries r)" using inv by (rule reg_inv_entries)
  have d: "distinct (map fst ks)" using k by (simp add: keys_ok_def)
  obtain h1 es where b: "builds (cfg r) now (prevEntries r) ks (heap r) h1 es"
    and s: "r' = r\<lparr>heap := startAll (toStart (prevEntries r) es) h1,
        rcur := Some \<lparr>pipelines = es, hasDefault = (map_of es DefaultProject \<noteq> None)\<rparr>,
        drains := drains r @ map (drainOf (ShutdownGrace (cfg r)) False) (stale es (prevEntries r)),
        LastKeysReloadUnix := u\<rparr>"
    using swapTable_effect [OF p d, of now u] unfolding r'_def .
  note e = builds_entries_ok(1) [OF b p d]
  have pe: "prevEntries r' = es" by (simp add: s prevEntries_def)
  have rt: "routesOf r' m = map_of ks m" for m
  proof -
    have "pl_apiKey (heap r' ! i) = pl_apiKey (h1 ! i)" if "map_of es m = Some i" for i
      using entries_get [OF e that] by (simp add: s nth_startAll start_def)
    then have "routesOf r' m = map_option (\<lambda>i. pl_apiKey (h1 ! i)) (map_of es m)"
      by (cases "map_of es m") (simp_all add: routesOf_def pe)
    then show ?thesis using builds_routes [OF b p d] by simp
  qed
  then show "routesOf r' = map_of ks" by blast
  have same: "(map_of es n = Some i) = (routesOf r n = routesOf r' n)" if n: "map_of (prevEntries r) n = Some i" for n i
  proof
    assume es: "map_of es n = Some i"
    have "i < length (heap r)" using entries_get [OF p n] by blast
    moreover obtain ps where "h1 = heap r @ ps" using b by (auto simp: builds_def)
    ultimately have "pl_apiKey (h1 ! i) = pl_apiKey (heap r ! i)" by (simp add: nth_append)
    then show "routesOf r n = routesOf r' n"
      using builds_routes [OF b p d, of n] es n by (simp add: rt routesOf_def [of r])
  next
    assume "routesOf r n = routesOf r' n"
    then have kn: "map_of ks n = Some (pl_apiKey (heap r ! i))" using n by (simp add: rt) (simp add: routesOf_def)
    then obtain j where j: "map_of es n = Some j" using builds_routes [OF b p d, of n] by auto
    obtain e where "e \<in> set ks" "built (cfg r) now (prevEntries r) (heap r) h1 e (n, j)"
      using builds_entry [OF b map_of_SomeD [OF j]] .
    moreover from this have "e = (n, pl_apiKey (heap r ! i))"
      using kn d by (metis built_def fst_conv map_of_eq_Some_iff option.inject prod.collapse)
    ultimately show "map_of es n = Some i" using n j by (auto simp: built_def reuses_def)
  qed
  then show "map_of (prevEntries r) n = Some i \<Longrightarrow>
      (map_of (prevEntries r') n = Some i) = (routesOf r n = routesOf r' n)"
    by (simp add: pe)
  have "set (stale es (prevEntries r)) = {i. \<exists>n. map_of (prevEntries r) n = Some i \<and> map_of es n \<noteq> Some i}"
    using entries_lookup [OF p] by (force simp: stale_def image_iff)
  then show "\<exists>new. drains r' = drains r @ map (drainOf (ShutdownGrace (cfg r)) False) new \<and>
      set new = {i. \<exists>n. map_of (prevEntries r) n = Some i \<and> routesOf r n \<noteq> routesOf r' n}"
    using same by (intro exI [of _ "stale es (prevEntries r)"]) (auto simp: s)
qed


lemma sample_reload:
  "fst (reload (Inr [(''web'', ''k1'')]) (Inl BadJSON) 7 9 sampleRegistry) = Reloaded"
  by (simp add: reload_def sampleRegistry_def newRegistry_def Let_def sampleConfig_def defaultConfig_def
      tooMany_def keysUnchanged_def desiredKeys_def DefaultProject_def)


lemma inline_changes_keys:
  assumes inv: "reg_inv r" and t: "rcur r = Some t" and k: "keys_ok (cfg r) ks"
    and n: "map_of (prevEntries r) n = Some i" and inl: "pl_inline (heap r ! i)"
  shows "\<not> keysUnchanged t ks r"
proof
  assume u: "keysUnchanged t ks r"
  have pe: "prevEntries r = pipelines t" by (simp add: prevEntries_def t)
  have d: "distinct (map fst (pipelines t))"
    using reg_inv_entries [OF inv] by (simp add: entries_ok_def pe)
  have "map_of (pipelines t) m \<noteq> None" if "m \<in> fst ` set ks" for m
    using u that by (fastforce simp: keysUnchanged_def list_all_iff split: option.split_asm)
  then have "fst ` set ks \<subseteq> fst ` set (pipelines t)" by (metis map_of_eq_None_iff subsetI)
  moreover have "card (fst ` set ks) = length ks" "card (fst ` set (pipelines t)) = length (pipelines t)"
    using d k distinct_card by (fastforce simp: keys_ok_def)+
  ultimately have "fst ` set ks = fst ` set (pipelines t)"
    using u by (intro card_subset_eq) (simp_all add: keysUnchanged_def)
  moreover have "n \<in> fst ` set (pipelines t)" using n by (metis map_of_eq_None_iff option.distinct(1) pe)
  ultimately have "n \<in> fst ` set ks" by simp
  then obtain kk where kk: "(n, kk) \<in> set ks" by auto
  then have "pl_apiKey (heap r ! i) = kk"
    using u n by (fastforce simp: keysUnchanged_def list_all_iff pe split: option.split_asm)
  moreover have "pl_apiKey (heap r ! i) = []"
    using reg_inv_pipe(3) [OF inv n] inl by (simp add: ident_ok_def)
  ultimately show False using k kk by (auto simp: keys_ok_def)
qed

text \<open>C34: \<open>reload_retires_inline_projects\<close>. A reload, also the periodic one of a keys file that did not
  change, is never a quiet no-op while a project registered from a datagram is live: the project is
  dropped from the table and its pipeline drained.\<close>

theorem reload_retires_inline_projects:
  assumes "reg_inv r" and "KeysFile (cfg r) \<noteq> []" and "file_ok first" and "file_ok retry"
    and "keysRead first retry = Inr ks" and "\<not> tooMany (cfg r) (length (desiredKeys (cfg r) ks))"
    and "map_of (prevEntries r) n = Some i" and "pl_inline (heap r ! i)"
  shows "fst (reload first retry now u r) = Reloaded \<and>
    i \<in> dr_pid ` set (drains (snd (reload first retry now u r))) \<and>
    map_of (prevEntries (snd (reload first retry now u r))) n \<noteq> Some i"
proof -
  obtain t where t: "rcur r = Some t" using assms(7) by (auto simp: prevEntries_def split: option.split_asm)
  have "distinct (map fst ks) \<and> list_all key_entry_ok ks"
    using assms(3-5) by (auto simp: keysRead_def file_ok_def split: sum.split_asm)
  then have k: "keys_ok (cfg r) (desiredKeys (cfg r) ks)" using assms(6) desiredKeys_ok by blast
  have out: "reload first retry now u r = (Reloaded, swapTable now u (desiredKeys (cfg r) ks) r)"
    using inline_changes_keys [OF assms(1) t k assms(7,8)] assms(2,5,6) t
    by (auto simp: reload_def keysRead_def Let_def split: sum.split_asm)
  let ?r = "swapTable now u (desiredKeys (cfg r) ks) r"
  note s = swapTable_routes [OF assms(1) k, where now = now and u = u]
  have "routesOf r n = Some []"
    using assms(7,8) reg_inv_pipe(3) [OF assms(1,7)] by (simp add: routesOf_def ident_ok_def)
  moreover have "routesOf ?r n \<noteq> Some []"
    unfolding s(1) using k by (auto simp: keys_ok_def dest!: map_of_SomeD)
  ultimately have "routesOf r n \<noteq> routesOf ?r n" by metis
  moreover obtain new where "drains ?r = drains r @ map (drainOf (ShutdownGrace (cfg r)) False) new"
    "set new = {i. \<exists>n. map_of (prevEntries r) n = Some i \<and> routesOf r n \<noteq> routesOf ?r n}"
    using s(3) by blast
  ultimately have d: "i \<in> set new" "routesOf r n \<noteq> routesOf ?r n"
    "drains ?r = drains r @ map (drainOf (ShutdownGrace (cfg r)) False) new"
    using assms(7) by blast+
  then have "drainOf (ShutdownGrace (cfg r)) False i \<in> set (drains ?r)" by simp
  then have "i \<in> dr_pid ` set (drains ?r)" using dr_pid_drainOf(1) by (metis image_eqI)
  then show ?thesis using s(2) [OF assms(7)] d(2) by (simp add: out)
qed

lemma enqueue_frame:
  "prevEntries (snd (enqueue i proj dg r)) = prevEntries r" "cfg (snd (enqueue i proj dg r)) = cfg r"
  "heap_ext (heap r) (heap (snd (enqueue i proj dg r)))"
proof -
  have "prevEntries (snd (enqueue i proj dg r)) = prevEntries r \<and> cfg (snd (enqueue i proj dg r)) = cfg r"
    by (auto simp: enqueue_def Let_def routingClosed_def prevEntries_def bumpSelf_def bumpPipe_def updPipe_def
        split: sendRes.split)
  then show "prevEntries (snd (enqueue i proj dg r)) = prevEntries r" "cfg (snd (enqueue i proj dg r)) = cfg r"
    by simp_all
  have b: "heap_ext (heap q) (heap (bumpPipe i g q))" for g q
    by (simp add: bumpPipe_def updPipe_ext same_id_def)
  moreover have u: "heap_ext (heap r) (heap (updPipe i (lastSeen_update (\<lambda>_. t)) r))" for t
    by (simp add: updPipe_ext same_id_def)
  ultimately show "heap_ext (heap r) (heap (snd (enqueue i proj dg r)))"
    by (auto simp: enqueue_def Let_def routingClosed_def intro: heap_ext_trans [OF u] split: sendRes.split)
qed

lemma sample_inline:
  defines "r \<equiv> snd (dispatch 0 sampleDatagram sampleRegistry)"
  shows "reg_inv r" and "map_of (prevEntries r) ''a'' = Some 1" and "pl_inline (heap r ! 1)" and "cfg r = sampleConfig"
proof -
  have s: "reg_inv sampleRegistry" "rcur sampleRegistry \<noteq> None"
    using sample_in_service by (simp_all add: in_service_def)
  show "reg_inv r" using dispatch_inv [OF s] by (simp add: r_def)
  have l: "lookup ''a'' sampleRegistry = (None, False)"
    by (simp add: lookup_def sampleRegistry_def DefaultProject_def)
  have h: "length (heap sampleRegistry) = 1" "prevEntries sampleRegistry = [(DefaultProject, 0)]"
    by (simp_all add: sampleRegistry_def prevEntries_def)
  obtain r' where r': "registerInline 0 ''a'' sampleRegistry = ((Some 1, True), r')"
    "heap r' = heap sampleRegistry @ [inlinePipeline ''a'' sampleConfig 0]"
    "prevEntries r' = [(DefaultProject, 0), (''a'', 1)]" "cfg r' = sampleConfig"
    using registerInline_routes(2) [OF s l, of 0] h by (auto simp: roomForProject_def)
  have res: "resolve 0 (extractAndStripRouting (dg_bytes sampleDatagram)) sampleRegistry = ((Some 1, True), r')"
    by (simp add: resolve_def sample_extract l r'(1))
  obtain dg where e: "r = snd (enqueue 1 ''a'' dg r')"
    by (simp add: r_def dispatch_cases [OF res] sample_extract)
  show "map_of (prevEntries r) ''a'' = Some 1" "cfg r = sampleConfig"
    by (simp_all add: e enqueue_frame r' DefaultProject_def)
  have "same_id (heap r' ! 1) (heap r ! 1)"
    using enqueue_frame(3) [of r' 1 "''a''" dg] h by (simp add: heap_ext_def e r')
  then show "pl_inline (heap r ! 1)" using h by (simp add: same_id_def r'(2) nth_append)
qed

theorem reload_retires_inline_projects_witness:
  "1 \<in> dr_pid ` set (drains (snd (reload (Inr []) (Inl BadJSON) 7 9 (snd (dispatch 0 sampleDatagram sampleRegistry)))))"
proof -
  have "KeysFile sampleConfig \<noteq> []" by (simp add: sampleConfig_def)
  then show ?thesis
    using reload_retires_inline_projects [OF sample_inline(1) _ _ _ _ _ sample_inline(2,3),
        of "Inr []" "Inl BadJSON" "[]"]
    by (simp add: sample_inline(4) file_ok_def keysRead_def tooMany_def)
qed

end
