(* ===== verification/Listener.thy ===== *)
theory Listener
  imports Router
begin

text \<open>
  \<open>src/listener.go\<close>: binding the socket, and the read loop that hands each datagram to a \<open>listenSink\<close>.
  The sink is an interface of the program and a locale here: what the loop relies on is that a
  dispatch accounts for its datagram once, unless it reports a full queue, which the loop accounts
  itself. The registry is the sink the agent runs with.
\<close>

section \<open>The read loop\<close>

definition readErrBackoffCap :: int where "readErrBackoffCap = 250 * 1000000"

definition nextBackoff :: "int \<Rightarrow> int" where
  "nextBackoff d =
     (if d = 0 then 10 * 1000000
      else if d < readErrBackoffCap then
        (let d = d * 2 in if d > readErrBackoffCap then readErrBackoffCap else d)
      else d)"

text \<open>What \<open>ReadFrom\<close> gives: a datagram and the time it is stamped with, or an error, with whether the
  context is done right away and whether it is done during the wait.\<close>

datatype readEvent = ReadOK bytes int | ReadError bool bool

text \<open>One datagram: count it, dispatch it, account a full queue.\<close>

definition listenOne ::
  "(rawDatagram \<Rightarrow> 's \<Rightarrow> dispatchResult \<times> 's) \<Rightarrow> ((selfStats \<Rightarrow> selfStats) \<Rightarrow> 's \<Rightarrow> 's) \<Rightarrow> bytes \<Rightarrow> int \<Rightarrow> 's \<Rightarrow> 's" where
  "listenOne disp bump b at s =
     (let s = bump (\<lambda>c. c\<lparr>s_EventsReceived := s_EventsReceived c + 1\<rparr>) s in
      case disp \<lparr>dg_bytes = b, dg_at = at, dg_project = [], dg_token = []\<rparr> s of
        (res, s) \<Rightarrow>
          if res = DQueueFull then bump (\<lambda>c. c\<lparr>s_DropsQueueFull := s_DropsQueueFull c + 1\<rparr>) s else s)"

text \<open>The loop with its waiting times; it returns at the end of the context.\<close>

fun listenLoop ::
  "(rawDatagram \<Rightarrow> 's \<Rightarrow> dispatchResult \<times> 's) \<Rightarrow> ((selfStats \<Rightarrow> selfStats) \<Rightarrow> 's \<Rightarrow> 's) \<Rightarrow> readEvent list
     \<Rightarrow> int \<Rightarrow> 's \<Rightarrow> int list \<times> 's" where
  "listenLoop disp bump [] d s = ([], s)"
| "listenLoop disp bump (ReadOK b at # es) d s = listenLoop disp bump es 0 (listenOne disp bump b at s)"
| "listenLoop disp bump (ReadError ended waitEnded # es) d s =
     (if ended then ([], s)
      else
        (let s = bump (\<lambda>c. c\<lparr>s_ReadErrors := s_ReadErrors c + 1\<rparr>) s;
             d = nextBackoff d
         in if waitEnded then ([d], s)
            else (case listenLoop disp bump es d s of (ds, s') \<Rightarrow> (d # ds, s'))))"

text \<open>The read buffer: one byte more than the largest event, so that a larger one is seen as oversize.\<close>

definition readBufSize :: "int \<Rightarrow> int" where
  "readBufSize n = (if n \<le> 0 then DefaultMaxEventBytes + 1 else n)"

section \<open>Binding the socket\<close>

text \<open>The answers of the operating system; \<open>statSocket\<close> is \<open>None\<close> when the path does not exist.\<close>

record bindEnv =
  statSocket :: "bool option"
  removeOK :: bool
  resolveOK :: bool
  listenOK :: bool
  setBufOK :: bool
  chmodOK :: bool

datatype bindAction = Unlink | Bind | CloseConn

datatype bindError = PathEmpty | NotASocket | RemoveStale | ResolveAddr | ListenUnixgram | ChmodFailed

definition bindUnixgram :: "bindEnv \<Rightarrow> selfStats \<Rightarrow> (bindError + unit) \<times> bindAction list \<times> selfStats" where
  "bindUnixgram e s =
     (case statSocket e of
        Some False \<Rightarrow> (Inl NotASocket, [], s)
      | st \<Rightarrow>
          if st = Some True \<and> \<not> removeOK e then (Inl RemoveStale, [], s)
          else
            (let acts = (if st = Some True then [Unlink] else []) in
             if \<not> resolveOK e then (Inl ResolveAddr, acts, s)
             else if \<not> listenOK e then (Inl ListenUnixgram, acts, s)
             else
               (let s = (if setBufOK e then s else s\<lparr>s_BufferDegraded := True\<rparr>) in
                if \<not> chmodOK e then (Inl ChmodFailed, acts @ [Bind, CloseConn, Unlink], s)
                else (Inr (), acts @ [Bind], s))))"

text \<open>\<open>listen\<close> as a whole: nothing without a path or a socket, else the loop until the context ends.\<close>

definition listen ::
  "(rawDatagram \<Rightarrow> 's \<Rightarrow> dispatchResult \<times> 's) \<Rightarrow> ((selfStats \<Rightarrow> selfStats) \<Rightarrow> 's \<Rightarrow> 's) \<Rightarrow> ('s \<Rightarrow> selfStats)
     \<Rightarrow> bytes \<Rightarrow> bindEnv \<Rightarrow> readEvent list \<Rightarrow> 's \<Rightarrow> (bindError + int list) \<times> 's" where
  "listen disp bump stats path e es s =
     (if path = [] then (Inl PathEmpty, s)
      else
        (case bindUnixgram e (stats s) of (res, acts, c) \<Rightarrow>
          (let s = bump (\<lambda>_. c) s in
           case res of
             Inl err \<Rightarrow> (Inl err, s)
           | Inr _ \<Rightarrow> (case listenLoop disp bump es 0 s of (ds, s) \<Rightarrow> (Inr ds, s)))))"

section \<open>The contract of a sink\<close>

text \<open>\<open>acct\<close> is what the sink has accounted for: queued, sent and dropped datagrams, as a 64-bit count.\<close>

locale listen_sink =
  fixes disp :: "rawDatagram \<Rightarrow> 's \<Rightarrow> dispatchResult \<times> 's"
    and bump :: "(selfStats \<Rightarrow> selfStats) \<Rightarrow> 's \<Rightarrow> 's"
    and stats :: "'s \<Rightarrow> selfStats"
    and acct :: "'s \<Rightarrow> u64"
    and ok :: "'s \<Rightarrow> bool"
  assumes bump_stats: "stats (bump f s) = f (stats s)"
    and bump_acct: "acct (bump (\<lambda>c. c\<lparr>s_EventsReceived := x\<rparr>) s) = acct s"
      "acct (bump (\<lambda>c. c\<lparr>s_DropsQueueFull := s_DropsQueueFull c + 1\<rparr>) s) = acct s + 1"
      "acct (bump (\<lambda>c. c\<lparr>s_ReadErrors := y\<rparr>) s) = acct s"
    and bump_cong: "f (stats s) = g (stats s) \<Longrightarrow> bump f s = bump g s"
    and bump_ok: "ok s \<Longrightarrow> ok (bump f s)"
    and disp_acct: "ok s \<Longrightarrow> disp dg s = (res, s') \<Longrightarrow> acct s' = acct s + (if res = DQueueFull then 0 else 1)"
    and disp_received: "ok s \<Longrightarrow> disp dg s = (res, s') \<Longrightarrow> s_EventsReceived (stats s') = s_EventsReceived (stats s)"
    and disp_ok: "ok s \<Longrightarrow> disp dg s = (res, s') \<Longrightarrow> ok s'"
begin

lemma listenOne_balance:
  assumes "ok s"
  shows "ok (listenOne disp bump b at s) \<and>
    s_EventsReceived (stats (listenOne disp bump b at s)) - acct (listenOne disp bump b at s) =
      s_EventsReceived (stats s) - acct s"
proof -
  let ?s1 = "bump (\<lambda>c. c\<lparr>s_EventsReceived := s_EventsReceived c + 1\<rparr>) s"
  have "?s1 = bump (\<lambda>c. c\<lparr>s_EventsReceived := s_EventsReceived (stats s) + 1\<rparr>) s"
    by (rule bump_cong) simp
  then have a1: "acct ?s1 = acct s" by (simp add: bump_acct)
  obtain res s2 where d: "disp \<lparr>dg_bytes = b, dg_at = at, dg_project = [], dg_token = []\<rparr> ?s1 = (res, s2)" by force
  have o1: "ok ?s1" using assms bump_ok by blast
  note f = disp_acct [OF o1 d] disp_received [OF o1 d] disp_ok [OF o1 d]
  show ?thesis
    using f a1 bump_ok by (simp add: listenOne_def d bump_stats bump_acct)
qed

text \<open>Over any run of the loop, every datagram received is accounted for.\<close>

lemma listenLoop_balance:
  "ok s \<Longrightarrow> listenLoop disp bump es d s = (ds, s') \<Longrightarrow>
     ok s' \<and> s_EventsReceived (stats s') - acct s' = s_EventsReceived (stats s) - acct s"
proof (induction es arbitrary: d s ds)
  case (Cons e es)
  show ?case
  proof (cases e)
    case (ReadOK b at)
    then show ?thesis using Cons listenOne_balance [OF Cons.prems(1), of b at] by auto
  next
    case (ReadError ended w)
    let ?s = "bump (\<lambda>c. c\<lparr>s_ReadErrors := s_ReadErrors c + 1\<rparr>) s"
    have "?s = bump (\<lambda>c. c\<lparr>s_ReadErrors := s_ReadErrors (stats s) + 1\<rparr>) s"
      by (rule bump_cong) simp
    then have s: "ok ?s" "acct ?s = acct s" "s_EventsReceived (stats ?s) = s_EventsReceived (stats s)"
      using Cons.prems(1) bump_ok by (simp_all add: bump_acct bump_stats)
    show ?thesis
    proof (cases "ended \<or> w")
      case False
      then obtain ds' where "listenLoop disp bump es (nextBackoff d) ?s = (ds', s')"
        using Cons.prems(2) ReadError by (auto simp: Let_def split: prod.split_asm)
      then show ?thesis using Cons.IH [OF s(1)] s by simp
    qed (use Cons.prems ReadError s in \<open>auto simp: Let_def split: if_split_asm\<close>)
  qed
qed simp

end

end
