(* ===== verification/Ledger.thy ===== *)
theory Ledger
  imports Listener
begin

text \<open>
  Where a datagram can be: the sums over queues and counters that the operations of the registry keep,
  all modulo \<open>2 ^ 64\<close> as the counters themselves.
\<close>

section \<open>Sums over the heap\<close>

definition heapSum :: "(pipeline \<Rightarrow> u64) \<Rightarrow> pipeline list \<Rightarrow> u64" where
  "heapSum f h = (\<Sum>p\<leftarrow>h. f p)"

lemma heapSum_simps [simp]:
  "heapSum f [] = 0" "heapSum f (p # h) = f p + heapSum f h" "heapSum f (h @ h') = heapSum f h + heapSum f h'"
  by (simp_all add: heapSum_def)

lemma heapSum_upd: "i < length h \<Longrightarrow> heapSum f (h[i := q]) = heapSum f h - f (h ! i) + f q"
proof (induction h arbitrary: i)
  case (Cons p h)
  then show ?case by (cases i) (simp_all add: algebra_simps)
qed simp

lemma heapSum_same: "f q = f (h ! i) \<Longrightarrow> heapSum f (h[i := q]) = heapSum f h"
  by (cases "i < length h") (simp_all add: heapSum_upd list_update_beyond)

lemma heapSum_zero: "(\<And>p. p \<in> set h \<Longrightarrow> f p = 0) \<Longrightarrow> heapSum f h = 0"
  by (induction h) simp_all

section \<open>What is accounted for\<close>

definition held :: "'a option \<Rightarrow> u64" where
  "held x = (case x of None \<Rightarrow> 0 | Some _ \<Rightarrow> 1)"

lemma held_simps [simp]: "held None = 0" "held (Some x) = 1"
  by (simp_all add: held_def)

text \<open>Datagrams a pipeline has in front of its batcher, has taken in, or refused at a full handoff.\<close>

definition pipeAcct :: "pipeline \<Rightarrow> u64" where
  "pipeAcct p = of_nat (length (buf (rawCh p))) + held (batcherHold p) + p_EventsReceived (pl_stats p)
     + p_DropsQueueFull (pl_stats p)"

definition accounted :: "registry \<Rightarrow> u64" where
  "accounted r = of_nat (length (buf (sharedRawCh r))) + held (demuxHold r) + heapSum pipeAcct (heap r)
     + routingDrops (processStats r)"

lemma fresh_acct: "fresh_started c now p \<Longrightarrow> pipeAcct p = 0"
  using fresh_started_open [of c now p] by (simp add: pipeAcct_def chMake_def newPipelineStats_def)

lemma accounted_simps [simp]:
  "accounted (r\<lparr>drains := d\<rparr>) = accounted r" "accounted (r\<lparr>rcur := t\<rparr>) = accounted r"
  "accounted (r\<lparr>sharedClosed := b\<rparr>) = accounted r" "accounted (r\<lparr>KeysReloadFailures := k\<rparr>) = accounted r"
  "accounted (r\<lparr>LastKeysReloadUnix := u\<rparr>) = accounted r" "accounted (r\<lparr>demuxRunning := b\<rparr>) = accounted r"
  "accounted (r\<lparr>demuxDone := b\<rparr>) = accounted r" "accounted (r\<lparr>InlineProjectsExpired := n\<rparr>) = accounted r"
  by (simp_all add: accounted_def)

lemma accounted_upd:
  "pipeAcct (f (heap r ! i)) = pipeAcct (heap r ! i) \<Longrightarrow> accounted (updPipe i f r) = accounted r"
  by (simp add: accounted_def updPipe_heap heapSum_same)

text \<open>The registry as the listener meets it.\<close>

definition sink_ok :: "registry \<Rightarrow> bool" where
  "sink_ok r \<longleftrightarrow> reg_inv r \<and> rcur r \<noteq> None \<and> (sharedClosed r \<longleftrightarrow> ch_closed (sharedRawCh r))"

lemma accounted_bumpSelf:
  "accounted (bumpSelf f r) = accounted r - routingDrops (processStats r) + routingDrops (f (processStats r))"
  by (simp add: accounted_def)

lemma accounted_bumpPipe:
  assumes "\<And>s. p_EventsReceived (f s) = p_EventsReceived s" and "\<And>s. p_DropsQueueFull (f s) = p_DropsQueueFull s"
  shows "accounted (bumpPipe i f r) = accounted r"
  unfolding bumpPipe_def by (rule accounted_upd) (simp add: pipeAcct_def assms)

lemma accounted_routingClosed: "accounted (routingClosed i r) = accounted r + 1"
  by (simp add: routingClosed_def accounted_bumpSelf accounted_bumpPipe routingDrops_def)

lemma enqueue_acct:
  assumes "sharedClosed r \<longleftrightarrow> ch_closed (sharedRawCh r)" and "enqueue i proj dg r = (res, r')"
  shows "accounted r' = accounted r + (if res = DQueueFull then 0 else 1)"
    and "s_EventsReceived (processStats r') = s_EventsReceived (processStats r)"
    and "sharedClosed r' = sharedClosed r" and "ch_closed (sharedRawCh r') = ch_closed (sharedRawCh r)"
proof -
  have u: "accounted (updPipe i (lastSeen_update (\<lambda>_. t)) r) = accounted r" for t
    by (rule accounted_upd) (simp add: pipeAcct_def)
  have q: "chTrySend x (sharedRawCh r) = Sent c \<Longrightarrow>
      accounted (q\<lparr>sharedRawCh := c\<rparr>) = accounted q + 1" if "sharedRawCh q = sharedRawCh r" for x c q
    using that chTrySend_Sent [of x "sharedRawCh r" c] by (simp add: accounted_def)
  have p: "chTrySend x (sharedRawCh r) \<noteq> SendPanic" if "\<not> sharedClosed r" for x
    using that assms(1) by (auto simp: chTrySend_def)
  have all: "accounted r' = accounted r + (if res = DQueueFull then 0 else 1) \<and>
     s_EventsReceived (processStats r') = s_EventsReceived (processStats r) \<and>
     sharedClosed r' = sharedClosed r \<and> ch_closed (sharedRawCh r') = ch_closed (sharedRawCh r)"
    using assms(2)
    by (auto simp: enqueue_def Let_def accounted_bumpSelf accounted_bumpPipe accounted_routingClosed routingDrops_def u q p
        routingClosed_def dest: chTrySend_Sent split: if_split_asm sendRes.split_asm)
  then show "accounted r' = accounted r + (if res = DQueueFull then 0 else 1)"
    "s_EventsReceived (processStats r') = s_EventsReceived (processStats r)"
    "sharedClosed r' = sharedClosed r" "ch_closed (sharedRawCh r') = ch_closed (sharedRawCh r)"
    by blast+
qed

section \<open>Dispatch accounts for every datagram\<close>

text \<open>Resolving changes nothing that is counted; it only may register a project.\<close>

lemma resolve_acct:
  assumes inv: "reg_inv r" "rcur r \<noteq> None" and res: "resolve now f r = ((p, ok), r')"
  shows "accounted r' = accounted r \<and> processStats r' = processStats r \<and> sharedRawCh r' = sharedRawCh r \<and>
    sharedClosed r' = sharedClosed r \<and> panicked r' = panicked r \<and> (ok \<longrightarrow> p \<noteq> None)"
proof (cases "\<not> snd (lookup (f_project f) r) \<and> InlineTokens (cfg r) \<and> f_token f \<noteq> [] \<and> f_project f \<noteq> []")
  case False
  have "resolve now f r = (lookup (f_project f) r, r)" by (simp only: resolve_def if_not_P [OF False])
  then have "lookup (f_project f) r = (p, ok)" "r' = r" using res by simp_all
  then show ?thesis using lookup_routes(2) [OF inv, of "f_project f"] by simp
next
  case True
  then obtain q where l: "lookup (f_project f) r = (q, False)" by (cases "lookup (f_project f) r") auto
  have "registerInline now (f_project f) r = ((p, ok), r')" using res True by (simp add: resolve_def)
  then show ?thesis
    using registerInline_new [OF l, of now] True
    by (auto simp: accounted_def pipeAcct_def inlinePipeline_def start_def newPipeline_def chMake_def
        newPipelineStats_def split: if_split_asm)
qed

lemma dispatch_full:
  defines "f \<equiv> \<lambda>dg. extractAndStripRouting (dg_bytes dg)"
  assumes res: "resolve now (f dg) r = ((p, ok), r')"
  shows "dispatch now dg r =
    (if f_malformed (f dg) \<or> f_badProject (f dg) \<or> f_badToken (f dg) \<and> InlineTokens (cfg r) \<or> \<not> ok \<or> p = None
     then (DDropped, snd (dispatch now dg r))
     else enqueue (the p) (f_project (f dg))
           (dg\<lparr>dg_bytes := (if f_removed (f dg) then f_stripped (f dg) else dg_bytes dg),
               dg_token := (if InlineTokens (cfg r) then f_token (f dg) else dg_token dg)\<rparr>) r')"
  using res by (auto simp: dispatch_def resolve_def f_def Let_def split: option.split)

lemma dispatch_acct:
  assumes ok: "sink_ok r" and d: "dispatch now dg r = (res, r')"
  shows "accounted r' = accounted r + (if res = DQueueFull then 0 else 1) \<and>
    s_EventsReceived (processStats r') = s_EventsReceived (processStats r) \<and> sink_ok r'"
proof -
  let ?f = "extractAndStripRouting (dg_bytes dg)"
  have inv: "reg_inv r" "rcur r \<noteq> None" "sharedClosed r \<longleftrightarrow> ch_closed (sharedRawCh r)"
    using ok by (simp_all add: sink_ok_def)
  obtain p ok' r1 where rs: "resolve now ?f r = ((p, ok'), r1)" by (metis surj_pair)
  note ra = resolve_acct [OF inv(1,2) rs]
  have r': "reg_inv r' \<and> rcur r' \<noteq> None" using dispatch_inv [OF inv(1,2), of now dg] d by simp
  show ?thesis
  proof (cases "f_malformed ?f \<or> f_badProject ?f \<or> f_badToken ?f \<and> InlineTokens (cfg r) \<or> \<not> ok' \<or> p = None")
    case True
    then have "res = DDropped" "r' = snd (dispatch now dg r)" using dispatch_full [OF rs] d by simp_all
    then show ?thesis using True ra inv r'
      by (auto simp: dispatch_cases [OF rs] accounted_bumpSelf routingDrops_def sink_ok_def split: option.split)
  next
    case False
    note e = dispatch_full [OF rs, unfolded if_not_P [OF False], symmetric, unfolded d]
    show ?thesis using enqueue_acct [OF _ e] ra inv r' by (simp add: sink_ok_def)
  qed
qed

interpretation agent: listen_sink "dispatch now" bumpSelf processStats accounted sink_ok for now
proof unfold_locales
  fix r x y
  show "accounted (bumpSelf (\<lambda>c. c\<lparr>s_EventsReceived := x\<rparr>) r) = accounted r"
    "accounted (bumpSelf (\<lambda>c. c\<lparr>s_DropsQueueFull := s_DropsQueueFull c + 1\<rparr>) r) = accounted r + 1"
    "accounted (bumpSelf (\<lambda>c. c\<lparr>s_ReadErrors := y\<rparr>) r) = accounted r"
    by (simp_all add: accounted_bumpSelf routingDrops_def)
next
  fix f g r
  show "f (processStats r) = g (processStats r) \<Longrightarrow> bumpSelf f r = bumpSelf g r"
    by (simp add: bumpSelf_def)
  show "sink_ok r \<Longrightarrow> sink_ok (bumpSelf f r)" by (simp add: sink_ok_def)
  show "processStats (bumpSelf f r) = f (processStats r)" by simp
qed (use dispatch_acct in blast)+

text \<open>Whatever the operating system answers, \<open>listen\<close> leaves every datagram it received accounted for.\<close>

lemma bindUnixgram_received: "s_EventsReceived (snd (snd (bindUnixgram e c))) = s_EventsReceived c"
  by (auto simp: bindUnixgram_def Let_def split: option.split bool.split)

lemma bind_accounted:
  "accounted (bumpSelf (\<lambda>_. snd (snd (bindUnixgram e (processStats r)))) r) = accounted r"
  by (auto simp: accounted_bumpSelf routingDrops_def bindUnixgram_def Let_def split: option.split bool.split)

lemma listen_accounts:
  assumes "sink_ok r" and "listen (dispatch now) bumpSelf processStats path e es r = (x, r')"
  shows "s_EventsReceived (processStats r') - accounted r' = s_EventsReceived (processStats r) - accounted r"
proof (cases "path = []")
  case False
  obtain res acts c where b: "bindUnixgram e (processStats r) = (res, acts, c)" by (metis prod_cases3)
  let ?r = "bumpSelf (\<lambda>_. c) r"
  have r: "sink_ok ?r" "accounted ?r = accounted r"
    "s_EventsReceived (processStats ?r) = s_EventsReceived (processStats r)"
    using assms(1) agent.bump_ok bind_accounted [of e r] bindUnixgram_received [of e "processStats r"]
    by (simp_all add: b)
  show ?thesis
  proof (cases res)
    case (Inr u)
    obtain ds where "listenLoop (dispatch now) bumpSelf es 0 ?r = (ds, r')"
      using assms(2) False b Inr by (auto simp: listen_def Let_def split: prod.split_asm)
    then show ?thesis using agent.listenLoop_balance [OF r(1)] r by simp
  qed (use assms(2) False b r in \<open>simp add: listen_def Let_def\<close>)
qed (use assms(2) in \<open>simp add: listen_def\<close>)

end
