(* ===== verification/System.thy ===== *)
theory System
  imports Ledger
begin

text \<open>
  The running agent: \<open>main\<close>'s wiring of \<open>src/main.go\<close> and the goroutines of \<open>src/routing.go\<close>,
  \<open>src/events.go\<close> and \<open>src/flusher.go\<close> as atomic steps over one registry. A goroutine is where it waits:
  a channel receive and the work on what was received are separate steps, so another goroutine can run
  in between. \<open>None\<close> means that a step is not enabled (the goroutine is blocked or is not there).
\<close>

section \<open>The batcher goroutine\<close>

definition alive :: "nat \<Rightarrow> registry \<Rightarrow> bool" where
  "alive i r \<longleftrightarrow> i < length (heap r) \<and> pl_started (heap r ! i) \<and> \<not> batcherDone (heap r ! i)"

definition batcherTake :: "nat \<Rightarrow> registry \<Rightarrow> registry option" where
  "batcherTake i r =
     (if alive i r \<and> batcherHold (heap r ! i) = None then
        (case chRecv (rawCh (heap r ! i)) of
           None \<Rightarrow> None
         | Some (dg, c) \<Rightarrow> Some (updPipe i (\<lambda>p. p\<lparr>rawCh := c, batcherHold := Some dg\<rparr>) r))
      else None)"

text \<open>The batcher's view of its pipeline, and writing it back.\<close>

definition bstateOf :: "nat \<Rightarrow> registry \<Rightarrow> bstate" where
  "bstateOf i r =
     \<lparr>bt = pl_batcher (heap r ! i), ss = processStats r, pst = Some (pl_stats (heap r ! i)),
      sent = buf (batchCh (heap r ! i))\<rparr>"

definition putBstate :: "nat \<Rightarrow> bstate \<Rightarrow> registry \<Rightarrow> registry" where
  "putBstate i st r =
     (updPipe i (\<lambda>p. p\<lparr>pl_batcher := bt st, pl_stats := the (pst st),
        batchCh := (batchCh p)\<lparr>buf := sent st\<rparr>\<rparr>) r)\<lparr>processStats := ss st\<rparr>"

text \<open>
  A batch can be handed over while the channel has room, and be given up once the context is done. A
  send on a closed channel panics.
\<close>

definition runBatcher :: "nat \<Rightarrow> fate set \<Rightarrow> bstate \<Rightarrow> registry \<Rightarrow> registry option" where
  "runBatcher i fates st r =
     (let p = heap r ! i in
      if CtxDone \<in> fates \<and> \<not> ctxDone p then None
      else if length (sent st) > length (buf (batchCh p)) \<and> ch_closed (batchCh p)
      then Some (r\<lparr>panicked := True\<rparr>)
      else if length (sent st) > cap (batchCh p) then None
      else Some (putBstate i st r))"

definition batcherPut :: "nat \<Rightarrow> fate \<Rightarrow> fate \<Rightarrow> int \<Rightarrow> registry \<Rightarrow> registry option" where
  "batcherPut i f1 f2 now r =
     (if alive i r then
        (case batcherHold (heap r ! i) of
           None \<Rightarrow> None
         | Some dg \<Rightarrow>
             map_option (updPipe i (\<lambda>p. p\<lparr>batcherHold := None\<rparr>))
               (runBatcher i {f1, f2} (onDatagram f1 f2 now dg (bstateOf i r)) r))
      else None)"

definition batcherTimer :: "nat \<Rightarrow> fate \<Rightarrow> registry \<Rightarrow> registry option" where
  "batcherTimer i ft r =
     (if alive i r \<and> batcherHold (heap r ! i) = None \<and> armed (pl_batcher (heap r ! i))
      then runBatcher i {ft} (onTimer ft (bstateOf i r)) r else None)"

definition batcherEnd :: "nat \<Rightarrow> fate \<Rightarrow> registry \<Rightarrow> registry option" where
  "batcherEnd i ft r =
     (if alive i r \<and> batcherHold (heap r ! i) = None \<and> chEnded (rawCh (heap r ! i))
      then map_option (updPipe i (\<lambda>p. p\<lparr>batcherDone := True\<rparr>))
        (runBatcher i {ft} (onClosed ft (bstateOf i r)) r)
      else None)"

section \<open>The flusher goroutine\<close>

definition flusherTake :: "nat \<Rightarrow> registry \<Rightarrow> registry option" where
  "flusherTake i r =
     (if i < length (heap r) \<and> pl_started (heap r ! i) \<and> flusherHold (heap r ! i) = None then
        (case chRecv (batchCh (heap r ! i)) of
           None \<Rightarrow> None
         | Some (b, c) \<Rightarrow> Some (updPipe i (\<lambda>p. p\<lparr>batchCh := c, flusherHold := Some b\<rparr>) r))
      else None)"

text \<open>A send counts as cancelled only once the context is done.\<close>

definition flusherSend :: "nat \<Rightarrow> (nat \<Rightarrow> bool) \<Rightarrow> (nat \<Rightarrow> httpOutcome) \<Rightarrow> int \<Rightarrow> registry \<Rightarrow> registry option" where
  "flusherSend i w http now r =
     (if i < length (heap r) then
        (let p = heap r ! i in
         case flusherHold p of
           None \<Rightarrow> None
         | Some b \<Rightarrow>
             if fst (sendLoop (f_maxRetries (pl_flusher p)) w http 0) = Cancelled \<and> \<not> ctxDone p then None
             else
               (case send (pl_flusher p) w http now b (processStats r, Some (pl_stats p)) of
                  (_, (s, ps)) \<Rightarrow>
                    Some ((updPipe i (\<lambda>p. p\<lparr>pl_stats := the ps, flusherHold := None\<rparr>) r)\<lparr>processStats := s\<rparr>)))
      else None)"

definition flusherEnd :: "nat \<Rightarrow> registry \<Rightarrow> registry option" where
  "flusherEnd i r =
     (if i < length (heap r) \<and> pl_started (heap r ! i) \<and> flusherHold (heap r ! i) = None \<and>
        chEnded (batchCh (heap r ! i)) \<and> \<not> flushDone (heap r ! i)
      then Some (updPipe i (\<lambda>p. p\<lparr>flushDone := True\<rparr>) r) else None)"

section \<open>The demuxer goroutine\<close>

definition demuxTake :: "registry \<Rightarrow> registry option" where
  "demuxTake r =
     (if demuxRunning r \<and> demuxHold r = None then
        map_option (\<lambda>(dg, c). r\<lparr>sharedRawCh := c, demuxHold := Some dg\<rparr>) (chRecv (sharedRawCh r))
      else None)"

definition demuxPut :: "registry \<Rightarrow> registry option" where
  "demuxPut r = map_option (\<lambda>dg. (demuxOne dg r)\<lparr>demuxHold := None\<rparr>) (demuxHold r)"

definition demuxEnd :: "registry \<Rightarrow> registry option" where
  "demuxEnd r =
     (if demuxRunning r \<and> demuxHold r = None \<and> chEnded (sharedRawCh r)
      then Some (r\<lparr>demuxRunning := False, demuxDone := True\<rparr>) else None)"

section \<open>The drain goroutines\<close>

definition setPhase :: "nat \<Rightarrow> drainPhase \<Rightarrow> registry \<Rightarrow> registry" where
  "setPhase k ph r = r\<lparr>drains := (drains r)[k := (drains r ! k)\<lparr>dr_phase := ph\<rparr>]\<rparr>"

definition drainStep :: "nat \<Rightarrow> registry \<Rightarrow> registry option" where
  "drainStep k r =
     (if k < length (drains r) then
        (let d = drains r ! k; i = dr_pid d; p = heap r ! i in
         case dr_phase d of
           Pending \<Rightarrow>
             (case drainClose (dr_grace d) p of
                None \<Rightarrow> Some (r\<lparr>panicked := True\<rparr>)
              | Some q \<Rightarrow> Some (setPhase k WaitBatcher (updPipe i (\<lambda>_. q) r)))
         | WaitBatcher \<Rightarrow>
             if batcherDone p then
               (case drainBatches p of
                  None \<Rightarrow> Some (r\<lparr>panicked := True\<rparr>)
                | Some q \<Rightarrow> Some (setPhase k WaitFlusher (updPipe i (\<lambda>_. q) r)))
             else None
         | WaitFlusher \<Rightarrow>
             if flushDone p then
               (let r = setPhase k Drained (updPipe i drainEnd r)
                in Some (if dr_expiry d then r\<lparr>InlineProjectsExpired := InlineProjectsExpired r + 1\<rparr> else r))
             else None
         | Drained \<Rightarrow> None)
      else None)"

text \<open>The grace timer of a drain cancels its pipeline's context.\<close>

definition graceFires :: "nat \<Rightarrow> registry \<Rightarrow> registry option" where
  "graceFires k r =
     (if k < length (drains r) \<and> dr_grace (drains r ! k) > 0 \<and> dr_phase (drains r ! k) \<in> {WaitBatcher, WaitFlusher}
        \<and> \<not> ctxDone (heap r ! dr_pid (drains r ! k))
      then Some (updPipe (dr_pid (drains r ! k)) (\<lambda>p. p\<lparr>ctxDone := True\<rparr>) r) else None)"

section \<open>The agent\<close>

text \<open>\<open>main\<close>: serving; the listener and the signal loop are done; \<open>shutdown\<close> waits for the demuxer; it waits
  for the drains; returned.\<close>

datatype sysPhase = Serving | ListenerDone | Closing | Draining | Exited

record sys =
  reg :: registry
  phase :: sysPhase

datatype action =
    Receive bytes int int
  | ReadFails
  | Reload osView osView int int
  | Expire int
  | DemuxTake | DemuxPut | DemuxEnd
  | BatcherTake nat | BatcherPut nat fate fate int | BatcherTimer nat fate | BatcherEnd nat fate
  | FlusherTake nat | FlusherSend nat "nat \<Rightarrow> bool" "nat \<Rightarrow> httpOutcome" int | FlusherEnd nat
  | DrainStep nat | GraceFires nat
  | StopListener bool | CloseShared | DrainAll | Exit

text \<open>The steps of the goroutines behind the listener.\<close>

fun inner :: "action \<Rightarrow> registry \<Rightarrow> registry option" where
  "inner DemuxTake r = demuxTake r"
| "inner DemuxPut r = demuxPut r"
| "inner DemuxEnd r = demuxEnd r"
| "inner (BatcherTake i) r = batcherTake i r"
| "inner (BatcherPut i f1 f2 now) r = batcherPut i f1 f2 now r"
| "inner (BatcherTimer i ft) r = batcherTimer i ft r"
| "inner (BatcherEnd i ft) r = batcherEnd i ft r"
| "inner (FlusherTake i) r = flusherTake i r"
| "inner (FlusherSend i w http now) r = flusherSend i w http now r"
| "inner (FlusherEnd i) r = flusherEnd i r"
| "inner (DrainStep k) r = drainStep k r"
| "inner (GraceFires k) r = graceFires k r"
| "inner _ r = None"

text \<open>The steps of the listener, the signal loop, the expiry ticker and \<open>main\<close>.\<close>

fun exec :: "action \<Rightarrow> sys \<Rightarrow> sys option" where
  "exec (Receive b at now) s =
     (if phase s = Serving then Some (s\<lparr>reg := listenOne (dispatch now) bumpSelf b at (reg s)\<rparr>) else None)"
| "exec ReadFails s =
     (if phase s = Serving then Some (s\<lparr>reg := bumpSelf (\<lambda>c. c\<lparr>s_ReadErrors := s_ReadErrors c + 1\<rparr>) (reg s)\<rparr>) else None)"
| "exec (Reload os1 os2 now u) s =
     (if phase s = Serving \<or> phase s = ListenerDone then
        (let path = KeysFile (cfg (reg s)) in
         Some (s\<lparr>reg := snd (reload (loadKeysFile os1 path) (loadKeysFile os2 path) now u (reg s))\<rparr>))
      else None)"
| "exec (Expire now) s =
     (if phase s \<noteq> Exited \<and> InlineTokens (cfg (reg s)) \<and> InlineIdle (cfg (reg s)) > 0
      then Some (s\<lparr>reg := snd (expireInline (InlineIdle (cfg (reg s))) now (reg s))\<rparr>) else None)"
| "exec (StopListener fatal) s =
     (if phase s = Serving
      then Some (s\<lparr>reg := (if fatal then bumpSelf (\<lambda>c. c\<lparr>s_ListenerFatal := True\<rparr>) (reg s) else reg s), phase := ListenerDone\<rparr>)
      else None)"
| "exec CloseShared s =
     (if phase s = ListenerDone then Some (s\<lparr>reg := closeShared (reg s), phase := Closing\<rparr>) else None)"
| "exec DrainAll s =
     (if phase s = Closing \<and> demuxDone (reg s)
      then Some (s\<lparr>reg := shutdownDrains (ShutdownGrace (cfg (reg s))) (reg s), phase := Draining\<rparr>) else None)"
| "exec Exit s =
     (if phase s = Draining \<and> list_all (\<lambda>d. dr_phase d = Drained) (drains (reg s))
      then Some (s\<lparr>phase := Exited\<rparr>) else None)"
| "exec a s = (if phase s = Exited then None else map_option (\<lambda>r. s\<lparr>reg := r\<rparr>) (inner a (reg s)))"

text \<open>The agent stops where a goroutine panicked.\<close>

definition sysStep :: "action \<Rightarrow> sys \<Rightarrow> sys option" where
  "sysStep a s = (if panicked (reg s) then None else exec a s)"

fun runs :: "action list \<Rightarrow> sys \<Rightarrow> sys option" where
  "runs [] s = Some s"
| "runs (a # as) s = (case sysStep a s of None \<Rightarrow> None | Some s' \<Rightarrow> runs as s')"

text \<open>\<open>main\<close> up to the start of the listener.\<close>

definition boot :: "Config \<Rightarrow> osView \<Rightarrow> int \<Rightarrow> int \<Rightarrow> installError + sys" where
  "boot c os now nowUnix =
     (case install (loadKeysFile os (KeysFile c)) now (newRegistry c (newSelfStats nowUnix)) of
        Inl e \<Rightarrow> Inl e
      | Inr r \<Rightarrow> Inr \<lparr>reg = r, phase = Serving\<rparr>)"

text \<open>\<open>main\<close> from the environment on: a refused configuration or routing table is exit code 2. The keys
  file is polled only when there is one and the interval is not zero; \<open>SIGHUP\<close> reloads it at any time.\<close>

definition mainStart :: "(bytes \<Rightarrow> bytes) \<Rightarrow> osView \<Rightarrow> int \<Rightarrow> int \<Rightarrow> int + sys" where
  "mainStart getenv os now nowUnix =
     (case loadConfig getenv of
        Inl e \<Rightarrow> Inl 2
      | Inr c \<Rightarrow> (case boot c os now nowUnix of Inl e \<Rightarrow> Inl 2 | Inr s \<Rightarrow> Inr s))"

definition pollEnabled :: "Config \<Rightarrow> bool" where
  "pollEnabled c \<longleftrightarrow> KeysFile c \<noteq> [] \<and> KeysPollInterval c > 0"

text \<open>The states a run can reach when \<open>admits ph a\<close> says which steps happen in which phase.\<close>

inductive reachable :: "Config \<Rightarrow> (sysPhase \<Rightarrow> action \<Rightarrow> bool) \<Rightarrow> sys \<Rightarrow> bool" for c admits where
  booted: "boot c os now u = Inr s \<Longrightarrow> reachable c admits s"
| stepped: "reachable c admits s \<Longrightarrow> sysStep a s = Some s' \<Longrightarrow> admits (phase s) a \<Longrightarrow> reachable c admits s'"

inductive_cases reachableE: "reachable c admits s"

text \<open>Any step at any time.\<close>

definition anyStep :: "sysPhase \<Rightarrow> action \<Rightarrow> bool" where
  "anyStep ph a = True"

text \<open>The expiry ticker does not fire once \<open>shutdown\<close> has started its drains.\<close>

fun noLateExpiry :: "sysPhase \<Rightarrow> action \<Rightarrow> bool" where
  "noLateExpiry ph (Expire now) \<longleftrightarrow> ph \<noteq> Draining"
| "noLateExpiry ph _ \<longleftrightarrow> True"

lemma reachable_any: "reachable c admits s \<Longrightarrow> reachable c anyStep s"
  by (induction rule: reachable.induct) (auto intro: reachable.intros simp: anyStep_def)

lemma mainStart_reachable:
  "mainStart getenv os now u = Inr s \<Longrightarrow> \<exists>c. loadConfig getenv = Inr c \<and> reachable c admits s"
  by (auto simp: mainStart_def intro: booted split: sum.split_asm)

end
