(* ===== verification/Extract_Spec.thy ===== *)
theory Extract_Spec
  imports Extract
begin

text \<open>
  The member loop and the splice against the member view. \<open>scanMembers_parse\<close>: the loop is a fold
  over the members that \<open>parse_members\<close> finds. \<open>splice_layout\<close>: the cuts turn the layout of the
  members into the layout of the members that are not routing fields.
\<close>

section \<open>The member loop is a fold over the members\<close>

definition isRouting :: "bool \<Rightarrow> bytes \<Rightarrow> bool" where
  "isRouting withToken k \<longleftrightarrow> k = projectKey \<or> withToken \<and> k = tokenKey"

definition kindOf :: "bytes \<Rightarrow> valueKind" where
  "kindOf v = (case val_scan v of Some (_, k) \<Rightarrow> k | None \<Rightarrow> kindUnknown)"

definition segSpan :: "nat \<Rightarrow> nat \<Rightarrow> seg \<Rightarrow> span" where
  "segSpan pos j s = \<lparr>keyStart = pos + length (w_key s),
     valEnd = pos + length (w_key s) + length (core s), idx = j\<rparr>"

definition memberVars :: "bool \<Rightarrow> nat \<Rightarrow> seg \<Rightarrow> scanVars \<Rightarrow> scanVars" where
  "memberVars wt pos s a =
     (matchMember wt (key s) (segSpan pos (v_idx a) s) (val s) (kindOf (val s)) a)
       \<lparr>v_idx := v_idx a + 1\<rparr>"

fun foldSegs :: "bool \<Rightarrow> nat \<Rightarrow> seg list \<Rightarrow> scanVars \<Rightarrow> scanVars" where
  "foldSegs wt pos [] a = a"
| "foldSegs wt pos (s # ss) a = foldSegs wt (pos + length (render s) + 1) ss (memberVars wt pos s a)"

lemma skip_drop: "skip (drop i b) = drop (scanWS b i) b"
  by (simp add: skip_def scanWS_len add.commute)

lemma lead_drop: "length (lead (drop i b)) = scanWS b i - i"
  by (simp add: lead_skip scanWS_len)

text \<open>What \<open>parse_seg\<close> says at offset \<open>i\<close>, in the code's offsets.\<close>

lemma parse_seg_at:
  "parse_seg (drop i b) =
     (let i1 = scanWS b i in
      if i1 \<ge> length b \<or> b ! i1 \<noteq> dquote then None
      else case scanStringBody b (i1 + 1) of
          None \<Rightarrow> None
        | Some kce \<Rightarrow>
            (let i2 = scanWS b (kce + 1) in
             if i2 \<ge> length b \<or> b ! i2 \<noteq> CHR '':'' then None
             else (let i3 = scanWS b (i2 + 1) in
               case scanValue b i3 of
                 None \<Rightarrow> None
               | Some (vEnd, k) \<Rightarrow>
                   Some (\<lparr>w_key = lead (drop i b), key = slice b (i1 + 1) kce,
                     w_colon = lead (drop (kce + 1) b), w_val = lead (drop (i2 + 1) b),
                     val = slice b i3 vEnd, w_end = lead (drop vEnd b)\<rparr>,
                     drop (scanWS b vEnd) b))))"
proof (cases "scanWS b i < length b \<and> b ! scanWS b i = dquote")
  case False
  then show ?thesis
    by (auto simp: parse_seg_def skip_drop drop_eq_Cons split: list.splits dest: drop_Cons_iff [THEN iffD1])
next
  case True
  let ?i1 = "scanWS b i"
  note D1 = drop_eq_Cons [of ?i1 b]
  show ?thesis
  proof (cases "str_len (drop (Suc ?i1) b)")
    case None
    with True show ?thesis
      by (simp add: parse_seg_def skip_drop D1 scanStringBody_len)
  next
    case (Some m)
    let ?kce = "Suc (?i1 + m)"
    let ?i2 = "scanWS b (Suc ?kce)"
    have d2: "skip (drop (Suc m) (drop (Suc ?i1) b)) = drop ?i2 b"
      using skip_drop [of "Suc ?kce" b] by (simp add: add.commute)
    have l2: "lead (drop (Suc m) (drop (Suc ?i1) b)) = lead (drop (Suc ?kce) b)"
      by (simp add: add.commute)
    have sc: "scanStringBody b (Suc ?i1) = Some ?kce"
      using Some by (simp add: scanStringBody_len)
    show ?thesis
    proof (cases "?i2 < length b \<and> b ! ?i2 = CHR '':''")
      case False
      with True Some sc d2 show ?thesis
        by (auto simp: parse_seg_def skip_drop D1 drop_eq_Cons Let_def
            split: list.splits dest: drop_Cons_iff [THEN iffD1])
    next
      case c: True
      let ?i3 = "scanWS b (Suc ?i2)"
      have e1: "skip (drop i b) = dquote # drop (Suc ?i1) b"
        using True D1 by (simp add: skip_drop)
      have e3: "skip (drop (Suc m) (drop (Suc ?i1) b)) = CHR '':'' # drop (Suc ?i2) b"
        using c d2 by (simp add: drop_eq_Cons del: drop_drop)
      have e4: "skip (drop v (drop ?i3 b)) = drop (scanWS b (?i3 + v)) b" for v
        using skip_drop [of "?i3 + v" b] by (simp add: add.commute)
      have e5: "lead (drop v (drop ?i3 b)) = lead (drop (?i3 + v) b)" for v
        by (simp add: add.commute)
      show ?thesis
        unfolding parse_seg_def e1
        using True Some sc c
        by (simp add: e3 e4 e5 l2 skip_drop [of "Suc ?i2"] Let_def scanValue_len slice_def
            case_prod_unfold split: option.split del: drop_drop)
    qed
  qed
qed

lemma scanMembers_step:
  "scanMembers b wt i a =
     (case parse_seg (drop i b) of
        None \<Rightarrow> None
      | Some (s, r) \<Rightarrow>
          (let a' = memberVars wt i s a; i' = i + length (render s) in
           if i' \<ge> length b then None
           else if b ! i' = CHR '','' then scanMembers b wt (i' + 1) a'
           else if b ! i' = CHR ''}'' then Some a'
           else None))"
proof (cases "parse_seg (drop i b)")
  case None
  then show ?thesis
    unfolding parse_seg_at Let_def
    by (subst scanMembers.simps) (auto simp: Let_def split: if_splits option.splits)
next
  case (Some sr)
  obtain s r where sr: "sr = (s, r)" by force
  from Some obtain kce vEnd k where
    c: "scanWS b i < length b" "b ! scanWS b i = dquote" "scanStringBody b (scanWS b i + 1) = Some kce"
      "scanWS b (kce + 1) < length b" "b ! scanWS b (kce + 1) = CHR '':''"
      "scanValue b (scanWS b (scanWS b (kce + 1) + 1)) = Some (vEnd, k)"
    and s: "s = \<lparr>w_key = lead (drop i b), key = slice b (scanWS b i + 1) kce,
        w_colon = lead (drop (kce + 1) b), w_val = lead (drop (scanWS b (kce + 1) + 1) b),
        val = slice b (scanWS b (scanWS b (kce + 1) + 1)) vEnd, w_end = lead (drop vEnd b)\<rparr>"
    unfolding sr parse_seg_at Let_def by (auto split: if_splits option.splits)
  let ?i3 = "scanWS b (scanWS b (kce + 1) + 1)"
  have kce: "scanWS b i + 1 \<le> kce" "kce < length b" using scanStringBody_bounds [OF c(3)] by auto
  have v: "?i3 < vEnd" using scanValue_gt [OF c(6)] .
  have vs: "val_scan (drop ?i3 b) = Some (vEnd - ?i3, k)"
    using c(6) by (auto simp: scanValue_len)
  have v2: "vEnd \<le> length b" using val_len_pos [OF vs] by auto
  from vs have kind: "kindOf (val s) = k"
    using val_scan_local [of "drop ?i3 b" "vEnd - ?i3" k "[]"] by (simp add: s kindOf_def slice_def)
  have ge: "i \<le> scanWS b i" "kce + 1 \<le> scanWS b (kce + 1)" "scanWS b (kce + 1) + 1 \<le> ?i3" "vEnd \<le> scanWS b vEnd"
    by (rule scanWS_ge)+
  have len: "length (w_key s) = scanWS b i - i" "length (core s) = vEnd - scanWS b i"
    "length (render s) = scanWS b vEnd - i"
    using kce ge v v2 by (auto simp: s core_def render_def lead_drop)
  have span: "segSpan i (v_idx a) s = \<lparr>keyStart = scanWS b i, valEnd = vEnd, idx = v_idx a\<rparr>"
    using ge kce v by (simp add: segSpan_def len)
  have pos: "i + length (render s) = scanWS b vEnd" using ge kce v by (simp add: len)
  have kv: "key s = slice b (scanWS b i + 1) kce" "val s = slice b ?i3 vEnd" by (simp_all add: s)
  note kd = kind [unfolded kv]
  show ?thesis
    unfolding Some sr option.case prod.case Let_def pos memberVars_def span kv
    using c kd by (subst scanMembers.simps) (simp add: Let_def)
qed

lemma scanMembers_parse:
  "scanMembers b wt i a =
     map_option (\<lambda>(ss, r). foldSegs wt i ss a) (parse_members (drop i b))"
proof (induction "length b - i" arbitrary: i a rule: less_induct)
  case less
  show ?case
  proof (cases "parse_seg (drop i b)")
    case None
    then show ?thesis by (subst scanMembers_step, subst parse_members.simps) simp
  next
    case (Some sr)
    obtain s r where sr: "parse_seg (drop i b) = Some (s, r)" using Some by (cases sr) auto
    let ?i' = "i + length (render s)"
    have "drop (length (render s)) (drop i b) = r" using parse_seg_sound(1) [OF sr] by simp
    then have r: "r = drop ?i' b" by (simp add: add.commute)
    have lt: "i < length b" using parse_seg_sound(4) [OF sr] by (cases "i < length b") auto
    show ?thesis
    proof (cases "?i' < length b")
      case False
      then show ?thesis using sr r
        by (subst scanMembers_step, subst parse_members.simps) simp
    next
      case True
      then have r': "r = b ! ?i' # drop (Suc ?i') b" using r by (simp add: drop_eq_Cons)
      have "scanMembers b wt (Suc ?i') (memberVars wt i s a) =
          map_option (\<lambda>(ss, r). foldSegs wt (Suc ?i') ss (memberVars wt i s a))
            (parse_members (drop (Suc ?i') b))"
        using lt by (intro less.hyps) simp
      then show ?thesis
        using True sr r'
        by (subst scanMembers_step, subst parse_members.simps)
           (auto simp: Let_def split: option.split)
    qed
  qed
qed

section \<open>What the fold computes\<close>

abbreviation routed :: "bool \<Rightarrow> seg \<Rightarrow> bool" where
  "routed wt s \<equiv> isRouting wt (key s)"

fun segHits :: "bool \<Rightarrow> nat \<Rightarrow> nat \<Rightarrow> seg list \<Rightarrow> span list" where
  "segHits wt pos j [] = []"
| "segHits wt pos j (s # ss) =
     (if routed wt s then [segSpan pos j s] else [])
       @ segHits wt (pos + length (render s) + 1) (j + 1) ss"

lemma matchMember_frame:
  "hits (matchMember wt k h v kd a) = hits a @ (if isRouting wt k then [h] else [])"
  "v_idx (matchMember wt k h v kd a) = v_idx a"
  by (auto simp: matchMember_def isRouting_def Let_def split: option.split)

lemma foldSegs_hits:
  "hits (foldSegs wt pos ss a) = hits a @ segHits wt pos (v_idx a) ss"
  "v_idx (foldSegs wt pos ss a) = v_idx a + length ss"
  by (induction ss arbitrary: pos a) (simp_all add: memberVars_def matchMember_frame)

lemma length_segHits: "length (segHits wt pos j ss) = length (filter (routed wt) ss)"
  by (induction ss arbitrary: pos j) auto

lemma segHits_idx: "h \<in> set (segHits wt pos j ss) \<Longrightarrow> j \<le> idx h"
  by (induction ss arbitrary: pos j) (auto simp: segSpan_def split: if_splits dest: Suc_leD)

text \<open>
  Last occurrence wins: the value of the last member with the key, read as a string; \<open>None\<close> is a
  value that is not a usable string.
\<close>

definition stringOf :: "bytes \<Rightarrow> bytes option" where
  "stringOf v = (if kindOf v = kindString then unquoteJSONString v else None)"

definition lastValue :: "bytes \<Rightarrow> (bytes \<times> bytes) list \<Rightarrow> bytes option" where
  "lastValue k ms = map_of (rev ms) k"

definition fieldOf :: "bytes option \<Rightarrow> bytes \<times> bool" where
  "fieldOf v =
     (case v of
        None \<Rightarrow> ([], False)
      | Some x \<Rightarrow> (case stringOf x of Some s \<Rightarrow> (s, False) | None \<Rightarrow> ([], True)))"

abbreviation kv :: "seg \<Rightarrow> bytes \<times> bytes" where
  "kv s \<equiv> (key s, val s)"

lemma keys_distinct [simp]: "projectKey \<noteq> tokenKey" "tokenKey \<noteq> projectKey"
  by (simp_all add: projectKey_def tokenKey_def)

lemma memberVars_project:
  "(project (memberVars wt pos s a), badProject (memberVars wt pos s a)) =
     (if key s = projectKey then fieldOf (Some (val s)) else (project a, badProject a))"
  by (auto simp: memberVars_def matchMember_def fieldOf_def stringOf_def Let_def split: option.split)

lemma memberVars_token:
  "(token (memberVars wt pos s a), badToken (memberVars wt pos s a)) =
     (if wt \<and> key s = tokenKey then fieldOf (Some (val s)) else (token a, badToken a))"
  by (auto simp: memberVars_def matchMember_def fieldOf_def stringOf_def Let_def split: option.split)

lemma lastValue_Cons:
  "lastValue k ((k', v) # ms) =
     (case lastValue k ms of Some x \<Rightarrow> Some x | None \<Rightarrow> if k' = k then Some v else None)"
  by (auto simp: lastValue_def map_add_def split: option.split)

lemma foldSegs_project:
  "(project (foldSegs wt pos ss a), badProject (foldSegs wt pos ss a)) =
     (case lastValue projectKey (map kv ss) of
        None \<Rightarrow> (project a, badProject a) | Some v \<Rightarrow> fieldOf (Some v))"
proof (induction ss arbitrary: pos a)
  case (Cons s ss)
  show ?case
    using memberVars_project [of wt pos s a]
    by (simp add: Cons lastValue_Cons split: option.split)
qed (simp add: lastValue_def)

lemma foldSegs_token:
  "(token (foldSegs wt pos ss a), badToken (foldSegs wt pos ss a)) =
     (if wt then (case lastValue tokenKey (map kv ss) of
        None \<Rightarrow> (token a, badToken a) | Some v \<Rightarrow> fieldOf (Some v)) else (token a, badToken a))"
proof (induction ss arbitrary: pos a)
  case (Cons s ss)
  show ?case
    using memberVars_token [of wt pos s a]
      Cons [of "pos + length (render s) + 1" "memberVars wt pos s a"]
    by (cases wt) (simp_all add: lastValue_Cons split: option.split)
qed (simp add: lastValue_def)

section \<open>The splice\<close>

lemma splice_out: "splice b pos out cs = out @ splice b pos [] cs"
proof (induction cs arbitrary: pos out)
  case (Cons c cs)
  obtain s e where c: "c = (s, e)" by force
  show ?case
    unfolding c splice.simps
    using Cons [of e "if s > pos then out @ slice b pos s else out"]
      Cons [of e "if s > pos then [] @ slice b pos s else []"] by simp
qed simp

lemma splice_Cons:
  "splice b pos [] ((s, e) # cs) = slice b pos s @ splice b e [] cs"
  using splice_out [of b e "slice b pos s" cs] by (auto simp: slice_def)

lemma skipForward_len: "skipForward b e = e + span_len isJSONSpace (drop e b)"
proof (induction "length b - e" arbitrary: e rule: less_induct)
  case less
  have IH: "skipForward b (Suc e) = Suc e + span_len isJSONSpace (drop (Suc e) b)" if "e < length b"
    using that by (intro less.hyps) auto
  show ?case
  proof (cases "e < length b")
    case True
    then show ?thesis by (subst skipForward.simps) (simp add: drop_eq_Cons IH)
  qed (subst skipForward.simps, simp)
qed

lemma skipBackward_ws:
  assumes "ws w" and "p = [] \<or> \<not> isJSONSpace (last p)"
  shows "skipBackward (p @ w @ t) (length p + length w) = length p"
  using assms(1)
proof (induction w arbitrary: t rule: rev_induct)
  case Nil
  then show ?case using assms(2) by (cases p rule: rev_cases) (auto simp: nth_append)
next
  case (snoc c w)
  then show ?case by (auto simp: nth_append)
qed

text \<open>What is left of the members after the cuts: leading removed members leave their leading
  whitespace, later ones the whitespace after their value.\<close>

fun tailText :: "bool \<Rightarrow> seg list \<Rightarrow> bytes" where
  "tailText wt [] = []"
| "tailText wt (s # ss) = (if routed wt s then w_end s else CHR '','' # render s) @ tailText wt ss"

fun leadText :: "bool \<Rightarrow> seg list \<Rightarrow> bytes" where
  "leadText wt [] = []"
| "leadText wt (s # ss) =
     (if routed wt s then w_key s @ leadText wt ss else render s @ tailText wt ss)"

fun commaLayout :: "seg list \<Rightarrow> bytes" where
  "commaLayout [] = []"
| "commaLayout (s # ss) = CHR '','' # render s @ commaLayout ss"

lemma layout_Cons: "layout (s # ss) = render s @ commaLayout ss"
  by (induction ss arbitrary: s) auto

definition seg_ws :: "seg \<Rightarrow> bool" where
  "seg_ws s \<longleftrightarrow> ws (w_key s) \<and> ws (w_end s)"

lemma hitCut_tail:
  assumes "b = p @ CHR '','' # render s @ r" and "seg_ws s" and "k < j"
  shows "hitCut b k (segSpan (Suc (length p)) j s) =
    (length p, Suc (length p) + length (w_key s) + length (core s))"
proof -
  have b: "b = (p @ [CHR '','']) @ w_key s @ core s @ w_end s @ r"
    by (simp add: assms(1) render_def)
  have "skipBackward b (Suc (length p) + length (w_key s)) = Suc (length p)"
    using skipBackward_ws [of "w_key s" "p @ [CHR '','']" "core s @ w_end s @ r"] assms(2)
    unfolding b seg_ws_def by simp
  moreover have "b ! length p = CHR '',''" by (simp add: assms(1))
  ultimately show ?thesis using assms(3) by (simp add: hitCut_def segSpan_def Let_def)
qed

lemma hitCut_lead:
  assumes "b = p @ render s @ CHR '','' # r" and "seg_ws s"
  shows "hitCut b j (segSpan (length p) j s) =
    (length p + length (w_key s), Suc (length p + length (render s)))"
proof -
  have "drop (length p + length (w_key s) + length (core s)) b = w_end s @ CHR '','' # r"
    by (simp add: assms(1) render_def)
  then have "skipForward b (length p + length (w_key s) + length (core s)) = length p + length (render s)"
    using assms(2) by (simp add: skipForward_len span_len_append_all seg_ws_def render_def)
  moreover have "b ! (length p + length (render s)) = CHR '',''"
    by (simp add: assms(1) nth_append)
  ultimately show ?thesis by (simp add: hitCut_def segSpan_def Let_def assms(1))
qed

lemma slice_prefix:
  "pos \<le> length p \<Longrightarrow> slice (p @ w @ r) pos (length p + length w) = drop pos p @ w"
  by (simp add: slice_def)

lemma drop_render [simp]: "drop (length (w_key s) + length (core s)) (render s) = w_end s"
  by (simp add: render_def)

lemma splice_tail:
  assumes "b = p @ commaLayout ss @ r" and "pos \<le> length p" and "k < j" and "list_all seg_ws ss"
  shows "splice b pos [] (hitCuts b k (segHits wt (Suc (length p)) j ss)) =
    drop pos p @ tailText wt ss @ r"
  using assms
proof (induction ss arbitrary: p pos k j)
  case (Cons s ss)
  let ?p' = "p @ CHR '','' # render s"
  have b: "b = ?p' @ commaLayout ss @ r" using Cons.prems(1) by simp
  have l: "length ?p' = Suc (length p) + length (render s)" by simp
  show ?case
  proof (cases "routed wt s")
    case False
    have "splice b pos [] (hitCuts b k (segHits wt (Suc (length ?p')) (Suc j) ss)) =
        drop pos ?p' @ tailText wt ss @ r"
      using Cons.prems by (intro Cons.IH [OF b]) auto
    then show ?thesis using False Cons.prems(2) by (simp add: l)
  next
    case True
    let ?e = "Suc (length p) + length (w_key s) + length (core s)"
    have e: "?e \<le> length ?p'" by (simp add: render_def)
    have cut: "hitCut b k (segSpan (Suc (length p)) j s) = (length p, ?e)"
      using Cons.prems by (intro hitCut_tail) auto
    have "splice b ?e [] (hitCuts b (Suc k) (segHits wt (Suc (length ?p')) (Suc j) ss)) =
        drop ?e ?p' @ tailText wt ss @ r"
      using Cons.prems e by (intro Cons.IH [OF b]) auto
    moreover have "slice b pos (length p) = drop pos p"
      using slice_prefix [of pos p "[]"] Cons.prems(1,2) by simp
    ultimately show ?thesis
      using True by (simp add: cut splice_Cons l del: splice.simps)
  qed
qed simp

lemma splice_lead:
  assumes "b = p @ layout ss @ r" and "pos \<le> length p" and "list_all seg_ws ss"
    and "\<not> list_all (routed wt) ss"
  shows "splice b pos [] (hitCuts b j (segHits wt (length p) j ss)) =
    drop pos p @ leadText wt ss @ r"
  using assms
proof (induction ss arbitrary: p pos j)
  case (Cons s ss)
  show ?case
  proof (cases "routed wt s")
    case False
    have b: "b = (p @ render s) @ commaLayout ss @ r"
      using Cons.prems(1) by (simp add: layout_Cons)
    have "splice b pos [] (hitCuts b j (segHits wt (Suc (length (p @ render s))) (Suc j) ss)) =
        drop pos (p @ render s) @ tailText wt ss @ r"
      using Cons.prems by (intro splice_tail [OF b]) auto
    then show ?thesis using False Cons.prems(2) by simp
  next
    case True
    with Cons.prems(4) obtain s' ss' where ss: "ss = s' # ss'" by (cases ss) auto
    let ?p' = "p @ render s @ [CHR '','']"
    have b: "b = ?p' @ layout ss @ r" using Cons.prems(1) by (simp add: ss)
    have "splice b (length ?p') [] (hitCuts b (Suc j) (segHits wt (length ?p') (Suc j) ss)) =
        drop (length ?p') ?p' @ leadText wt ss @ r"
      using Cons.prems True by (intro Cons.IH [OF b]) auto
    moreover have "hitCut b j (segSpan (length p) j s) =
        (length p + length (w_key s), length ?p')"
      using hitCut_lead [of b p s "layout ss @ r" j] b Cons.prems(3) by simp
    moreover have "slice b pos (length p + length (w_key s)) = drop pos p @ w_key s"
      using slice_prefix [OF Cons.prems(2), of "w_key s"] b by (simp add: render_def)
    ultimately show ?thesis using True by (simp add: splice_Cons del: splice.simps)
  qed
qed simp

section \<open>The surviving members\<close>

fun absorb :: "bool \<Rightarrow> seg \<Rightarrow> seg list \<Rightarrow> seg list" where
  "absorb wt c [] = [c]"
| "absorb wt c (s # ss) =
     (if routed wt s then absorb wt (c\<lparr>w_end := w_end c @ w_end s\<rparr>) ss else c # absorb wt s ss)"

fun survivors :: "bool \<Rightarrow> bytes \<Rightarrow> seg list \<Rightarrow> seg list" where
  "survivors wt w [] = []"
| "survivors wt w (s # ss) =
     (if routed wt s then survivors wt (w @ w_key s) ss
      else absorb wt (s\<lparr>w_key := w @ w_key s\<rparr>) ss)"

lemma absorb_not_Nil [simp]: "absorb wt c ss \<noteq> []"
  by (induction ss arbitrary: c) auto

lemma layout_absorb: "layout (absorb wt c ss) = render c @ tailText wt ss"
proof (induction ss arbitrary: c)
  case (Cons s ss)
  have "render (c\<lparr>w_end := w_end c @ w_end s\<rparr>) = render c @ w_end s"
    by (simp add: render_def core_def)
  moreover have "layout (c # absorb wt s ss) = render c @ CHR '','' # layout (absorb wt s ss)"
    by (cases "absorb wt s ss") auto
  ultimately show ?case using Cons by simp
qed simp

lemma layout_survivors:
  "\<not> list_all (routed wt) ss \<Longrightarrow> layout (survivors wt w ss) = w @ leadText wt ss"
proof (induction ss arbitrary: w)
  case (Cons s ss)
  have "render (s\<lparr>w_key := w @ w_key s\<rparr>) = w @ render s"
    by (simp add: render_def core_def)
  then show ?case using Cons by (simp add: layout_absorb)
qed simp

lemma absorb_kv:
  "map kv (absorb wt c ss) = kv c # filter (\<lambda>(k, v). \<not> isRouting wt k) (map kv ss)"
  by (induction ss arbitrary: c) auto

lemma survivors_kv:
  "map kv (survivors wt w ss) = filter (\<lambda>(k, v). \<not> isRouting wt k) (map kv ss)"
  by (induction ss arbitrary: w) (auto simp: absorb_kv)

lemma survivors_not_Nil: "\<not> list_all (routed wt) ss \<Longrightarrow> survivors wt w ss \<noteq> []"
  by (induction ss arbitrary: w) auto

text \<open>Any property of a member that ignores more whitespace around it carries over.\<close>

definition ws_closed :: "(seg \<Rightarrow> bool) \<Rightarrow> bool" where
  "ws_closed P \<longleftrightarrow> (\<forall>s. P s \<longrightarrow> seg_ws s) \<and>
     (\<forall>s w. P s \<longrightarrow> ws w \<longrightarrow> P (s\<lparr>w_end := w_end s @ w\<rparr>) \<and> P (s\<lparr>w_key := w @ w_key s\<rparr>))"

lemma absorb_all: "ws_closed P \<Longrightarrow> P c \<Longrightarrow> list_all P ss \<Longrightarrow> list_all P (absorb wt c ss)"
  by (induction ss arbitrary: c) (auto simp: ws_closed_def seg_ws_def)

lemma survivors_all: "ws_closed P \<Longrightarrow> ws w \<Longrightarrow> list_all P ss \<Longrightarrow> list_all P (survivors wt w ss)"
  by (induction ss arbitrary: w) (auto simp: ws_closed_def seg_ws_def intro!: absorb_all)

lemma ws_closed_seg_ok: "ws_closed seg_ok"
  by (simp add: ws_closed_def seg_ok_def seg_ws_def)

lemma ws_closed_json_seg: "ws_closed (json_seg d)"
  using ws_closed_seg_ok by (simp add: ws_closed_def json_seg_def)

end
