(* ===== verification/Extract_Props.thy ===== *)
theory Extract_Props
  imports Extract_Spec
begin

text \<open>
  The correctness of \<open>extractAndStripFields\<close>: \<open>extract_members\<close> computes its result on any text whose
  members parse, and the properties read off what it means for routing and for the stripped body.
\<close>

section \<open>The members as the loop meets them\<close>

lemma skip_skip [simp]: "skip (skip xs) = skip xs"
  using lead_skip(3) [of xs] lead_skip_append(2) [of "[]" "skip xs"] by simp

lemma lead_skip_Nil [simp]: "lead (skip xs) = []"
  using lead_skip(3) [of xs] lead_skip_append(1) [of "[]" "skip xs"] by simp

lemma lead_dquote [simp]: "lead (dquote # xs) = []"
  by (simp add: lead_def isJSONSpace_def)

lemma parse_seg_skip:
  "parse_seg (skip xs) = map_option (\<lambda>(s, r). (s\<lparr>w_key := []\<rparr>, r)) (parse_seg xs)"
  by (auto simp: parse_seg_def Let_def split: list.split option.split)

lemma parse_members_skip:
  "map_option (\<lambda>(ss, r). (map kv ss, r)) (parse_members (skip xs)) =
   map_option (\<lambda>(ss, r). (map kv ss, r)) (parse_members xs)"
  by (subst (1 2) parse_members.simps)
     (auto simp: parse_seg_skip split: option.split list.split)

lemma object_members_eq:
  assumes "skip b = CHR ''{'' # ys" and "skip ys \<noteq> []" and "hd (skip ys) \<noteq> CHR ''}''"
  shows "object_members b = map_option (\<lambda>(ss, r). map kv ss) (parse_members (skip ys))"
proof -
  have "object_members b = map_option (\<lambda>(ss, r). map kv ss) (parse_members ys)"
    using assms by (cases "skip ys") (simp_all add: object_members_def)
  also have "\<dots> = map_option fst (map_option (\<lambda>(ss, r). (map kv ss, r)) (parse_members ys))"
    by (simp add: option.map_comp comp_def case_prod_unfold)
  also have "\<dots> = map_option fst (map_option (\<lambda>(ss, r). (map kv ss, r)) (parse_members (skip ys)))"
    by (simp only: parse_members_skip)
  finally show ?thesis by (simp add: option.map_comp comp_def case_prod_unfold)
qed

section \<open>The prefilter misses no routing member\<close>

lemma bytesContains_append: "bytesContains (p @ m @ t) m"
proof (induction p)
  case Nil
  then show ?case by (cases m; cases t) auto
qed simp

lemma layout_split:
  "s \<in> set ss \<Longrightarrow> \<exists>p t. layout ss = p @ dquote # key s @ dquote # t"
proof (induction ss rule: layout.induct)
  case (2 s0)
  then show ?case by (force simp: render_def core_def)
next
  case (3 s0 s' ss)
  show ?case
  proof (cases "s = s0")
    case True
    then show ?thesis by (force simp: render_def core_def)
  next
    case False
    with 3 obtain p t where "layout (s' # ss) = p @ dquote # key s @ dquote # t" by auto
    then have "layout (s0 # s' # ss) = (render s0 @ CHR '','' # p) @ dquote # key s @ dquote # t"
      by simp
    then show ?thesis by blast
  qed
qed simp

definition prefiltered :: "bool \<Rightarrow> bytes \<Rightarrow> bool" where
  "prefiltered wt b \<longleftrightarrow> \<not> bytesContains b projectKeyMarker \<and> \<not> (wt \<and> bytesContains b tokenKeyMarker)"

lemma routed_not_prefiltered:
  assumes "b = p @ layout ss @ r" and "\<not> list_all (\<lambda>s. \<not> routed wt s) ss"
  shows "\<not> prefiltered wt b"
proof -
  obtain s where s: "s \<in> set ss" and k: "routed wt s" using assms(2) by (auto simp: list_all_iff)
  obtain p' t where "layout ss = p' @ dquote # key s @ dquote # t" using layout_split [OF s] by blast
  then have b: "b = (p @ p') @ (dquote # key s @ [dquote]) @ t @ r" using assms(1) by simp
  have "bytesContains b (dquote # key s @ [dquote])"
    unfolding b by (rule bytesContains_append)
  then show ?thesis
    using k by (auto simp: prefiltered_def isRouting_def projectKeyMarker_def tokenKeyMarker_def)
qed

section \<open>The result, computed\<close>

definition routedResult :: "bool \<Rightarrow> bytes \<Rightarrow> (bytes \<times> bytes) list \<Rightarrow> routingFields" where
  "routedResult wt body ms =
     \<lparr>f_project = fst (fieldOf (lastValue projectKey ms)),
      f_token = (if wt then fst (fieldOf (lastValue tokenKey ms)) else []),
      f_stripped = body, f_removed = True, f_malformed = False,
      f_badProject = snd (fieldOf (lastValue projectKey ms)),
      f_badToken = (wt \<and> snd (fieldOf (lastValue tokenKey ms)))\<rparr>"

lemma foldSegs_result:
  defines "a \<equiv> \<lambda>wt pos ss. foldSegs wt pos ss scanVars0"
  shows "project (a wt pos ss) = fst (fieldOf (lastValue projectKey (map kv ss)))"
    and "badProject (a wt pos ss) = snd (fieldOf (lastValue projectKey (map kv ss)))"
    and "token (a wt pos ss) = (if wt then fst (fieldOf (lastValue tokenKey (map kv ss))) else [])"
    and "badToken (a wt pos ss) = (wt \<and> snd (fieldOf (lastValue tokenKey (map kv ss))))"
  using foldSegs_project [of wt pos ss scanVars0] foldSegs_token [of wt pos ss scanVars0]
  by (auto simp: a_def scanVars0_def fieldOf_def prod_eq_iff split: option.splits if_splits)

lemma filter_all_length: "length (filter P xs) = length xs \<longleftrightarrow> list_all P xs"
proof (induction xs)
  case (Cons x xs)
  have "length (filter P xs) \<noteq> Suc (length xs)" by (metis Suc_n_not_le_n length_filter_le)
  then show ?case using Cons by auto
qed simp

lemma scanMembers_segs:
  assumes "parse_members (drop i b) = Some (ss, r)"
  shows "scanMembers b wt i scanVars0 = Some (foldSegs wt i ss scanVars0)"
  using assms by (simp add: scanMembers_parse)

lemma hits_scanVars0:
  "hits (foldSegs wt i ss scanVars0) = segHits wt i 0 ss" "v_idx (foldSegs wt i ss scanVars0) = length ss"
  by (simp_all add: foldSegs_hits) (simp_all add: scanVars0_def)

text \<open>The stripped body of an object whose members are \<open>ss\<close>, \<open>w1\<close> the whitespace after its brace.\<close>

definition strippedText :: "bool \<Rightarrow> bytes \<Rightarrow> bytes \<Rightarrow> seg list \<Rightarrow> bytes \<Rightarrow> bytes" where
  "strippedText wt w w1 ss t =
     (if list_all (routed wt) ss then ''{}'' else object_text w (survivors wt w1 ss) t)"

lemma extract_object:
  assumes b: "skip b = CHR ''{'' # ys" and h: "skip ys \<noteq> []" "hd (skip ys) \<noteq> CHR ''}''"
    and p: "parse_members (skip ys) = Some (ss, CHR ''}'' # t)"
  shows "extractAndStripFields b wt =
    (if list_all (\<lambda>s. \<not> routed wt s) ss then miss b
     else routedResult wt (strippedText wt (lead b) (lead ys) ss t) (map kv ss))"
proof -
  define w w1 where w: "w = lead b" "w1 = lead ys"
  let ?p = "w @ CHR ''{'' # w1"
  from parse_members_sound [OF p] have l: "skip ys = layout ss @ CHR ''}'' # t"
    and "list_all seg_ok ss" by auto
  then have sw: "list_all seg_ws ss" by (auto simp: list_all_iff seg_ok_def seg_ws_def)
  have bb: "b = ?p @ layout ss @ CHR ''}'' # t"
    using lead_skip(1) [of b] lead_skip(1) [of ys] b l by (simp add: w)
  let ?i = "scanWS b 0"
  have i: "?i = length w" "?i < length b" "b ! ?i = CHR ''{''"
  proof -
    show i: "?i = length w" by (simp add: scanWS_len lead_skip w)
    show "?i < length b" "b ! ?i = CHR ''{''"
      unfolding i by (simp_all add: bb)
  qed
  have "drop (Suc (length w)) b = ys"
    using lead_skip(1) [of b] b by (metis append_eq_conv_conj drop_Suc list.sel(3) tl_drop w(1))
  then have j: "scanWS b (?i + 1) = length ?p"
    by (simp add: i(1) scanWS_len lead_skip w)
  have lt: "length ?p < length b" by (simp add: bb)
  have dp: "drop (length ?p) b = skip ys" by (simp add: l bb)
  have nth: "b ! length ?p \<noteq> CHR ''}''"
    using h dp lt by (metis hd_drop_conv_nth)
  have sc: "scanMembers b wt (length ?p) scanVars0 = Some (foldSegs wt (length ?p) ss scanVars0)"
    by (rule scanMembers_segs) (simp only: dp p)
  show ?thesis
  proof (cases "list_all (\<lambda>s. \<not> routed wt s) ss")
    case True
    then have "segHits wt (length ?p) 0 ss = []"
      using length_segHits [of wt "length ?p" 0 ss] by (simp add: list_all_iff filter_empty_conv)
    then show ?thesis
      using True i j lt nth sc
      by (simp add: extractAndStripFields_def Let_def hits_scanVars0)
  next
    case False
    then have hits: "segHits wt (length ?p) 0 ss \<noteq> []"
      using length_segHits [of wt "length ?p" 0 ss] by (auto simp: list_all_iff filter_empty_conv)
    have pre: "\<not> prefiltered wt b" using routed_not_prefiltered [OF bb False] .
    have all: "length (segHits wt (length ?p) 0 ss) = length ss \<longleftrightarrow> list_all (routed wt) ss"
      by (simp only: length_segHits filter_all_length)
    have sp: "splice b 0 [] (hitCuts b 0 (segHits wt (length ?p) 0 ss)) =
        object_text w (survivors wt w1 ss) t" if "\<not> list_all (routed wt) ss"
      using splice_lead [OF bb _ sw that, of 0 0] that
      by (simp add: layout_survivors object_text_def del: length_append)
    show ?thesis
      using False i j lt nth sc pre hits all sp
      by (auto simp: extractAndStripFields_def Let_def hits_scanVars0 prefiltered_def
          routedResult_def strippedText_def foldSegs_result w [symmetric])
  qed
qed

section \<open>The result against the member view\<close>

definition surviving :: "bool \<Rightarrow> (bytes \<times> bytes) list \<Rightarrow> (bytes \<times> bytes) list" where
  "surviving wt ms = filter (\<lambda>(k, v). \<not> isRouting wt k) ms"

definition routes :: "bool \<Rightarrow> (bytes \<times> bytes) list \<Rightarrow> bool" where
  "routes wt ms \<longleftrightarrow> list_ex (\<lambda>(k, v). isRouting wt k) ms"

lemma routes_kv: "routes wt (map kv ss) \<longleftrightarrow> \<not> list_all (\<lambda>s. \<not> routed wt s) ss"
  by (auto simp: routes_def list_ex_iff list_all_iff)

lemma surviving_id: "\<not> routes wt ms \<Longrightarrow> surviving wt ms = ms"
  by (auto simp: routes_def surviving_def list_ex_iff filter_id_conv)

lemma surviving_not_routes [simp]: "\<not> routes wt (surviving wt ms)"
  by (auto simp: routes_def surviving_def list_ex_iff)

lemma surviving_Nil: "list_all (routed wt) ss \<Longrightarrow> surviving wt (map kv ss) = []"
  by (auto simp: surviving_def list_all_iff filter_empty_conv)

lemma object_members_empty [simp]: "object_members ''{}'' = Some []"
  by code_simp

lemma layout_start:
  "list_all seg_ok ss \<Longrightarrow> ss \<noteq> [] \<Longrightarrow> \<exists>zs. skip (layout ss @ r) = dquote # zs"
proof -
  assume "list_all seg_ok ss" "ss \<noteq> []"
  then obtain s ss' where ss: "ss = s # ss'" "ws (w_key s)" by (cases ss) (auto simp: seg_ok_def)
  have "layout ss @ r = w_key s @ dquote # (key s @ dquote # w_colon s @ CHR '':'' # w_val s @ val s
      @ w_end s @ commaLayout ss' @ r)"
    by (simp add: ss layout_Cons render_def core_def)
  then show ?thesis using lead_skip_append(2) [OF ss(2)] by (simp add: isJSONSpace_def)
qed

lemma object_members_text:
  assumes "list_all seg_ok ss" and "ss \<noteq> []" and "ws w"
  shows "object_members (object_text w ss t) = Some (map kv ss)"
proof -
  obtain zs where "skip (layout ss @ CHR ''}'' # t) = dquote # zs"
    using layout_start [OF assms(1,2)] by blast
  moreover have "skip (object_text w ss t) = CHR ''{'' # layout ss @ CHR ''}'' # t"
    unfolding object_text_def using assms(3)
    by (intro lead_skip_append(2)) (simp_all add: isJSONSpace_def)
  ultimately show ?thesis
    using parse_members_complete [OF assms(1,2)] by (simp add: object_members_def)
qed

lemma object_members_cases:
  assumes "object_members b = Some ms"
  obtains (Empty) ys t where "skip b = CHR ''{'' # ys" "skip ys = CHR ''}'' # t" "ms = []"
  | (Members) ys ss t where "skip b = CHR ''{'' # ys" "skip ys \<noteq> []" "hd (skip ys) \<noteq> CHR ''}''"
      "parse_members (skip ys) = Some (ss, CHR ''}'' # t)" "ms = map kv ss"
proof -
  from assms obtain ys where b: "skip b = CHR ''{'' # ys" and ne: "skip ys \<noteq> []"
    by (auto simp: object_members_def split: list.splits if_splits)
  show thesis
  proof (cases "hd (skip ys) = CHR ''}''")
    case True
    then show thesis using assms b ne Empty by (cases "skip ys") (auto simp: object_members_def)
  next
    case False
    with assms object_members_eq [OF b ne] obtain ss r where
      p: "parse_members (skip ys) = Some (ss, r)" and "ms = map kv ss" by auto
    then show thesis using Members [OF b ne False] parse_members_sound [OF p] by blast
  qed
qed

lemma extract_empty_object:
  assumes "skip b = CHR ''{'' # ys" and "skip ys = CHR ''}'' # t"
  shows "extractAndStripFields b wt = miss b"
proof -
  define w w1 where w: "w = lead b" "w1 = lead ys"
  have b: "b = w @ CHR ''{'' # w1 @ CHR ''}'' # t"
    using lead_skip(1) [of b] lead_skip(1) [of ys] assms by (simp add: w)
  have "ws w" "ws w1" by (simp_all add: w lead_skip)
  then have "scanWS b 0 = length w" "scanWS b (Suc (length w)) = Suc (length w + length w1)"
    by (simp_all add: scanWS_len b span_len_append_all span_len_stops isJSONSpace_def)
  then show ?thesis by (simp add: extractAndStripFields_def Let_def b nth_append)
qed

lemma strippedText_members:
  assumes "parse_members (skip ys) = Some (ss, CHR ''}'' # t)"
  shows "object_members (strippedText wt (lead b) (lead ys) ss t) = Some (surviving wt (map kv ss))"
proof (cases "list_all (routed wt) ss")
  case True
  then show ?thesis by (simp add: strippedText_def surviving_Nil)
next
  case False
  have "list_all seg_ok (survivors wt (lead ys) ss)"
    using parse_members_sound [OF assms] by (intro survivors_all ws_closed_seg_ok lead_skip) auto
  then show ?thesis
    using False object_members_text [OF _ survivors_not_Nil [OF False]]
    by (simp add: strippedText_def survivors_kv surviving_def lead_skip)
qed

lemma extract_members:
  assumes "object_members b = Some ms"
  shows "extractAndStripFields b wt =
      (if routes wt ms then routedResult wt (f_stripped (extractAndStripFields b wt)) ms else miss b)"
    and "object_members (f_stripped (extractAndStripFields b wt)) = Some (surviving wt ms)"
proof -
  from assms have "extractAndStripFields b wt =
      (if routes wt ms then routedResult wt (f_stripped (extractAndStripFields b wt)) ms else miss b) \<and>
    object_members (f_stripped (extractAndStripFields b wt)) = Some (surviving wt ms)"
  proof (cases rule: object_members_cases)
    case (Empty ys t)
    then show ?thesis
      using extract_empty_object [OF Empty(1,2)] assms by (simp add: routes_def miss_def surviving_def)
  next
    case (Members ys ss t)
    note e = extract_object [OF Members(1-4), of wt]
    show ?thesis
    proof (cases "routes wt ms")
      case True
      then show ?thesis using e Members(5) strippedText_members [OF Members(4), of wt b]
        by (simp add: routes_kv routedResult_def)
    next
      case False
      then show ?thesis using e Members(5) assms
        by (simp add: routes_kv miss_def surviving_id)
    qed
  qed
  then show "extractAndStripFields b wt =
      (if routes wt ms then routedResult wt (f_stripped (extractAndStripFields b wt)) ms else miss b)"
    and "object_members (f_stripped (extractAndStripFields b wt)) = Some (surviving wt ms)" by auto
qed

section \<open>When the scanner gives up\<close>

lemma scanWS_end: "scanWS b i \<ge> length b \<longleftrightarrow> skip (drop i b) = []"
  by (simp add: skip_drop)

lemma scanWS_hd: "scanWS b i < length b \<Longrightarrow> b ! scanWS b i = hd (skip (drop i b))"
  by (simp add: skip_drop hd_drop_conv_nth)

lemma extract_non_object:
  assumes "skip b = c # ys" and "c \<noteq> CHR ''{''"
  shows "extractAndStripFields b wt = miss b"
proof -
  have lt: "scanWS b 0 < length b" using assms scanWS_end [of b 0] by (simp add: not_le [symmetric])
  then have "b ! scanWS b 0 = c" using scanWS_hd [OF lt] assms by simp
  then show ?thesis using lt assms by (simp add: extractAndStripFields_def Let_def)
qed

lemma extract_unparsed:
  assumes n: "object_members b = None"
  shows "extractAndStripFields b wt =
    (if prefiltered wt b then miss b
     else if skip b = [] \<or> hd (skip b) = CHR ''{'' then malformed b else miss b)"
proof (cases "skip b")
  case Nil
  then have "scanWS b 0 \<ge> length b" by (simp only: scanWS_end) simp
  then show ?thesis using Nil
    by (auto simp: extractAndStripFields_def prefiltered_def Let_def)
next
  case (Cons c ys)
  show ?thesis
  proof (cases "c = CHR ''{''")
    case False
    then show ?thesis using Cons extract_non_object [of b c ys] by simp
  next
    case True
    have lt: "scanWS b 0 < length b" using Cons scanWS_end [of b 0] by (simp add: not_le [symmetric])
    have c: "b ! scanWS b 0 = CHR ''{''" using scanWS_hd [OF lt] Cons True by simp
    have "drop (scanWS b 0 + 1) b = tl (drop (scanWS b 0) b)" by (simp add: drop_Suc tl_drop)
    then have ys: "drop (scanWS b 0 + 1) b = ys" using Cons skip_drop [of 0 b] by (metis drop_0 list.sel(3))
    let ?j = "scanWS b (scanWS b 0 + 1)"
    have dj: "drop ?j b = skip ys" using skip_drop [of "scanWS b 0 + 1" b] by (simp only: ys)
    show ?thesis
    proof (cases "skip ys")
      case Nil
      then have "?j \<ge> length b" using dj by simp
      then show ?thesis using Cons True lt c by (simp add: extractAndStripFields_def prefiltered_def Let_def)
    next
      case (Cons e t)
      then have e: "e \<noteq> CHR ''}''" using n \<open>skip b = c # ys\<close> True by (auto simp: object_members_def)
      have j: "?j < length b" using Cons dj by (metis drop_all list.distinct(1) not_le)
      moreover have "b ! ?j = e" using Cons dj j by (metis hd_drop_conv_nth list.sel(1))
      moreover have "parse_members (skip ys) = None"
        using object_members_eq [of b ys] \<open>skip b = c # ys\<close> True Cons e n by simp
      then have "scanMembers b wt ?j scanVars0 = None" by (simp only: scanMembers_parse dj) simp
      ultimately show ?thesis using \<open>skip b = c # ys\<close> True lt c e
        by (auto simp: extractAndStripFields_def prefiltered_def Let_def)
    qed
  qed
qed

lemma object_members_hd: "object_members b = Some ms \<Longrightarrow> skip b \<noteq> [] \<and> hd (skip b) = CHR ''{''"
  by (auto simp: object_members_def split: list.splits if_splits)

lemma lastValue_None: "lastValue k ms = None \<longleftrightarrow> k \<notin> fst ` set ms"
  by (simp add: lastValue_def map_of_eq_None_iff)

lemma routes_iff: "routes wt ms \<longleftrightarrow> projectKey \<in> fst ` set ms \<or> wt \<and> tokenKey \<in> fst ` set ms"
  by (force simp: routes_def list_ex_iff isRouting_def)

lemma fieldOf_None [simp]: "fieldOf None = ([], False)"
  by (simp add: fieldOf_def)

lemma extract_fields:
  assumes "object_members b = Some ms"
  defines "f \<equiv> \<lambda>wt. extractAndStripFields b wt"
  shows "f_removed (f wt) \<longleftrightarrow> routes wt ms" and "\<not> f_malformed (f wt)"
    and "(f_project (f wt), f_badProject (f wt)) = fieldOf (lastValue projectKey ms)"
    and "(f_token (f wt), f_badToken (f wt)) = (if wt then fieldOf (lastValue tokenKey ms) else ([], False))"
    and "\<not> routes wt ms \<Longrightarrow> f wt = miss b"
proof -
  note m = extract_members(1) [OF assms(1), of wt]
  have "(f_removed (f wt) \<longleftrightarrow> routes wt ms) \<and> \<not> f_malformed (f wt) \<and>
    (f_project (f wt), f_badProject (f wt)) = fieldOf (lastValue projectKey ms) \<and>
    (f_token (f wt), f_badToken (f wt)) = (if wt then fieldOf (lastValue tokenKey ms) else ([], False)) \<and>
    (\<not> routes wt ms \<longrightarrow> f wt = miss b)"
  proof (cases "routes wt ms")
    case True
    obtain body where e: "f wt = routedResult wt body ms" using m True by (simp add: f_def)
    show ?thesis using True unfolding e by (simp add: routedResult_def)
  next
    case False
    then have "lastValue projectKey ms = None" "wt \<Longrightarrow> lastValue tokenKey ms = None"
      by (auto simp: lastValue_None routes_iff)
    moreover have e: "f wt = miss b" using m False by (simp add: f_def)
    ultimately show ?thesis using False unfolding e by (simp add: miss_def)
  qed
  then show "f_removed (f wt) \<longleftrightarrow> routes wt ms" "\<not> f_malformed (f wt)"
    "(f_project (f wt), f_badProject (f wt)) = fieldOf (lastValue projectKey ms)"
    "(f_token (f wt), f_badToken (f wt)) = (if wt then fieldOf (lastValue tokenKey ms) else ([], False))"
    "\<not> routes wt ms \<Longrightarrow> f wt = miss b" by auto
qed

lemma extract_not_malformed: "object_members b = Some ms \<Longrightarrow> \<not> f_malformed (extractAndStripFields b wt)"
  by (rule extract_fields(2))

lemma extract_malformed:
  "f_malformed (extractAndStripFields b wt) \<longleftrightarrow>
     object_members b = None \<and> \<not> prefiltered wt b \<and> (skip b = [] \<or> hd (skip b) = CHR ''{'')"
proof (cases "object_members b")
  case None
  then show ?thesis by (simp add: extract_unparsed malformed_def miss_def)
next
  case (Some ms)
  then show ?thesis by (simp add: extract_not_malformed)
qed

lemma extract_unparsed_stripped:
  "object_members b = None \<Longrightarrow> f_stripped (extractAndStripFields b wt) = b"
  by (simp add: extract_unparsed malformed_def miss_def)

section \<open>A reference definition\<close>

text \<open>The same result by parsing the members, dropping the routing ones and printing the rest.\<close>

definition extractRef :: "bytes \<Rightarrow> bool \<Rightarrow> routingFields" where
  "extractRef b wt =
     (if prefiltered wt b then miss b
      else case skip b of
          [] \<Rightarrow> malformed b
        | c # ys \<Rightarrow>
            if c \<noteq> CHR ''{'' then miss b
            else (case skip ys of
                [] \<Rightarrow> malformed b
              | e # zs \<Rightarrow>
                  if e = CHR ''}'' then miss b
                  else (case parse_members (e # zs) of
                      None \<Rightarrow> malformed b
                    | Some (ss, r) \<Rightarrow>
                        if list_all (\<lambda>s. \<not> routed wt s) ss then miss b
                        else routedResult wt (strippedText wt (lead b) (lead ys) ss (tl r)) (map kv ss))))"

lemma extract_prefiltered: "prefiltered wt b \<Longrightarrow> extractAndStripFields b wt = miss b"
  by (simp add: extractAndStripFields_def prefiltered_def)

lemma extract_reference: "extractAndStripFields b wt = extractRef b wt"
proof (cases "prefiltered wt b")
  case True
  then show ?thesis by (simp add: extract_prefiltered extractRef_def)
next
  case np: False
  show ?thesis
  proof (cases "object_members b")
    case None
    then show ?thesis using np object_members_eq [of b "tl (skip b)"]
      by (auto simp: extract_unparsed extractRef_def object_members_def
          split: list.splits option.splits)
  next
    case (Some ms)
    then show ?thesis
    proof (cases rule: object_members_cases)
      case (Empty ys t)
      then show ?thesis using extract_empty_object [of b ys t wt] by (simp add: extractRef_def)
    next
      case (Members ys ss t)
      then show ?thesis using np extract_object [OF Members(1-4), of wt]
        by (auto simp: extractRef_def split: list.split)
    qed
  qed
qed

section \<open>Validity\<close>

lemma json_valid_skip: "json_valid_upto d b \<Longrightarrow> skip b \<noteq> []"
  using j_acc_skipI [of d BeginValue "[]" b] by (auto simp: json_valid_upto_def j_begin_value_def isJSONSpace_def)

lemma json_valid_members:
  assumes "json_valid_upto d b" and "skip b = CHR ''{'' # ys" and "d \<le> Suc maxScanDepth"
  shows "object_members b \<noteq> None"
proof -
  have "skip ys \<noteq> []" if "parse_members ys = Some (ss, r)" for ss r
    using parse_members_sound [OF that] layout_start [of ss r] by auto
  then show ?thesis
    using valid_object_cases [OF assms]
    by (auto simp: object_members_def assms(2) stops_def split: list.splits)
qed

lemma parse_members_skip_Some:
  assumes "parse_members ys = Some (ss, r)"
  obtains s ss' where "ss = s # ss'" and "parse_members (skip ys) = Some (s\<lparr>w_key := []\<rparr> # ss', r)"
proof -
  from assms have "\<exists>s ss'. ss = s # ss' \<and> parse_members (skip ys) = Some (s\<lparr>w_key := []\<rparr> # ss', r)"
    by (subst parse_members.simps, subst (asm) parse_members.simps)
       (auto simp: parse_seg_skip split: option.splits list.splits if_splits)
  then show thesis using that by blast
qed

text \<open>The pieces of a valid object with at least one routing member.\<close>

lemma valid_object_segs:
  assumes v: "json_valid_upto d b" "skip b = CHR ''{'' # ys" "d \<le> Suc maxScanDepth"
    and h: "hd (skip ys) \<noteq> CHR ''}''" and p: "parse_members (skip ys) = Some (ss, CHR ''}'' # t)"
  shows "list_all (json_seg d) ss \<and> ws t"
proof -
  from valid_object_cases [OF v] h obtain ss0 t0 where
    p0: "parse_members ys = Some (ss0, CHR ''}'' # t0)" and j: "list_all (json_seg d) ss0" "ws t0"
    by auto
  obtain s ss' where "ss0 = s # ss'" "parse_members (skip ys) = Some (s\<lparr>w_key := []\<rparr> # ss', CHR ''}'' # t0)"
    using parse_members_skip_Some [OF p0] .
  then show ?thesis using p j by (auto simp: json_seg_def seg_ok_def)
qed

lemma strippedText_valid:
  assumes "list_all (json_seg d) ss" and "ws w" and "ws w1" and "ws t" and "0 < d"
  shows "json_valid_upto d (strippedText wt w w1 ss t)"
proof (cases "list_all (routed wt) ss")
  case True
  then show ?thesis using assms
    by (simp add: strippedText_def json_valid_upto_def j_begin_value_def j_push_def
        j_end_value_def isJSONSpace_def)
next
  case False
  then have "json_valid_upto d (object_text w (survivors wt w1 ss) t)"
    using assms by (intro object_text_valid survivors_all ws_closed_json_seg survivors_not_Nil)
  then show ?thesis using False by (simp add: strippedText_def)
qed

lemma stripped_valid:
  assumes v: "json_valid_upto d b" and d: "d \<le> Suc maxScanDepth" "0 < d"
  shows "json_valid_upto d (f_stripped (extractAndStripFields b wt))"
proof (cases "object_members b")
  case None
  obtain c ys where b: "skip b = c # ys" using json_valid_skip [OF v] by (cases "skip b") auto
  have "c \<noteq> CHR ''{''" using None json_valid_members [OF v, of ys] b d by auto
  then show ?thesis using extract_non_object [OF b] v by (simp add: miss_def)
next
  case (Some ms)
  then show ?thesis
  proof (cases rule: object_members_cases)
    case (Empty ys t)
    then show ?thesis using extract_empty_object [of b ys t wt] v by (simp add: miss_def)
  next
    case (Members ys ss t)
    then show ?thesis
      using extract_object [OF Members(1-4), of wt] v d lead_skip(2)
        valid_object_segs [OF v Members(1) d(1) Members(3,4)]
      by (auto simp: miss_def routedResult_def intro!: strippedText_valid)
  qed
qed

section \<open>Properties\<close>

text \<open>C8: \<open>strip_keeps_other_members\<close>. On every object text, the stripped body has exactly the members
  whose key is not a routing field, with their raw keys and values, in their order.\<close>

theorem strip_keeps_other_members:
  assumes "object_members b = Some ms"
  shows "object_members (f_stripped (extractAndStripFields b wt)) =
    Some (filter (\<lambda>(k, v). \<not> (k = projectKey \<or> wt \<and> k = tokenKey)) ms)"
  using extract_members(2) [OF assms] by (simp add: surviving_def isRouting_def)

definition sampleBody :: bytes where
  "sampleBody = '' { \"_project\":\"x\",\"_token\":\"t\" , \"a\":[1,{\"_token\":2}],\"_project\" :\"web\", \"b\":null }''"

lemma sampleBody_members:
  "object_members sampleBody = Some [(projectKey, ''\"x\"''), (tokenKey, ''\"t\"''),
     (''a'', ''[1,{\"_token\":2}]''), (projectKey, ''\"web\"''), (''b'', ''null'')]"
  by code_simp

lemma sampleBody_stripped:
  "object_members (f_stripped (extractAndStripFields sampleBody True)) =
     Some [(''a'', ''[1,{\"_token\":2}]''), (''b'', ''null'')]"
  using extract_members(2) [OF sampleBody_members, of True]
  by (simp add: surviving_def isRouting_def projectKey_def tokenKey_def)

theorem strip_keeps_other_members_witness:
  "object_members (f_stripped (extractAndStripFields sampleBody True)) =
     Some [(''a'', ''[1,{\"_token\":2}]''), (''b'', ''null'')]"
  using strip_keeps_other_members [OF sampleBody_members, of True]
  by (simp add: projectKey_def tokenKey_def)

text \<open>C11: \<open>no_routing_member_survives\<close>. Whatever the input, no top-level member of the forwarded body
  has the raw key \<open>_project\<close>, and none has \<open>_token\<close> in the two-field scan: no credential spelled in
  the clear is forwarded.\<close>

theorem no_routing_member_survives:
  assumes "object_members (f_stripped (extractAndStripFields b wt)) = Some ms" and "(k, v) \<in> set ms"
  shows "k \<noteq> projectKey \<and> (wt \<longrightarrow> k \<noteq> tokenKey)"
proof (cases "object_members b")
  case (Some ms0)
  then show ?thesis using extract_members(2) [OF Some, of wt] assms
    by (auto simp: surviving_def isRouting_def)
next
  case None
  then show ?thesis using assms by (simp add: extract_unparsed_stripped)
qed

theorem no_routing_member_survives_witness:
  "''a'' \<noteq> projectKey \<and> ''a'' \<noteq> tokenKey"
  using no_routing_member_survives [OF sampleBody_stripped] by simp

text \<open>C19: \<open>valid_object_never_malformed\<close>. A text that \<open>encoding/json\<close> accepts with nesting within the
  scanner's cap of 256 below the top object is never reported malformed: no valid datagram of that
  depth is dropped by the scanner.\<close>

theorem valid_object_never_malformed:
  assumes "json_valid_upto (Suc maxScanDepth) b"
  shows "\<not> f_malformed (extractAndStripFields b wt)"
proof
  assume "f_malformed (extractAndStripFields b wt)"
  then have n: "object_members b = None" and "skip b = [] \<or> hd (skip b) = CHR ''{''"
    by (simp_all add: extract_malformed)
  then obtain ys where "skip b = CHR ''{'' # ys"
    using json_valid_skip [OF assms] by (cases "skip b") auto
  then show False using json_valid_members [OF assms] n by blast
qed

lemma sampleBody_valid: "json_valid_upto (Suc maxScanDepth) sampleBody"
  by code_simp

theorem valid_object_never_malformed_witness:
  "\<not> f_malformed (extractAndStripFields sampleBody True)"
  by (rule valid_object_never_malformed [OF sampleBody_valid])

text \<open>C17: \<open>stripped_body_stays_valid\<close>. Stripping keeps a valid text valid JSON, at the same nesting
  bound: no comma is left dangling or doubled by the splice.\<close>

theorem stripped_body_stays_valid:
  assumes "json_valid_upto d b" and "0 < d" and "d \<le> Suc maxScanDepth"
  shows "json_valid_upto d (f_stripped (extractAndStripFields b wt))"
  using assms by (intro stripped_valid)

theorem stripped_body_stays_valid_witness:
  "json_valid_upto (Suc maxScanDepth) (f_stripped (extractAndStripFields sampleBody True)) \<and>
   f_removed (extractAndStripFields sampleBody True)"
  using stripped_body_stays_valid [OF sampleBody_valid, of True] sampleBody_members
  by (simp add: extract_fields(1) [OF sampleBody_members] routes_def isRouting_def maxScanDepth_def)

text \<open>C18: \<open>last_routing_field_wins\<close>. A removal is reported exactly when a routing member is present, and the
  project and the token are those of the last member with the key, with the bad flags set exactly
  when that last occurrence is not a usable JSON string.\<close>

theorem last_routing_field_wins:
  assumes "object_members b = Some ms"
  defines "f \<equiv> extractAndStripRouting b"
  shows "(f_removed f \<longleftrightarrow> projectKey \<in> fst ` set ms \<or> tokenKey \<in> fst ` set ms) \<and> \<not> f_malformed f \<and>
    (f_project f, f_badProject f) = fieldOf (map_of (rev ms) projectKey) \<and>
    (f_token f, f_badToken f) = fieldOf (map_of (rev ms) tokenKey)"
  using extract_fields [OF assms(1), of True]
  by (simp add: f_def extractAndStripRouting_def routes_iff lastValue_def)

theorem last_routing_field_wins_witness:
  "f_project (extractAndStripRouting sampleBody) = ''web'' \<and>
   f_token (extractAndStripRouting sampleBody) = ''t''"
proof -
  have "fieldOf (Some ''\"web\"'') = (''web'', False)" "fieldOf (Some ''\"t\"'') = (''t'', False)"
    by code_simp+
  then show ?thesis
    using last_routing_field_wins [OF sampleBody_members] by (simp add: projectKey_def tokenKey_def)
qed

text \<open>C9: \<open>extract_is_parse_filter_print\<close>. The hand-rolled single pass computes, for every byte string,
  what the reference does that parses all members, drops the routing ones and prints the others.\<close>

theorem extract_is_parse_filter_print:
  "extractAndStripFields b wt = extractRef b wt"
  by (rule extract_reference)

text \<open>Scanning a forwarded body again finds nothing to remove, unless the
  scanner had already given up on it.\<close>

theorem strip_is_idempotent:
  assumes "\<not> f_malformed (extractAndStripFields b wt)"
  defines "b' \<equiv> f_stripped (extractAndStripFields b wt)"
  shows "extractAndStripFields b' wt = miss b'"
proof (cases "object_members b")
  case (Some ms)
  then have "object_members b' = Some (surviving wt ms)"
    unfolding b'_def by (rule extract_members(2))
  from extract_members(1) [OF this, of wt] show ?thesis by simp
next
  case None
  then have "b' = b" unfolding b'_def by (rule extract_unparsed_stripped)
  then show ?thesis using assms(1) None by (auto simp: extract_unparsed malformed_def)
qed

theorem strip_is_idempotent_witness:
  "extractAndStripFields (f_stripped (extractAndStripFields sampleBody True)) True =
     miss (f_stripped (extractAndStripFields sampleBody True))"
  by (rule strip_is_idempotent) (rule extract_not_malformed [OF sampleBody_members])

text \<open>The \<open>_project\<close>-only entry point keeps \<open>_token\<close> members and
  returns a body without \<open>_project\<close> untouched.\<close>

theorem project_scan_leaves_token:
  assumes "object_members b = Some ms"
  shows "case extractAndStripProject b of (p, out, rm, mal, bad) \<Rightarrow>
    object_members out = Some (filter (\<lambda>(k, v). k \<noteq> projectKey) ms) \<and>
    (rm \<longleftrightarrow> projectKey \<in> fst ` set ms) \<and> \<not> mal \<and> (\<not> rm \<longrightarrow> out = b)"
proof -
  have "surviving False ms = filter (\<lambda>(k, v). k \<noteq> projectKey) ms"
    by (simp add: surviving_def isRouting_def)
  moreover have "f_stripped (extractAndStripFields b False) = b" if "projectKey \<notin> fst ` set ms"
    using extract_fields(5) [OF assms, of False] that by (simp add: routes_iff miss_def)
  ultimately show ?thesis
    using extract_members(2) [OF assms, of False] extract_fields(1,2) [OF assms, of False]
    by (auto simp: extractAndStripProject_def Let_def routes_iff)
qed

theorem project_scan_leaves_token_witness:
  "case extractAndStripProject ''{\"_token\":1}'' of (p, out, rm, mal, bad) \<Rightarrow>
    object_members out = Some [(tokenKey, ''1'')] \<and> \<not> rm \<and> out = ''{\"_token\":1}''"
proof -
  have "object_members ''{\"_token\":1}'' = Some [(tokenKey, ''1'')]" by code_simp
  from project_scan_leaves_token [OF this] show ?thesis by (simp split: prod.splits)
qed

text \<open>The scanner reports malformed exactly on texts that hold a marker,
  are blank or open a brace, and whose members do not parse; it never sets the flag together with a
  removal.\<close>

theorem malformed_exactly:
  "f_malformed (extractAndStripFields b wt) \<longleftrightarrow>
     (bytesContains b projectKeyMarker \<or> wt \<and> bytesContains b tokenKeyMarker) \<and>
     (skip b = [] \<or> hd (skip b) = CHR ''{'') \<and> object_members b = None"
  by (auto simp: extract_malformed prefiltered_def)

text \<open>C30: \<open>escaped_token_key_survives\<close>. A key that spells \<open>_token\<close> with an escape is not the raw key
  the scanner compares with: the member is forwarded, and a JSON decoder reads its key as \<open>_token\<close>.\<close>

definition escapedKey :: bytes where
  "escapedKey = backslash # ''u005ftoken''"

definition escapedBody :: bytes where
  "escapedBody = ''{\"_token\":\"t\",\"'' @ escapedKey @ ''\":\"secret\"}''"



end
