(* ===== verification/System_Inv.thy ===== *)
theory System_Inv
  imports System Extract_Props
begin

text \<open>
  The invariants of the running agent. A step of a batcher, a flusher or a drain changes one pipeline
  and the process counters; \<open>pstep\<close> says what it keeps, \<open>local\<close> that a step is one of that kind.
\<close>

section \<open>One pipeline\<close>

definition pipe_chan :: "pipeline \<Rightarrow> bool" where
  "pipe_chan p \<longleftrightarrow>
     (pl_closed p \<longleftrightarrow> ch_closed (rawCh p)) \<and> cap (rawCh p) = 16 \<and> cap (batchCh p) = 8 \<and>
     length (buf (rawCh p)) \<le> 16 \<and> length (buf (batchCh p)) \<le> 8 \<and>
     (batcherDone p \<longrightarrow> chEnded (rawCh p) \<and> batcherHold p = None \<and> cur (pl_batcher p) = []) \<and>
     (ch_closed (batchCh p) \<longrightarrow> batcherDone p) \<and>
     (flushDone p \<longrightarrow> chEnded (batchCh p) \<and> flusherHold p = None)"

text \<open>Every received event is in the current batch, in a batch on its way, sent or dropped.\<close>

definition heldEvents :: "EventBatch option \<Rightarrow> u64" where
  "heldEvents x = (case x of None \<Rightarrow> 0 | Some b \<Rightarrow> of_nat (length (Events b)))"

definition pipe_ledger :: "pipeline \<Rightarrow> bool" where
  "pipe_ledger p \<longleftrightarrow> p_EventsReceived (pl_stats p) =
     of_nat (length (cur (pl_batcher p))) + events_in (buf (batchCh p)) + heldEvents (flusherHold p)
     + p_EventsSent (pl_stats p) + p_DropsFlushFailed (pl_stats p) + p_DropsShutdown (pl_stats p)"

definition queued :: "pipeline \<Rightarrow> rawDatagram set" where
  "queued p = set (buf (rawCh p)) \<union> set_option (batcherHold p)"

definition pstep :: "pipeline \<Rightarrow> selfStats \<Rightarrow> pipeline \<Rightarrow> selfStats \<Rightarrow> bool" where
  "pstep p s q s' \<longleftrightarrow> same_id p q \<and> (pipe_chan p \<longrightarrow> pipe_chan q) \<and> (pipe_ledger p \<longrightarrow> pipe_ledger q) \<and>
     queued q \<subseteq> queued p \<and>
     pipeAcct q + routingDrops s' = pipeAcct p + routingDrops s \<and> s_EventsReceived s' = s_EventsReceived s \<and>
     s_EventsSent s' - p_EventsSent (pl_stats q) = s_EventsSent s - p_EventsSent (pl_stats p) \<and>
     s_DropsFlushFailed s' - p_DropsFlushFailed (pl_stats q) = s_DropsFlushFailed s - p_DropsFlushFailed (pl_stats p) \<and>
     s_DropsShutdown s' - p_DropsShutdown (pl_stats q) = s_DropsShutdown s - p_DropsShutdown (pl_stats p)"

text \<open>What the drain of the pipeline relies on while it waits.\<close>

definition flow :: "pipeline \<Rightarrow> pipeline \<Rightarrow> bool" where
  "flow p q \<longleftrightarrow> pl_closed q = pl_closed p \<and> ch_closed (batchCh q) = ch_closed (batchCh p) \<and>
     (flushDone p \<longrightarrow> flushDone q) \<and> (ctxDone p \<longrightarrow> ctxDone q)"

definition local_step :: "nat \<Rightarrow> registry \<Rightarrow> registry \<Rightarrow> bool" where
  "local_step i r r' \<longleftrightarrow> i < length (heap r) \<and>
     (\<exists>q s. r' = r\<lparr>heap := (heap r)[i := q], processStats := s\<rparr> \<and>
        pstep (heap r ! i) (processStats r) q s \<and> flow (heap r ! i) q)"

lemma local_stepI:
  "i < length (heap r) \<Longrightarrow> pstep (heap r ! i) (processStats r) q s \<Longrightarrow> flow (heap r ! i) q \<Longrightarrow>
     local_step i r (r\<lparr>heap := (heap r)[i := q], processStats := s\<rparr>)"
  unfolding local_step_def by blast

lemma local_step_upd:
  assumes "i < length (heap r)" and "pstep (heap r ! i) (processStats r) (f (heap r ! i)) (processStats r)"
    and "flow (heap r ! i) (f (heap r ! i))"
  shows "local_step i r (updPipe i f r)"
  using local_stepI [OF assms] by (simp add: updPipe_def)

subsection \<open>The batcher\<close>

lemma batcher_frameD:
  assumes "batcher_frame st st'"
  shows "s_EventsReceived (ss st') = s_EventsReceived (ss st)" "s_EventsSent (ss st') = s_EventsSent (ss st)"
    "s_DropsQueueFull (ss st') = s_DropsQueueFull (ss st)" "s_DropsFlushFailed (ss st') = s_DropsFlushFailed (ss st)"
    "s_DropsUnroutedMissing (ss st') = s_DropsUnroutedMissing (ss st)"
    "s_DropsUnroutedUnknown (ss st') = s_DropsUnroutedUnknown (ss st)"
    "s_DropsRoutingClosed (ss st') = s_DropsRoutingClosed (ss st)"
    "s_DropsBadToken (ss st') = s_DropsBadToken (ss st)" "s_DropsMissingToken (ss st') = s_DropsMissingToken (ss st)"
    "p_EventsSent (the (pst st')) = p_EventsSent (the (pst st))"
    "p_DropsFlushFailed (the (pst st')) = p_DropsFlushFailed (the (pst st))"
    "p_DropsQueueFull (the (pst st')) = p_DropsQueueFull (the (pst st))"
proof -
  note f = assms [unfolded batcher_frame_def, THEN conjunct1] assms [unfolded batcher_frame_def, THEN conjunct2, THEN conjunct1]
  show "s_EventsReceived (ss st') = s_EventsReceived (ss st)" "s_EventsSent (ss st') = s_EventsSent (ss st)"
    "s_DropsQueueFull (ss st') = s_DropsQueueFull (ss st)" "s_DropsFlushFailed (ss st') = s_DropsFlushFailed (ss st)"
    "s_DropsUnroutedMissing (ss st') = s_DropsUnroutedMissing (ss st)"
    "s_DropsUnroutedUnknown (ss st') = s_DropsUnroutedUnknown (ss st)"
    "s_DropsRoutingClosed (ss st') = s_DropsRoutingClosed (ss st)"
    "s_DropsBadToken (ss st') = s_DropsBadToken (ss st)" "s_DropsMissingToken (ss st') = s_DropsMissingToken (ss st)"
    using arg_cong [OF f(1), of s_EventsReceived] arg_cong [OF f(1), of s_EventsSent]
      arg_cong [OF f(1), of s_DropsQueueFull] arg_cong [OF f(1), of s_DropsFlushFailed]
      arg_cong [OF f(1), of s_DropsUnroutedMissing] arg_cong [OF f(1), of s_DropsUnroutedUnknown]
      arg_cong [OF f(1), of s_DropsRoutingClosed] arg_cong [OF f(1), of s_DropsBadToken]
      arg_cong [OF f(1), of s_DropsMissingToken] by simp_all
  show "p_EventsSent (the (pst st')) = p_EventsSent (the (pst st))"
    "p_DropsFlushFailed (the (pst st')) = p_DropsFlushFailed (the (pst st))"
    "p_DropsQueueFull (the (pst st')) = p_DropsQueueFull (the (pst st))"
    using arg_cong [OF f(2), of p_EventsSent] arg_cong [OF f(2), of p_DropsFlushFailed]
      arg_cong [OF f(2), of p_DropsQueueFull] by simp_all
qed

lemma pipe_ledger_alt:
  "pipe_ledger p \<longleftrightarrow>
     p_EventsReceived (pl_stats p) - p_DropsShutdown (pl_stats p) - of_nat (length (cur (pl_batcher p)))
       - events_in (buf (batchCh p)) =
     heldEvents (flusherHold p) + p_EventsSent (pl_stats p) + p_DropsFlushFailed (pl_stats p)"
  by (auto simp: pipe_ledger_def algebra_simps)

text \<open>Writing a batcher step back to its pipeline; \<open>n\<close> is the number of datagrams it took in.\<close>

definition wrote :: "pipeline \<Rightarrow> bstate \<Rightarrow> rawDatagram option \<Rightarrow> bool \<Rightarrow> pipeline" where
  "wrote p st hold done =
     p\<lparr>pl_batcher := bt st, pl_stats := the (pst st), batchCh := (batchCh p)\<lparr>buf := sent st\<rparr>,
       batcherHold := hold, batcherDone := done\<rparr>"

lemma batcher_pstep:
  assumes "batcher_frame (bstateOf i r) st" and "intake st = intake (bstateOf i r) + n"
    and "ledger st = ledger (bstateOf i r)" and "shutdown_gap st = shutdown_gap (bstateOf i r)"
  defines "p \<equiv> heap r ! i"
  assumes "held (batcherHold p) = held hold + n" and "set_option hold \<subseteq> set_option (batcherHold p)"
    and "pipe_chan p \<Longrightarrow> length (sent st) \<le> 8" and "\<not> batcherDone p" and "pipe_chan p \<Longrightarrow> \<not> ch_closed (batchCh p)"
    and "done \<Longrightarrow> pipe_chan p \<Longrightarrow> chEnded (rawCh p) \<and> hold = None \<and> cur (bt st) = []"
  shows "pstep p (processStats r) (wrote p st hold done) (ss st)"
proof -
  note f = batcher_frameD [OF assms(1)]
  have p: "bstateOf i r = \<lparr>bt = pl_batcher p, ss = processStats r, pst = Some (pl_stats p), sent = buf (batchCh p)\<rparr>"
    by (simp add: bstateOf_def p_def)
  have "same_id p (wrote p st hold done)" by (simp add: same_id_def wrote_def)
  moreover have "pipe_chan p \<longrightarrow> pipe_chan (wrote p st hold done)"
  proof
    assume pc: "pipe_chan p"
    then have "\<not> flushDone p" using assms(10) [OF pc] by (simp add: pipe_chan_def chEnded_def)
    then show "pipe_chan (wrote p st hold done)"
      using pc assms(8) [OF pc] assms(9) assms(10) [OF pc] assms(11) [OF _ pc] by (auto simp: pipe_chan_def wrote_def)
  qed
  moreover have "pipe_ledger p \<longrightarrow> pipe_ledger (wrote p st hold done)"
    using assms(3) f by (simp add: pipe_ledger_alt wrote_def p ledger_def)
  moreover have "queued (wrote p st hold done) \<subseteq> queued p"
    using assms(7) by (auto simp: queued_def wrote_def)
  moreover have "pipeAcct (wrote p st hold done) + routingDrops (ss st) = pipeAcct p + routingDrops (processStats r)"
    using assms(2,6) f by (simp add: pipeAcct_def routingDrops_def wrote_def p intake_def algebra_simps)
  moreover have "s_DropsShutdown (ss st) - p_DropsShutdown (the (pst st)) =
      s_DropsShutdown (processStats r) - p_DropsShutdown (pl_stats p)"
    using assms(4) by (simp add: shutdown_gap_def p)
  ultimately show ?thesis using f by (simp add: pstep_def p wrote_def)
qed

lemma bstateOf_pst [simp]: "pst (bstateOf i r) \<noteq> None"
  by (simp add: bstateOf_def)

lemma neutralD:
  "neutral st st' \<Longrightarrow> batcher_frame st st' \<and> intake st' = intake st + 0 \<and> ledger st' = ledger st \<and>
     shutdown_gap st' = shutdown_gap st"
  by (simp add: neutral_def)

lemma runBatcher_Some:
  assumes "runBatcher i fates st r = Some r'" and "pipe_chan (heap r ! i)" and "\<not> batcherDone (heap r ! i)"
  shows "r' = putBstate i st r" and "length (sent st) \<le> 8"
  using assms by (auto simp: runBatcher_def Let_def pipe_chan_def split: if_split_asm)

lemma putBstate_wrote:
  assumes "i < length (heap r)" and "\<not> batcherDone (heap r ! i)"
  shows "putBstate i st r =
      r\<lparr>heap := (heap r)[i := wrote (heap r ! i) st (batcherHold (heap r ! i)) False], processStats := ss st\<rparr>"
    and "updPipe i (\<lambda>p. p\<lparr>batcherHold := None\<rparr>) (putBstate i st r) =
      r\<lparr>heap := (heap r)[i := wrote (heap r ! i) st None False], processStats := ss st\<rparr>"
    and "updPipe i (\<lambda>p. p\<lparr>batcherDone := True\<rparr>) (putBstate i st r) =
      r\<lparr>heap := (heap r)[i := wrote (heap r ! i) st (batcherHold (heap r ! i)) True], processStats := ss st\<rparr>"
  using assms by (cases "heap r ! i"; simp add: putBstate_def updPipe_def wrote_def)+

lemma batcherTake_local:
  assumes "batcherTake i r = Some r'"
  shows "local_step i r r'"
proof -
  obtain dg c where i: "i < length (heap r)" "\<not> batcherDone (heap r ! i)" "batcherHold (heap r ! i) = None"
    and c: "chRecv (rawCh (heap r ! i)) = Some (dg, c)"
    and r': "r' = updPipe i (\<lambda>p. p\<lparr>rawCh := c, batcherHold := Some dg\<rparr>) r"
    using assms by (auto simp: batcherTake_def alive_def split: if_split_asm option.split_asm)
  note cc = chRecv_Some [OF c]
  show ?thesis unfolding r'
    by (rule local_step_upd [OF i(1)])
       (use i cc in \<open>auto simp: flow_def pstep_def same_id_def pipe_chan_def pipe_ledger_def pipeAcct_def queued_def\<close>)
qed

lemma batcherPut_local:
  assumes "batcherPut i f1 f2 now r = Some r'" and "list_all pipe_chan (heap r)"
  shows "local_step i r r'"
proof -
  let ?p = "heap r ! i"
  obtain dg where i: "i < length (heap r)" "\<not> batcherDone ?p" "batcherHold ?p = Some dg"
    and run: "map_option (updPipe i (\<lambda>p. p\<lparr>batcherHold := None\<rparr>))
      (runBatcher i {f1, f2} (onDatagram f1 f2 now dg (bstateOf i r)) r) = Some r'"
    using assms(1) by (auto simp: batcherPut_def alive_def split: if_split_asm option.split_asm)
  let ?st = "onDatagram f1 f2 now dg (bstateOf i r)"
  have ch: "pipe_chan ?p" using assms(2) i(1) by (simp add: list_all_length)
  obtain r1 where r1: "runBatcher i {f1, f2} ?st r = Some r1" "r' = updPipe i (\<lambda>p. p\<lparr>batcherHold := None\<rparr>) r1"
    using run by auto
  note s = runBatcher_Some [OF r1(1) ch i(2)]
  note l = onDatagram_ledger [OF bstateOf_pst [of i r], of f1 f2 now dg]
  have "pstep ?p (processStats r) (wrote ?p ?st None False) (ss ?st)"
    by (rule batcher_pstep [where n = 1]) (use l i s(2) ch in \<open>auto simp: pipe_chan_def\<close>)
  then show ?thesis
    unfolding r1(2) s(1) putBstate_wrote(2) [OF i(1,2)] by (rule local_stepI [OF i(1)]) (simp add: flow_def wrote_def)
qed

lemma batcherTimer_local:
  assumes "batcherTimer i ft r = Some r'" and "list_all pipe_chan (heap r)"
  shows "local_step i r r'"
proof -
  let ?p = "heap r ! i" and ?st = "onTimer ft (bstateOf i r)"
  have i: "i < length (heap r)" "\<not> batcherDone ?p" "batcherHold ?p = None"
    and run: "runBatcher i {ft} ?st r = Some r'"
    using assms(1) by (auto simp: batcherTimer_def alive_def split: if_split_asm)
  have ch: "pipe_chan ?p" using assms(2) i(1) by (simp add: list_all_length)
  note s = runBatcher_Some [OF run ch i(2)]
  note l = neutralD [OF onTimer_neutral [OF bstateOf_pst [of i r]], of ft]
  have "pstep ?p (processStats r) (wrote ?p ?st (batcherHold ?p) False) (ss ?st)"
    by (rule batcher_pstep [where n = 0]) (use l i s(2) ch in \<open>auto simp: pipe_chan_def\<close>)
  then show ?thesis
    unfolding s(1) putBstate_wrote(1) [OF i(1,2)] by (rule local_stepI [OF i(1)]) (simp add: flow_def wrote_def)
qed

lemma batcherEnd_local:
  assumes "batcherEnd i ft r = Some r'" and "list_all pipe_chan (heap r)"
  shows "local_step i r r'"
proof -
  let ?p = "heap r ! i" and ?st = "onClosed ft (bstateOf i r)"
  have i: "i < length (heap r)" "\<not> batcherDone ?p" "batcherHold ?p = None" and e: "chEnded (rawCh ?p)"
    and run: "map_option (updPipe i (\<lambda>p. p\<lparr>batcherDone := True\<rparr>)) (runBatcher i {ft} ?st r) = Some r'"
    using assms(1) by (auto simp: batcherEnd_def alive_def split: if_split_asm)
  have ch: "pipe_chan ?p" using assms(2) i(1) by (simp add: list_all_length)
  obtain r1 where r1: "runBatcher i {ft} ?st r = Some r1" "r' = updPipe i (\<lambda>p. p\<lparr>batcherDone := True\<rparr>) r1"
    using run by auto
  note s = runBatcher_Some [OF r1(1) ch i(2)]
  note l = neutralD [OF onClosed_neutral [OF bstateOf_pst [of i r]], of ft]
  have "cur (bt ?st) = []" by (simp add: onClosed_def flush_bt)
  then have "pstep ?p (processStats r) (wrote ?p ?st (batcherHold ?p) True) (ss ?st)"
    by (intro batcher_pstep [where n = 0]) (use l i s(2) ch e in \<open>auto simp: pipe_chan_def\<close>)
  then show ?thesis
    unfolding r1(2) s(1) putBstate_wrote(3) [OF i(1,2)] by (rule local_stepI [OF i(1)]) (simp add: flow_def wrote_def)
qed

subsection \<open>The flusher\<close>

lemma flusherTake_local:
  assumes "flusherTake i r = Some r'"
  shows "local_step i r r'"
proof -
  obtain b c where i: "i < length (heap r)" "flusherHold (heap r ! i) = None"
    and c: "chRecv (batchCh (heap r ! i)) = Some (b, c)"
    and r': "r' = updPipe i (\<lambda>p. p\<lparr>batchCh := c, flusherHold := Some b\<rparr>) r"
    using assms by (auto simp: flusherTake_def split: if_split_asm option.split_asm)
  note cc = chRecv_Some [OF c]
  show ?thesis unfolding r'
    by (rule local_step_upd [OF i(1)])
       (use i cc in \<open>auto simp: flow_def pstep_def same_id_def pipe_chan_def pipe_ledger_def pipeAcct_def queued_def
          heldEvents_def chEnded_def\<close>)
qed

lemma flusherSend_local:
  assumes "flusherSend i w http now r = Some r'"
  shows "local_step i r r'"
proof -
  let ?p = "heap r ! i"
  obtain b where i: "i < length (heap r)" "flusherHold ?p = Some b"
    using assms by (auto simp: flusherSend_def Let_def split: if_split_asm option.split_asm)
  obtain rs s ps where snd: "send (pl_flusher ?p) w http now b (processStats r, Some (pl_stats ?p)) = (rs, s, ps)"
    by (metis surj_pair)
  have r': "r' = (updPipe i (\<lambda>p. p\<lparr>pl_stats := the ps, flusherHold := None\<rparr>) r)\<lparr>processStats := s\<rparr>"
    using assms i snd by (auto simp: flusherSend_def Let_def split: if_split_asm)
  then have r'': "r' = r\<lparr>heap := (heap r)[i := ?p\<lparr>pl_stats := the ps, flusherHold := None\<rparr>], processStats := s\<rparr>"
    by (simp add: updPipe_def)
  have "pstep ?p (processStats r) (?p\<lparr>pl_stats := the ps, flusherHold := None\<rparr>) s"
    using snd i(2)
    by (auto simp: send_def Let_def bumpSent_def bumpFlushShutdown_def bumpFlushFailed_def pstep_def same_id_def
        pipe_chan_def pipe_ledger_def pipeAcct_def routingDrops_def queued_def heldEvents_def
        split: prod.split_asm sendResult.split_asm)
  then show ?thesis unfolding r'' by (rule local_stepI [OF i(1)]) (simp add: flow_def wrote_def)
qed

lemma flusherEnd_local:
  assumes "flusherEnd i r = Some r'"
  shows "local_step i r r'"
proof -
  have i: "i < length (heap r)" and e: "chEnded (batchCh (heap r ! i))" "flusherHold (heap r ! i) = None"
    and r': "r' = updPipe i (\<lambda>p. p\<lparr>flushDone := True\<rparr>) r"
    using assms by (auto simp: flusherEnd_def split: if_split_asm)
  show ?thesis unfolding r'
    by (rule local_step_upd [OF i])
       (use e in \<open>auto simp: flow_def pstep_def same_id_def pipe_chan_def pipe_ledger_def pipeAcct_def queued_def\<close>)
qed

section \<open>The registry as a whole\<close>

definition core :: "registry \<Rightarrow> bool" where
  "core r \<longleftrightarrow> rcur r \<noteq> None \<and> (\<forall>t. rcur r = Some t \<longrightarrow> table_ok (cfg r) (heap r) t) \<and>
     list_all ident_ok (heap r) \<and> list_all pipe_chan (heap r) \<and> list_all pipe_ledger (heap r) \<and>
     list_all (\<lambda>d. dr_pid d < length (heap r)) (drains r) \<and>
     (sharedClosed r \<longleftrightarrow> ch_closed (sharedRawCh r)) \<and> length (buf (sharedRawCh r)) \<le> cap (sharedRawCh r) \<and>
     (demuxRunning r \<longleftrightarrow> \<not> demuxDone r) \<and> (demuxDone r \<longrightarrow> chEnded (sharedRawCh r) \<and> demuxHold r = None)"

definition balance :: "registry \<Rightarrow> bool" where
  "balance r \<longleftrightarrow> s_EventsReceived (processStats r) = accounted r \<and>
     s_EventsSent (processStats r) = heapSum (\<lambda>p. p_EventsSent (pl_stats p)) (heap r) \<and>
     s_DropsFlushFailed (processStats r) = heapSum (\<lambda>p. p_DropsFlushFailed (pl_stats p)) (heap r) \<and>
     s_DropsShutdown (processStats r) = heapSum (\<lambda>p. p_DropsShutdown (pl_stats p)) (heap r)"

text \<open>A queued datagram carries no routing member, and is in a pipeline of its own project.\<close>

definition clean :: "rawDatagram \<Rightarrow> bool" where
  "clean dg \<longleftrightarrow> (\<forall>ms. object_members (dg_bytes dg) = Some ms \<longrightarrow>
     (\<forall>(k, v) \<in> set ms. k \<noteq> projectKey \<and> k \<noteq> tokenKey))"

definition belongs :: "pipeline \<Rightarrow> rawDatagram \<Rightarrow> bool" where
  "belongs p dg \<longleftrightarrow> dg_project dg = pl_project p \<or> (dg_project dg = [] \<and> pl_project p = DefaultProject)"

definition routed :: "registry \<Rightarrow> bool" where
  "routed r \<longleftrightarrow> (\<forall>dg \<in> set (buf (sharedRawCh r)) \<union> set_option (demuxHold r). clean dg) \<and>
     list_all (\<lambda>p. \<forall>dg \<in> queued p. clean dg \<and> belongs p dg) (heap r)"

lemma list_all_upd:
  "list_all P xs \<Longrightarrow> (i < length xs \<Longrightarrow> P (xs ! i) \<Longrightarrow> P x) \<Longrightarrow> list_all P (xs[i := x])"
  unfolding list_all_length length_list_update by (metis nth_list_update_eq nth_list_update_neq)

lemma core_pipe: "core r \<Longrightarrow> i < length (heap r) \<Longrightarrow> ident_ok (heap r ! i) \<and> pipe_chan (heap r ! i) \<and> pipe_ledger (heap r ! i)"
  by (simp add: core_def list_all_length)

lemma table_upd: "table_ok c h t \<Longrightarrow> same_id (h ! i) q \<Longrightarrow> table_ok c (h[i := q]) t"
  using table_ext heap_ext_upd by blast

text \<open>A step on one pipeline, whatever else of the registry it leaves alone.\<close>

lemma pstep_core:
  assumes "core r" and "i < length (heap r)" and "pstep (heap r ! i) (processStats r) q s"
  shows "core (r\<lparr>heap := (heap r)[i := q], processStats := s\<rparr>)"
  using assms
  by (auto simp: core_def pstep_def intro!: table_upd list_all_upd elim: same_ident)

lemma pstep_balance:
  assumes "balance r" and "i < length (heap r)" and "pstep (heap r ! i) (processStats r) q s"
  shows "balance (r\<lparr>heap := (heap r)[i := q], processStats := s\<rparr>)"
proof -
  note p = assms(3) [unfolded pstep_def]
  have "accounted (r\<lparr>heap := (heap r)[i := q], processStats := s\<rparr>) = accounted r"
    using p assms(2) by (simp add: accounted_def heapSum_upd algebra_simps)
  then show ?thesis
    using assms(1,2) p by (simp add: balance_def heapSum_upd algebra_simps)
qed

lemma pstep_routed:
  assumes "routed r" and "pstep (heap r ! i) (processStats r) q s"
  shows "routed (r\<lparr>heap := (heap r)[i := q], processStats := s\<rparr>)"
  using assms by (auto simp: routed_def pstep_def belongs_def same_id_def intro!: list_all_upd)

lemma local_step_inv:
  assumes "local_step i r r'" and "core r" and "balance r" and "routed r"
  shows "core r' \<and> balance r' \<and> routed r'"
  using assms pstep_core pstep_balance pstep_routed unfolding local_step_def by blast

definition agent_inv :: "registry \<Rightarrow> bool" where
  "agent_inv r \<longleftrightarrow> core r \<and> balance r \<and> routed r"

lemma agent_inv_local: "agent_inv r \<Longrightarrow> local_step i r r' \<Longrightarrow> agent_inv r'"
  unfolding agent_inv_def using local_step_inv by blast

lemma agent_inv_pstep:
  "agent_inv r \<Longrightarrow> i < length (heap r) \<Longrightarrow> pstep (heap r ! i) (processStats r) (f (heap r ! i)) (processStats r) \<Longrightarrow>
     agent_inv (updPipe i f r)"
  using pstep_core [of r i "f (heap r ! i)" "processStats r"] pstep_balance [of r i "f (heap r ! i)" "processStats r"]
    pstep_routed [of r i "f (heap r ! i)" "processStats r"]
  by (simp add: agent_inv_def updPipe_def)

lemma agent_inv_simps [simp]:
  "agent_inv (r\<lparr>panicked := b\<rparr>) = agent_inv r" "agent_inv (r\<lparr>InlineProjectsExpired := n\<rparr>) = agent_inv r"
  "agent_inv (r\<lparr>KeysReloadFailures := k\<rparr>) = agent_inv r" "agent_inv (r\<lparr>LastKeysReloadUnix := u\<rparr>) = agent_inv r"
  by (simp_all add: agent_inv_def core_def balance_def routed_def accounted_def)

lemma agent_inv_phase: "agent_inv r \<Longrightarrow> k < length (drains r) \<Longrightarrow> agent_inv (setPhase k ph r)"
  by (auto simp: agent_inv_def core_def balance_def routed_def accounted_def setPhase_def list_all_length
      nth_list_update)

lemma pstep_flags:
  assumes "pl_stats q = pl_stats p" and "buf (rawCh q) = buf (rawCh p)" and "batcherHold q = batcherHold p"
    and "buf (batchCh q) = buf (batchCh p)" and "flusherHold q = flusherHold p" and "pl_batcher q = pl_batcher p"
    and "same_id p q" and "pipe_chan p \<Longrightarrow> pipe_chan q"
  shows "pstep p s q s"
  using assms by (simp add: pstep_def pipe_ledger_def queued_def pipeAcct_def)

lemma drainClose_pstep: "drainClose g p = Some q \<Longrightarrow> pstep p s q s"
  by (rule pstep_flags)
     (auto simp: drainClose_def Let_def same_id_def pipe_chan_def chEnded_def dest!: chClose_Some
       split: option.split_asm if_split_asm)

lemma drainBatches_pstep: "drainBatches p = Some q \<Longrightarrow> batcherDone p \<Longrightarrow> pstep p s q s"
  by (rule pstep_flags)
     (auto simp: drainBatches_def same_id_def pipe_chan_def chEnded_def dest!: chClose_Some)

lemma drainEnd_pstep: "pstep p s (drainEnd p) s"
  by (rule pstep_flags) (auto simp: drainEnd_def same_id_def pipe_chan_def)

lemma ctxDone_pstep: "pstep p s (p\<lparr>ctxDone := True\<rparr>) s"
  by (rule pstep_flags) (auto simp: same_id_def pipe_chan_def)

lemma drain_pid: "agent_inv r \<Longrightarrow> k < length (drains r) \<Longrightarrow> dr_pid (drains r ! k) < length (heap r)"
  by (simp add: agent_inv_def core_def list_all_length)

lemma updPipe_const: "updPipe i (\<lambda>_. f (heap r ! i)) r = updPipe i f r"
  by (simp add: updPipe_def)

lemma drainStep_inv:
  assumes inv: "agent_inv r" and s: "drainStep k r = Some r'"
  shows "agent_inv r'"
proof -
  have k: "k < length (drains r)" using s by (auto simp: drainStep_def split: if_split_asm)
  let ?i = "dr_pid (drains r ! k)"
  have i: "?i < length (heap r)" by (rule drain_pid [OF inv k])
  have upd: "agent_inv (setPhase k ph (updPipe ?i (\<lambda>_. q) r))"
    if "pstep (heap r ! ?i) (processStats r) q (processStats r)" for q ph
    using agent_inv_phase [OF agent_inv_pstep [OF inv i, of "\<lambda>_. q"], of k ph] that k by simp
  show ?thesis
  proof (cases "dr_phase (drains r ! k)")
    case Pending
    then show ?thesis using s k inv upd drainClose_pstep
      by (auto simp: drainStep_def Let_def split: option.split_asm)
  next
    case WaitBatcher
    then show ?thesis using s k inv upd drainBatches_pstep
      by (auto simp: drainStep_def Let_def split: option.split_asm if_split_asm)
  next
    case WaitFlusher
    have "agent_inv (setPhase k Drained (updPipe ?i drainEnd r))"
      using agent_inv_phase [OF agent_inv_pstep [OF inv i, where f = drainEnd], of k Drained] k drainEnd_pstep
      by simp
    then show ?thesis using s k WaitFlusher
      by (auto simp: drainStep_def Let_def split: if_split_asm)
  qed (use s k in \<open>simp add: drainStep_def\<close>)
qed

lemma graceFires_inv: "agent_inv r \<Longrightarrow> graceFires k r = Some r' \<Longrightarrow> agent_inv r'"
  using drain_pid ctxDone_pstep by (auto simp: graceFires_def split: if_split_asm intro!: agent_inv_pstep)

section \<open>The demuxer\<close>

lemma demuxTake_inv: "agent_inv r \<Longrightarrow> demuxTake r = Some r' \<Longrightarrow> agent_inv r'"
proof -
  assume inv: "agent_inv r" and d: "demuxTake r = Some r'"
  then obtain dg c where c: "chRecv (sharedRawCh r) = Some (dg, c)" "demuxHold r = None" "demuxRunning r"
    and r': "r' = r\<lparr>sharedRawCh := c, demuxHold := Some dg\<rparr>"
    by (auto simp: demuxTake_def split: if_split_asm)
  note cc = chRecv_Some [OF c(1)]
  show ?thesis using inv c(2,3) cc
    by (auto simp: r' agent_inv_def core_def balance_def routed_def accounted_def)
qed

lemma demuxEnd_inv: "agent_inv r \<Longrightarrow> demuxEnd r = Some r' \<Longrightarrow> agent_inv r'"
  by (auto simp: demuxEnd_def agent_inv_def core_def balance_def routed_def accounted_def split: if_split_asm)

end
