(* ===== verification/Agent_Inv.thy ===== *)
theory Agent_Inv
  imports System_Inv
begin

text \<open>
  The rest of the invariants of the running agent: the demuxer's delivery, the listener, reloads, expiry,
  the start and the shutdown sequence; then one invariant of the agent over every reachable state.
\<close>

section \<open>The demuxer delivers\<close>

lemma core_table: "core r \<Longrightarrow> \<exists>t. rcur r = Some t \<and> table_ok (cfg r) (heap r) t"
  by (auto simp: core_def)

lemma core_lookup:
  assumes "core r" and "lookup proj r = (p, ok)"
  shows "ok \<longleftrightarrow> p \<noteq> None" and "p = Some i \<Longrightarrow> i < length (heap r) \<and>
    (pl_project (heap r ! i) = proj \<or> proj = [] \<and> pl_project (heap r ! i) = DefaultProject)"
proof -
  obtain t where t: "rcur r = Some t" "table_ok (cfg r) (heap r) t" using core_table [OF assms(1)] by blast
  have d: "hasDefault t \<Longrightarrow> map_of (pipelines t) DefaultProject \<noteq> None"
    using t(2) by (auto simp: table_ok_def default_ok_def)
  have e: "entries_ok (heap r) (pipelines t)" using t(2) by (simp add: table_ok_def)
  show "ok \<longleftrightarrow> p \<noteq> None" using assms(2) d by (auto simp: lookup_def t(1) split: if_split_asm)
  show "p = Some i \<Longrightarrow> i < length (heap r) \<and>
    (pl_project (heap r ! i) = proj \<or> proj = [] \<and> pl_project (heap r ! i) = DefaultProject)"
    using assms(2) entries_get [OF e] by (auto simp: lookup_def t(1) split: if_split_asm)
qed

text \<open>One datagram leaves the demuxer's hands for pipeline \<open>i\<close> or for a counter.\<close>

definition feeds :: "rawDatagram \<Rightarrow> pipeline \<Rightarrow> selfStats \<Rightarrow> pipeline \<Rightarrow> selfStats \<Rightarrow> bool" where
  "feeds dg p s q s' \<longleftrightarrow> same_id p q \<and> (pipe_chan p \<longrightarrow> pipe_chan q) \<and> (pipe_ledger p \<longrightarrow> pipe_ledger q) \<and>
     queued q \<subseteq> insert dg (queued p) \<and>
     pipeAcct q + routingDrops s' = pipeAcct p + routingDrops s + 1 \<and> s_EventsReceived s' = s_EventsReceived s \<and>
     s_EventsSent s' = s_EventsSent s \<and> p_EventsSent (pl_stats q) = p_EventsSent (pl_stats p) \<and>
     s_DropsFlushFailed s' = s_DropsFlushFailed s \<and>
     p_DropsFlushFailed (pl_stats q) = p_DropsFlushFailed (pl_stats p) \<and>
     s_DropsShutdown s' = s_DropsShutdown s \<and> p_DropsShutdown (pl_stats q) = p_DropsShutdown (pl_stats p)"

lemma feeds_inv:
  assumes inv: "agent_inv r" and h: "demuxHold r = Some dg" and i: "i < length (heap r)"
    and f: "feeds dg (heap r ! i) (processStats r) q s" and b: "belongs (heap r ! i) dg"
  shows "agent_inv (r\<lparr>heap := (heap r)[i := q], processStats := s, demuxHold := None\<rparr>)"
proof -
  let ?r = "r\<lparr>heap := (heap r)[i := q], processStats := s, demuxHold := None\<rparr>"
  note ff = f [unfolded feeds_def]
  have c: "core r" "balance r" "routed r" using inv by (simp_all add: agent_inv_def)
  have "core ?r" using c(1) ff h
    by (auto simp: core_def intro!: table_upd list_all_upd elim: same_ident)
  moreover have "balance ?r"
    using c(2) ff i h by (simp add: balance_def accounted_def heapSum_upd algebra_simps)
  moreover have "routed ?r"
  proof -
    have dg: "clean dg" using c(3) h by (simp add: routed_def)
    have "\<forall>x \<in> queued q. clean x \<and> belongs q x" if o: "\<forall>x \<in> queued (heap r ! i). clean x \<and> belongs (heap r ! i) x"
    proof
      fix x
      assume "x \<in> queued q"
      then have "x = dg \<or> x \<in> queued (heap r ! i)" using ff by blast
      then have "clean x \<and> belongs (heap r ! i) x" using o dg b by blast
      then show "clean x \<and> belongs q x" using ff by (simp add: belongs_def same_id_def)
    qed
    then show ?thesis using c(3) by (simp add: routed_def list_all_upd)
  qed
  ultimately show ?thesis by (simp add: agent_inv_def)
qed

lemma deliver_feeds: "trySend dg p = Delivered q \<Longrightarrow> feeds dg p s q s"
  by (auto simp: feeds_def trySend_def same_id_def pipe_chan_def pipe_ledger_def queued_def pipeAcct_def chEnded_def
      dest!: chTrySend_Sent split: if_split_asm sendRes.split_asm)

lemma closed_feeds:
  "feeds dg p s (p\<lparr>pl_stats := (pl_stats p)\<lparr>p_DropsRoutingClosed := n\<rparr>\<rparr>) (s\<lparr>s_DropsRoutingClosed := s_DropsRoutingClosed s + 1\<rparr>)"
  by (auto simp: feeds_def same_id_def pipe_chan_def pipe_ledger_def queued_def pipeAcct_def routingDrops_def)

lemma full_feeds:
  "feeds dg p s (p\<lparr>pl_stats := (pl_stats p)\<lparr>p_DropsQueueFull := p_DropsQueueFull (pl_stats p) + 1\<rparr>\<rparr>) s"
  by (auto simp: feeds_def same_id_def pipe_chan_def pipe_ledger_def queued_def pipeAcct_def)

lemma trySend_no_panic: "pipe_chan p \<Longrightarrow> trySend dg p \<noteq> TryPanic"
  by (auto simp: trySend_def pipe_chan_def chTrySend_def)

lemma demuxPut_inv:
  assumes inv: "agent_inv r" and d: "demuxPut r = Some r'"
  shows "agent_inv r' \<and> panicked r' = panicked r"
proof -
  obtain dg where h: "demuxHold r = Some dg" and r': "r' = (demuxOne dg r)\<lparr>demuxHold := None\<rparr>"
    using d by (auto simp: demuxPut_def)
  have c: "core r" "balance r" "routed r" using inv by (simp_all add: agent_inv_def)
  obtain p ok where l: "lookup (dg_project dg) r = (p, ok)" by force
  note cl = core_lookup [OF c(1) l]
  show ?thesis
  proof (cases p)
    case None
    then have "r' = (bumpSelf (\<lambda>s. s\<lparr>s_DropsRoutingClosed := s_DropsRoutingClosed s + 1\<rparr>) r)\<lparr>demuxHold := None\<rparr>"
      using cl(1) l by (simp add: r' demuxOne_def)
    moreover have "agent_inv \<dots>" using c h
      by (simp add: agent_inv_def core_def balance_def routed_def bumpSelf_def accounted_def routingDrops_def)
    ultimately show ?thesis by simp
  next
    case (Some i)
    then have i: "i < length (heap r)" and b: "belongs (heap r ! i) dg" using cl(2) by (auto simp: belongs_def)
    have e: "agent_inv r'' \<and> panicked r'' = panicked r"
      if "feeds dg (heap r ! i) (processStats r) q s"
        and "r'' = r\<lparr>heap := (heap r)[i := q], processStats := s, demuxHold := None\<rparr>" for q s r''
      using feeds_inv [OF inv h i that(1) b] that(2) by simp
    have one: "demuxOne dg r = (case trySend dg (heap r ! i) of
        Delivered p \<Rightarrow> updPipe i (\<lambda>_. p) r | Closed \<Rightarrow> routingClosed i r
      | QueueFull \<Rightarrow> bumpPipe i (\<lambda>p. p\<lparr>p_DropsQueueFull := p_DropsQueueFull p + 1\<rparr>) r
      | TryPanic \<Rightarrow> r\<lparr>panicked := True\<rparr>)"
      using l cl(1) Some by (simp add: demuxOne_def)
    show ?thesis
    proof (cases "trySend dg (heap r ! i)")
      case (Delivered q)
      show ?thesis by (rule e [OF deliver_feeds [OF Delivered]]) (simp add: r' one Delivered updPipe_def)
    next
      case Closed
      show ?thesis by (rule e [OF closed_feeds]) (simp add: r' one Closed routingClosed_def bumpSelf_def bumpPipe_def updPipe_def)
    next
      case QueueFull
      show ?thesis by (rule e [OF full_feeds]) (simp add: r' one QueueFull bumpPipe_def updPipe_def)
    next
      case TryPanic
      then show ?thesis using core_pipe [OF c(1) i] trySend_no_panic by blast
    qed
  qed
qed

section \<open>The listener\<close>

text \<open>Everything but the balance of the received counter, which \<open>listen_sink\<close> gives.\<close>

definition sums :: "registry \<Rightarrow> bool" where
  "sums r \<longleftrightarrow>
     s_EventsSent (processStats r) = heapSum (\<lambda>p. p_EventsSent (pl_stats p)) (heap r) \<and>
     s_DropsFlushFailed (processStats r) = heapSum (\<lambda>p. p_DropsFlushFailed (pl_stats p)) (heap r) \<and>
     s_DropsShutdown (processStats r) = heapSum (\<lambda>p. p_DropsShutdown (pl_stats p)) (heap r)"

definition listen_ok :: "registry \<Rightarrow> bool" where
  "listen_ok r \<longleftrightarrow> core r \<and> routed r \<and> sums r"

lemma agent_inv_alt: "agent_inv r \<longleftrightarrow> listen_ok r \<and> s_EventsReceived (processStats r) = accounted r"
  by (auto simp: agent_inv_def listen_ok_def balance_def sums_def)

lemma fresh_pipe:
  assumes "fresh_started c now p"
  shows "pipe_chan p \<and> pipe_ledger p \<and> queued p = {} \<and> pl_stats p = newPipelineStats \<and> \<not> pl_closed p \<and> \<not> ch_closed (batchCh p)"
  using assms
  by (auto simp: fresh_started_def inlinePipeline_def start_def newPipeline_def pipe_chan_def pipe_ledger_def queued_def
      chMake_def chEnded_def heldEvents_def newPipelineStats_def newEventsBatcher_def pipelineHandoffDepth_def)

lemma list_all_fresh: "list_all (fresh_started c now) ps \<Longrightarrow> p \<in> set ps \<Longrightarrow> fresh_started c now p"
  by (simp add: list_all_iff)

lemma fresh_sum:
  "list_all (fresh_started c now) ps \<Longrightarrow> (\<And>p. fresh_started c now p \<Longrightarrow> f p = 0) \<Longrightarrow> heapSum f ps = 0"
  using list_all_fresh by (intro heapSum_zero) blast

lemma fresh_sums:
  assumes "list_all (fresh_started c now) ps"
  shows "heapSum pipeAcct ps = 0" "heapSum (\<lambda>p. p_EventsSent (pl_stats p)) ps = 0"
    "heapSum (\<lambda>p. p_DropsFlushFailed (pl_stats p)) ps = 0" "heapSum (\<lambda>p. p_DropsShutdown (pl_stats p)) ps = 0"
    "heapSum (\<lambda>p. p_DropsQueueFull (pl_stats p)) ps = 0"
  using fresh_sum [OF assms] fresh_acct fresh_pipe by (simp_all add: newPipelineStats_def)

text \<open>Pipelines are added and the table changes.\<close>

lemma grow_ok:
  assumes ok: "listen_ok r" and h: "heap r' = heap r @ ps" and f: "list_all (fresh_started c now) ps"
    and inv: "reg_inv r'" "rcur r' \<noteq> None"
    and eq: "sharedRawCh r' = sharedRawCh r" "sharedClosed r' = sharedClosed r" "demuxRunning r' = demuxRunning r"
      "demuxDone r' = demuxDone r" "demuxHold r' = demuxHold r" "processStats r' = processStats r"
  shows "listen_ok r'" and "accounted r' = accounted r"
proof -
  have p: "pipe_chan p \<and> pipe_ledger p \<and> queued p = {}" if "p \<in> set ps" for p
    using fresh_pipe [OF list_all_fresh [OF f that]] by blast
  have "list_all (\<lambda>d. dr_pid d < length (heap r')) (drains r')"
    using inv(1) by (auto simp: reg_inv_def owned_def owners_def list_all_iff)
  then have "core r'"
    using ok inv p by (auto simp: listen_ok_def core_def h eq reg_inv_def list_all_iff)
  moreover have "routed r'" using ok p by (auto simp: listen_ok_def routed_def h eq list_all_iff)
  ultimately show "listen_ok r'"
    using ok fresh_sums [OF f] by (simp add: listen_ok_def sums_def h eq)
  show "accounted r' = accounted r"
    using fresh_sums(1) [OF f] by (simp add: accounted_def h eq)
qed

lemma listen_ok_bumpSelf:
  assumes "listen_ok r" and "\<And>s. s_EventsSent (f s) = s_EventsSent s" "\<And>s. s_DropsFlushFailed (f s) = s_DropsFlushFailed s"
    "\<And>s. s_DropsShutdown (f s) = s_DropsShutdown s"
  shows "listen_ok (bumpSelf f r)"
  using assms by (simp add: listen_ok_def core_def routed_def sums_def bumpSelf_def)

text \<open>Changes of a pipeline that only show in its last-seen time and its own drop counters.\<close>

definition quiet :: "(pipeline \<Rightarrow> pipeline) \<Rightarrow> bool" where
  "quiet f \<longleftrightarrow> (\<forall>p s. pstep p s (f p) s \<and> p_EventsSent (pl_stats (f p)) = p_EventsSent (pl_stats p) \<and>
     p_DropsFlushFailed (pl_stats (f p)) = p_DropsFlushFailed (pl_stats p) \<and>
     p_DropsShutdown (pl_stats (f p)) = p_DropsShutdown (pl_stats p))"

lemma quiet_seen: "quiet (\<lambda>p. p\<lparr>lastSeen := t\<rparr>)"
  by (simp add: quiet_def pstep_def same_id_def pipe_chan_def pipe_ledger_def queued_def pipeAcct_def)

lemma quiet_drops:
  "quiet (\<lambda>p. p\<lparr>pl_stats := (pl_stats p)\<lparr>p_DropsRoutingClosed := p_DropsRoutingClosed (pl_stats p) + 1\<rparr>\<rparr>)"
  "quiet (\<lambda>p. p\<lparr>pl_stats := (pl_stats p)\<lparr>p_DropsMissingToken := p_DropsMissingToken (pl_stats p) + 1\<rparr>\<rparr>)"
  by (simp_all add: quiet_def pstep_def same_id_def pipe_chan_def pipe_ledger_def queued_def pipeAcct_def)

lemma listen_ok_upd:
  assumes ok: "listen_ok r" and q: "quiet f"
  shows "listen_ok (updPipe i f r)"
proof (cases "i < length (heap r)")
  case True
  note qq = q [unfolded quiet_def, rule_format]
  have st: "pstep (heap r ! i) (processStats r) (f (heap r ! i)) (processStats r)" using qq by blast
  note step = pstep_core [OF _ True st] pstep_routed [OF _ st]
  show ?thesis
    using ok step qq True by (simp add: listen_ok_def updPipe_def sums_def heapSum_same)
next
  case False
  then show ?thesis using ok by (simp add: updPipe_def list_update_beyond)
qed

lemma listen_ok_routingClosed: "listen_ok r \<Longrightarrow> listen_ok (routingClosed i r)"
  unfolding routingClosed_def bumpPipe_def by (intro listen_ok_bumpSelf listen_ok_upd quiet_drops) simp_all

lemma enqueue_listen_ok:
  assumes ok: "listen_ok r" and c: "clean dg"
  shows "listen_ok (snd (enqueue i proj dg r))"
proof -
  let ?r = "updPipe i (\<lambda>p. p\<lparr>lastSeen := dg_at dg\<rparr>) r"
  have u: "listen_ok ?r" by (rule listen_ok_upd [OF ok quiet_seen])
  have m: "listen_ok (bumpSelf (\<lambda>s. s\<lparr>s_DropsMissingToken := s_DropsMissingToken s + 1\<rparr>)
      (bumpPipe i (\<lambda>p. p\<lparr>p_DropsMissingToken := p_DropsMissingToken p + 1\<rparr>) r))"
    unfolding bumpPipe_def by (intro listen_ok_bumpSelf listen_ok_upd ok quiet_drops) simp_all
  have s: "listen_ok (?r\<lparr>sharedRawCh := ch\<rparr>)" if "chTrySend (dg\<lparr>dg_project := proj\<rparr>) (sharedRawCh ?r) = Sent ch" for ch
    using u c chTrySend_Sent [OF that] that
    by (auto simp: listen_ok_def core_def routed_def sums_def clean_def chEnded_def chTrySend_def split: if_split_asm)
  have p: "listen_ok (?r\<lparr>panicked := b\<rparr>)" for b
    using u by (simp add: listen_ok_def core_def routed_def sums_def)
  show ?thesis
    using u m s p listen_ok_routingClosed [OF u] by (simp add: enqueue_def Let_def split: sendRes.split)
qed

text \<open>What \<open>dispatch\<close> forwards has no routing member left.\<close>

definition forwarded :: "rawDatagram \<Rightarrow> bytes" where
  "forwarded dg = (let f = extractAndStripRouting (dg_bytes dg) in if f_removed f then f_stripped f else dg_bytes dg)"

lemma forwarded_clean: "dg_bytes d = forwarded dg \<Longrightarrow> clean d"
proof -
  assume d: "dg_bytes d = forwarded dg"
  let ?b = "dg_bytes dg"
  have "k \<noteq> projectKey \<and> k \<noteq> tokenKey"
    if ms: "object_members (forwarded dg) = Some ms" and kv: "(k, v) \<in> set ms" for ms k v
  proof (cases "object_members ?b")
    case None
    then have "f_stripped (extractAndStripRouting ?b) = ?b"
      by (simp add: extractAndStripRouting_def extract_unparsed_stripped)
    then show ?thesis using ms None by (simp add: forwarded_def Let_def split: if_split_asm)
  next
    case (Some ms0)
    note e = extract_fields [OF Some, of True, folded extractAndStripRouting_def]
    show ?thesis
    proof (cases "routes True ms0")
      case True
      then show ?thesis using extract_members(2) [OF Some, of True] e(1) ms kv
        by (auto simp: forwarded_def extractAndStripRouting_def surviving_def isRouting_def)
    next
      case False
      then have "ms = ms0" using e(1) ms Some by (simp add: forwarded_def)
      then show ?thesis using False kv by (force simp: routes_iff)
    qed
  qed
  then show "clean d" unfolding clean_def d by blast
qed

lemma resolve_listen_ok:
  assumes ok: "listen_ok r" and inv: "reg_inv r" "rcur r \<noteq> None" and res: "resolve now f r = ((p, b), r')"
  shows "listen_ok r' \<and> (b \<longrightarrow> p \<noteq> None)"
proof -
  note a = resolve_acct [OF inv res]
  have "listen_ok r'"
  proof (cases "\<not> snd (lookup (f_project f) r) \<and> InlineTokens (cfg r) \<and> f_token f \<noteq> [] \<and> f_project f \<noteq> []")
    case False
    have "resolve now f r = (lookup (f_project f) r, r)" by (simp only: resolve_def if_not_P [OF False])
    then show ?thesis using res ok by simp
  next
    case True': True
    then obtain q where l: "lookup (f_project f) r = (q, False)" by (cases "lookup (f_project f) r") auto
    note True = True'
    have ri: "registerInline now (f_project f) r = ((p, b), r')" using res True by (simp add: resolve_def)
    have i: "reg_inv r'" "rcur r' \<noteq> None" using registerInline_inv [OF inv(1) _ inv(2), of "f_project f" now] True ri by simp_all
    note new = registerInline_new [OF l, of now, unfolded ri]
    show ?thesis
    proof (cases "heap r' = heap r")
      case True
      then have "r' = r" using new True' by (auto split: if_split_asm)
      then show ?thesis using ok by simp
    next
      case False
      then have "heap r' = heap r @ [inlinePipeline (f_project f) (cfg r) now]"
        "sharedRawCh r' = sharedRawCh r" "sharedClosed r' = sharedClosed r" "demuxRunning r' = demuxRunning r"
        "demuxDone r' = demuxDone r" "demuxHold r' = demuxHold r" "processStats r' = processStats r"
        using new True' by (auto split: if_split_asm)
      then show ?thesis by (intro grow_ok(1) [OF ok _ _ i, where c = "cfg r" and now = now]) (auto simp: fresh_started_def)
    qed
  qed
  then show ?thesis using a by simp
qed

lemma dispatch_listen_ok:
  assumes ok: "listen_ok r" and inv: "reg_inv r" "rcur r \<noteq> None"
  shows "listen_ok (snd (dispatch now dg r))"
proof -
  let ?f = "extractAndStripRouting (dg_bytes dg)"
  obtain p b r1 where rs: "resolve now ?f r = ((p, b), r1)" by (metis surj_pair)
  note r1 = resolve_listen_ok [OF ok inv rs]
  have "listen_ok (snd (enqueue i q d r1))" if "dg_bytes d = forwarded dg" for i q d
    using r1 forwarded_clean [OF that] by (intro enqueue_listen_ok) simp_all
  moreover have "listen_ok (r1\<lparr>panicked := x\<rparr>)" for x
    using r1 by (simp add: listen_ok_def core_def routed_def sums_def)
  ultimately show ?thesis using ok r1
    by (auto simp: dispatch_cases [OF rs] listen_ok_bumpSelf forwarded_def Let_def split: option.split)
qed

lemma listenOne_inv:
  assumes inv: "agent_inv r" and reg: "reg_inv r"
  shows "agent_inv (listenOne (dispatch now) bumpSelf b at r) \<and> reg_inv (listenOne (dispatch now) bumpSelf b at r)"
proof -
  let ?l = "listenOne (dispatch now) bumpSelf b at r"
  have c: "core r" "listen_ok r" "s_EventsReceived (processStats r) = accounted r"
    using inv agent_inv_alt by (auto simp: agent_inv_def)
  have s: "sink_ok r" using c(1) reg by (simp add: sink_ok_def core_def)
  note bal = agent.listenOne_balance [OF s, of now b at]
  let ?r1 = "bumpSelf (\<lambda>c. c\<lparr>s_EventsReceived := s_EventsReceived c + 1\<rparr>) r"
  let ?dg = "\<lparr>dg_bytes = b, dg_at = at, dg_project = [], dg_token = []\<rparr>"
  have "listen_ok ?r1" using c(2) by (simp add: listen_ok_bumpSelf)
  then have d: "listen_ok (snd (dispatch now ?dg ?r1))"
    using reg c(1) by (intro dispatch_listen_ok) (simp_all add: core_def)
  obtain res r2 where r2: "dispatch now ?dg ?r1 = (res, r2)" by force
  have "?l = (if res = DQueueFull then bumpSelf (\<lambda>c. c\<lparr>s_DropsQueueFull := s_DropsQueueFull c + 1\<rparr>) r2 else r2)"
    by (simp only: listenOne_def Let_def r2 split)
  moreover have "listen_ok r2" using d by (simp only: r2 snd_conv)
  ultimately have "listen_ok ?l" by (simp add: listen_ok_bumpSelf)
  then show ?thesis using bal c(3) by (simp add: agent_inv_alt sink_ok_def)
qed

end
