(* ===== verification/Drains.thy ===== *)
theory Drains
  imports Agent_Inv
begin

text \<open>
  Why no channel is closed twice: every pipeline is drained at most once, and its channels are open up to the
  phase of its drain that closes them. The configuration and the size of the shared queue never change.
\<close>

section \<open>The phases of a drain\<close>

definition open_pipe :: "pipeline \<Rightarrow> bool" where
  "open_pipe p \<longleftrightarrow> \<not> pl_closed p \<and> \<not> ch_closed (batchCh p)"

fun phase_ok :: "drainPhase option \<Rightarrow> pipeline \<Rightarrow> bool" where
  "phase_ok None p \<longleftrightarrow> open_pipe p"
| "phase_ok (Some Pending) p \<longleftrightarrow> open_pipe p"
| "phase_ok (Some WaitBatcher) p \<longleftrightarrow> pl_closed p \<and> \<not> ch_closed (batchCh p)"
| "phase_ok (Some WaitFlusher) p \<longleftrightarrow> pl_closed p \<and> ch_closed (batchCh p)"
| "phase_ok (Some Drained) p \<longleftrightarrow> pl_closed p \<and> ch_closed (batchCh p) \<and> flushDone p"

definition phaseOf :: "registry \<Rightarrow> nat \<Rightarrow> drainPhase option" where
  "phaseOf r = map_of (map (\<lambda>d. (dr_pid d, dr_phase d)) (drains r))"

definition drains_ok :: "registry \<Rightarrow> bool" where
  "drains_ok r \<longleftrightarrow> distinct (map dr_pid (drains r)) \<and> (\<forall>i < length (heap r). phase_ok (phaseOf r i) (heap r ! i))"

lemma phaseOf_nth:
  "distinct (map dr_pid (drains r)) \<Longrightarrow> k < length (drains r) \<Longrightarrow>
     phaseOf r (dr_pid (drains r ! k)) = Some (dr_phase (drains r ! k))"
  unfolding phaseOf_def by (intro map_of_is_SomeI) (auto simp: comp_def)

lemma phaseOf_None: "phaseOf r i = None \<longleftrightarrow> i \<notin> dr_pid ` set (drains r)"
  by (auto simp: phaseOf_def map_of_eq_None_iff image_image)

lemma phase_ok_flow: "flow p q \<Longrightarrow> phase_ok x p \<Longrightarrow> phase_ok x q"
  by (cases "(x, p)" rule: phase_ok.cases) (auto simp: flow_def open_pipe_def)

section \<open>Steps that only move pipelines forward\<close>

definition adv :: "registry \<Rightarrow> registry \<Rightarrow> bool" where
  "adv r r' \<longleftrightarrow> cfg r' = cfg r \<and> cap (sharedRawCh r') = cap (sharedRawCh r) \<and> length (heap r) \<le> length (heap r') \<and>
     (\<forall>i < length (heap r). flow (heap r ! i) (heap r' ! i)) \<and>
     (\<forall>i < length (heap r'). length (heap r) \<le> i \<longrightarrow> open_pipe (heap r' ! i))"

lemma flow_refl [simp]: "flow p p"
  by (simp add: flow_def)

lemma flow_trans: "flow p q \<Longrightarrow> flow q s \<Longrightarrow> flow p s"
  by (simp add: flow_def)

lemma flow_open: "flow p q \<Longrightarrow> open_pipe p \<Longrightarrow> open_pipe q"
  by (simp add: flow_def open_pipe_def)

lemma adv_refl [simp]: "adv r r"
  by (simp add: adv_def)

lemma adv_trans:
  assumes "adv a b" and "adv b c"
  shows "adv a c"
proof -
  have "flow (heap a ! i) (heap c ! i)" if "i < length (heap a)" for i
    using assms that flow_trans unfolding adv_def by (meson less_le_trans)
  moreover have "open_pipe (heap c ! i)" if "i < length (heap c)" "length (heap a) \<le> i" for i
  proof (cases "i < length (heap b)")
    case True
    then show ?thesis using assms that flow_open unfolding adv_def by blast
  qed (use assms that in \<open>simp add: adv_def\<close>)
  ultimately show ?thesis using assms unfolding adv_def by simp
qed

lemma adv_same_heap:
  "heap r' = heap r \<Longrightarrow> cfg r' = cfg r \<Longrightarrow> cap (sharedRawCh r') = cap (sharedRawCh r) \<Longrightarrow> adv r r'"
  by (simp add: adv_def)

lemma flow_upd: "flow (h ! i) q \<Longrightarrow> j < length h \<Longrightarrow> flow (h ! j) (h[i := q] ! j)"
  by (cases "i = j") simp_all

lemma adv_heap_upd:
  "heap r' = (heap r)[i := q] \<Longrightarrow> cfg r' = cfg r \<Longrightarrow> cap (sharedRawCh r') = cap (sharedRawCh r) \<Longrightarrow>
     flow (heap r ! i) q \<Longrightarrow> adv r r'"
  by (simp add: adv_def flow_upd)

lemma adv_grow:
  assumes "heap r' = heap r @ ps" and "cfg r' = cfg r" and "cap (sharedRawCh r') = cap (sharedRawCh r)"
    and "list_all (fresh_started c now) ps"
  shows "adv r r'"
proof -
  have "open_pipe (heap r' ! i)" if "i < length (heap r')" "length (heap r) \<le> i" for i
  proof -
    have "heap r' ! i \<in> set ps" using that assms(1) by (simp add: nth_append)
    then show ?thesis using fresh_pipe list_all_fresh [OF assms(4)] by (auto simp: open_pipe_def)
  qed
  then show ?thesis using assms(1-3) by (simp add: adv_def nth_append)
qed

lemma adv_bump [simp]: "adv r (bumpSelf f r)" "adv r (bumpPipe i g r)" "adv r (routingClosed i r)"
proof -
  show b: "adv r (bumpSelf f r)" for f r by (rule adv_same_heap) simp_all
  show p: "adv r (bumpPipe i g r)" for i g
    by (rule adv_heap_upd [where i = i and q = "(heap r ! i)\<lparr>pl_stats := g (pl_stats (heap r ! i))\<rparr>"])
       (simp_all add: bumpPipe_def updPipe_def flow_def)
  show "adv r (routingClosed i r)" unfolding routingClosed_def using b p adv_trans by blast
qed

lemma adv_updPipe: "(\<And>p. flow p (f p)) \<Longrightarrow> adv r (updPipe i f r)"
  by (rule adv_heap_upd [where i = i and q = "f (heap r ! i)"]) (simp_all add: updPipe_def)

text \<open>Such a step keeps \<open>drains_ok\<close>, also when it starts drains of pipelines that have none.\<close>

lemma drains_ok_adv:
  assumes ok: "drains_ok r" and a: "adv r r'" and d: "drains r' = drains r @ map (drainOf g x) is"
    and new: "distinct is" "set is \<inter> dr_pid ` set (drains r) = {}"
    and len: "list_all (\<lambda>d. dr_pid d < length (heap r)) (drains r)"
  shows "drains_ok r'"
proof -
  have "distinct (map dr_pid (drains r'))"
    using ok new by (auto simp: drains_ok_def d comp_def)
  moreover have "phase_ok (phaseOf r' i) (heap r' ! i)" if i: "i < length (heap r')" for i
  proof (cases "i < length (heap r)")
    case True
    then have old: "phase_ok (phaseOf r i) (heap r' ! i)"
      using ok a phase_ok_flow unfolding drains_ok_def adv_def by blast
    show ?thesis
    proof (cases "i \<in> set is")
      case True
      then have "phaseOf r i = None" using new by (auto simp: phaseOf_None)
      moreover from this have "phaseOf r' i = Some Pending"
        using True by (auto simp: phaseOf_def d map_add_def comp_def drainOf_def map_of_map_restrict)
      ultimately show ?thesis using old by simp
    next
      case False
      then have "phaseOf r' i = phaseOf r i"
        by (auto simp: phaseOf_def d map_add_def comp_def drainOf_def map_of_map_restrict restrict_map_def split: option.split)
      then show ?thesis using old by simp
    qed
  next
    case False
    then have "open_pipe (heap r' ! i)" using a i by (simp add: adv_def)
    moreover have "phaseOf r i = None" using len False by (auto simp: phaseOf_None list_all_iff)
    then have "phaseOf r' i = None \<or> phaseOf r' i = Some Pending"
      by (auto simp: phaseOf_def d map_add_def comp_def drainOf_def map_of_map_restrict restrict_map_def split: option.split)
    ultimately show ?thesis by auto
  qed
  ultimately show ?thesis by (simp add: drains_ok_def)
qed

section \<open>The steps\<close>

text \<open>What the steps of the listener and of the goroutines keep besides; \<open>still\<close> with the same drains.\<close>

definition still :: "registry \<Rightarrow> registry \<Rightarrow> bool" where
  "still r r' \<longleftrightarrow> adv r r' \<and> drains r' = drains r \<and> panicked r' = panicked r \<and> sharedClosed r' = sharedClosed r"

lemma still_refl [simp]: "still r r"
  by (simp add: still_def)

lemma still_trans: "still a b \<Longrightarrow> still b c \<Longrightarrow> still a c"
  unfolding still_def using adv_trans by auto

lemma still_bump [simp]: "still r (bumpSelf f r)" "still r (bumpPipe i g r)" "still r (routingClosed i r)"
  by (simp_all add: still_def routingClosed_def) (metis adv_bump(3) routingClosed_def)

lemma still_updPipe: "(\<And>p. flow p (f p)) \<Longrightarrow> still r (updPipe i f r)"
  by (simp add: still_def adv_updPipe)

lemma enqueue_still:
  assumes "sharedClosed r \<longleftrightarrow> ch_closed (sharedRawCh r)"
  shows "still r (snd (enqueue i proj dg r))"
proof -
  let ?r = "updPipe i (\<lambda>p. p\<lparr>lastSeen := dg_at dg\<rparr>) r"
  have u: "still r ?r" by (rule still_updPipe) (simp add: flow_def)
  have s: "still r (?r\<lparr>sharedRawCh := c\<rparr>)" if "chTrySend x (sharedRawCh r) = Sent c" for x c
    using u chTrySend_Sent [OF that] by (auto simp: still_def adv_def)
  have "still r (routingClosed i ?r)" using u still_bump(3) still_trans by blast
  moreover have "still r (bumpSelf f (bumpPipe i g r))" for f g
    using still_bump(1,2) still_trans by blast
  moreover have "chTrySend x (sharedRawCh r) \<noteq> SendPanic" if "\<not> sharedClosed r" for x
    using that assms by (simp add: chTrySend_def)
  ultimately show ?thesis
    using u s by (auto simp: enqueue_def Let_def split: sendRes.split)
qed

lemma resolve_still:
  assumes "resolve now f r = ((p, b), r')"
  shows "still r r'"
proof (cases "\<not> snd (lookup (f_project f) r) \<and> InlineTokens (cfg r) \<and> f_token f \<noteq> [] \<and> f_project f \<noteq> []")
  case False
  have "resolve now f r = (lookup (f_project f) r, r)" by (simp only: resolve_def if_not_P [OF False])
  then show ?thesis using assms by simp
next
  case True
  then obtain q where l: "lookup (f_project f) r = (q, False)" by (cases "lookup (f_project f) r") auto
  have ri: "registerInline now (f_project f) r = ((p, b), r')" using assms True by (simp add: resolve_def)
  have "adv r (r\<lparr>heap := heap r @ [inlinePipeline n (cfg r) now], rcur := t, InlineProjectsRegistered := k\<rparr>)" for n t k
    by (rule adv_grow [where ps = "[inlinePipeline n (cfg r) now]" and c = "cfg r" and now = now])
       (auto simp: fresh_started_def)
  then show ?thesis using registerInline_new [OF l, of now, unfolded ri] True
    by (auto simp: still_def split: if_split_asm)
qed

lemma dispatch_still:
  assumes inv: "reg_inv r" "rcur r \<noteq> None" and s: "sharedClosed r \<longleftrightarrow> ch_closed (sharedRawCh r)"
  shows "still r (snd (dispatch now dg r))"
proof -
  let ?f = "extractAndStripRouting (dg_bytes dg)"
  obtain p b r1 where rs: "resolve now ?f r = ((p, b), r1)" by (metis surj_pair)
  note ra = resolve_acct [OF inv rs] resolve_still [OF rs]
  have "still r (snd (enqueue i q d r1))" for i q d
    using ra s enqueue_still [of r1] still_trans by metis
  moreover have "still r (bumpSelf f r1)" for f using ra(2) still_bump(1) still_trans by blast
  ultimately show ?thesis using ra(1) by (auto simp: dispatch_cases [OF rs] split: option.split)
qed

lemma listenOne_still:
  assumes inv: "reg_inv r" "rcur r \<noteq> None" and s: "sharedClosed r \<longleftrightarrow> ch_closed (sharedRawCh r)"
  shows "still r (listenOne (dispatch now) bumpSelf b at r)"
proof -
  let ?r1 = "bumpSelf (\<lambda>c. c\<lparr>s_EventsReceived := s_EventsReceived c + 1\<rparr>) r"
  let ?dg = "\<lparr>dg_bytes = b, dg_at = at, dg_project = [], dg_token = []\<rparr>"
  obtain res r2 where r2: "dispatch now ?dg ?r1 = (res, r2)" by force
  have "still ?r1 r2"
    using dispatch_still [of ?r1 now ?dg] inv s by (simp add: r2)
  then have "still r r2" using still_bump(1) still_trans by blast
  moreover have "listenOne (dispatch now) bumpSelf b at r =
      (if res = DQueueFull then bumpSelf (\<lambda>c. c\<lparr>s_DropsQueueFull := s_DropsQueueFull c + 1\<rparr>) r2 else r2)"
    by (simp only: listenOne_def Let_def r2 split)
  ultimately show ?thesis using still_bump(1) still_trans by auto
qed

lemma local_step_still: "local_step i r r' \<Longrightarrow> still r r'"
  by (auto simp: local_step_def still_def intro!: adv_heap_upd)

lemma trySend_flow: "trySend dg p = Delivered q \<Longrightarrow> flow p q"
  by (auto simp: trySend_def flow_def split: if_split_asm sendRes.split_asm)

lemma demuxPut_still:
  assumes inv: "agent_inv r" and d: "demuxPut r = Some r'"
  shows "still r r'"
proof -
  obtain dg where r': "r' = (demuxOne dg r)\<lparr>demuxHold := None\<rparr>" using d by (auto simp: demuxPut_def)
  have "adv r (demuxOne dg r) \<and> drains (demuxOne dg r) = drains r \<and> sharedClosed (demuxOne dg r) = sharedClosed r"
    by (auto simp: demuxOne_def routingClosed_def adv_same_heap split: prod.split option.split tryResult.split bool.split
        dest!: trySend_flow intro!: adv_heap_upd [where r' = "updPipe i (\<lambda>_. q) r" for i q, OF updPipe_heap] intro: adv_trans adv_bump)
  then show ?thesis using demuxPut_inv [OF inv d] by (simp add: r' still_def adv_def)
qed

end
