(* ===== verification/Lifecycle.thy ===== *)
theory Lifecycle
  imports Drains
begin

text \<open>
  The life of the agent: \<open>early\<close> holds from the start until \<open>shutdown\<close> drains the table; \<open>life\<close> is the
  invariant of every reachable state, \<open>life_strict\<close> adds what holds while no expiry interferes with the
  shutdown.
\<close>

section \<open>Until the drains\<close>

definition early :: "registry \<Rightarrow> bool" where
  "early r \<longleftrightarrow> agent_inv r \<and> reg_inv r \<and> drains_ok r \<and> \<not> panicked r"

lemma early_rcur: "early r \<Longrightarrow> rcur r \<noteq> None"
  by (simp add: early_def agent_inv_def core_def)

lemma agent_flag: "agent_inv r \<Longrightarrow> sharedClosed r \<longleftrightarrow> ch_closed (sharedRawCh r)"
  by (simp add: agent_inv_def core_def)

lemma agent_pids: "agent_inv r \<Longrightarrow> list_all (\<lambda>d. dr_pid d < length (heap r)) (drains r)"
  by (simp add: agent_inv_def core_def)

lemma drains_ok_simps [simp]:
  "drains_ok (r\<lparr>KeysReloadFailures := k\<rparr>) = drains_ok r" "drains_ok (r\<lparr>LastKeysReloadUnix := u\<rparr>) = drains_ok r"
  "drains_ok (r\<lparr>InlineProjectsExpired := n\<rparr>) = drains_ok r" "drains_ok (r\<lparr>demuxHold := d\<rparr>) = drains_ok r"
  "drains_ok (r\<lparr>sharedRawCh := c\<rparr>) = drains_ok r" "drains_ok (r\<lparr>sharedClosed := b\<rparr>) = drains_ok r"
  "drains_ok (r\<lparr>demuxRunning := b\<rparr>) = drains_ok r" "drains_ok (r\<lparr>demuxDone := b\<rparr>) = drains_ok r"
  by (simp_all add: drains_ok_def phaseOf_def)

lemma still_drains_ok: "still r r' \<Longrightarrow> drains_ok r \<Longrightarrow> agent_inv r \<Longrightarrow> drains_ok r'"
  using drains_ok_adv [of r r' 0 False "[]"] agent_pids by (simp add: still_def)

text \<open>A step that only moves forward, and one that adds pipelines, changes the table and starts drains.\<close>

lemma early_still: "early r \<Longrightarrow> still r r' \<Longrightarrow> agent_inv r' \<Longrightarrow> reg_inv r' \<Longrightarrow> early r'"
  unfolding early_def using still_drains_ok by (auto simp: still_def)

lemma early_grow:
  assumes e: "early r" and h: "heap r' = heap r @ ps" and f: "list_all (fresh_started c now) ps"
    and inv: "reg_inv r'" "rcur r' \<noteq> None" and d: "drains r' = drains r @ map (drainOf g x) is"
    and eq: "sharedRawCh r' = sharedRawCh r" "sharedClosed r' = sharedClosed r" "demuxRunning r' = demuxRunning r"
      "demuxDone r' = demuxDone r" "demuxHold r' = demuxHold r" "processStats r' = processStats r"
      "cfg r' = cfg r" "panicked r' = panicked r"
  shows "early r' \<and> adv r r'"
proof -
  have ok: "listen_ok r" "s_EventsReceived (processStats r) = accounted r" "drains_ok r"
    using e by (simp_all add: early_def agent_inv_alt)
  note g = grow_ok [OF ok(1) h f inv eq(1-6)]
  have a: "adv r r'" by (rule adv_grow [OF h eq(7) _ f]) (simp add: eq)
  have "distinct (map snd (prevEntries r') @ map dr_pid (drains r) @ is)"
    using inv(1) by (simp add: reg_inv_def owned_def owners_def d comp_def)
  then have "drains_ok r'"
    using agent_pids e by (intro drains_ok_adv [OF ok(3) a d]) (auto simp: early_def)
  then show ?thesis using g ok(2) e a inv by (simp add: early_def agent_inv_alt eq)
qed

lemma swapTable_early:
  assumes e: "early r" and k: "keys_ok (cfg r) ks"
  shows "early (swapTable now u ks r) \<and> adv r (swapTable now u ks r) \<and>
    sharedClosed (swapTable now u ks r) = sharedClosed r"
proof -
  have inv: "reg_inv r" using e by (simp add: early_def)
  obtain ps where ps: "heap (swapTable now u ks r) = heap r @ ps" "list_all (fresh_started (cfg r) now) ps"
    using swapTable_heap [OF inv k] by blast
  have "distinct (map fst ks)" using k by (simp add: keys_ok_def)
  then obtain h1 es where "swapTable now u ks r =
      r\<lparr>heap := h1, rcur := Some \<lparr>pipelines = es, hasDefault = (map_of es DefaultProject \<noteq> None)\<rparr>,
        drains := drains r @ map (drainOf (ShutdownGrace (cfg r)) False) (stale es (prevEntries r)),
        LastKeysReloadUnix := u\<rparr>"
    using swapTable_effect [OF reg_inv_entries [OF inv], of ks now u] by metis
  then show ?thesis
    using early_grow [OF e ps swapTable_inv [OF inv k, of now u], of "ShutdownGrace (cfg r)" False "stale es (prevEntries r)"] by simp
qed

lemma early_simps [simp]:
  "early (r\<lparr>KeysReloadFailures := k\<rparr>) = early r" "early (r\<lparr>LastKeysReloadUnix := u\<rparr>) = early r"
  by (simp_all add: early_def)

lemma reload_early:
  assumes e: "early r" and f: "file_ok first" "file_ok retry"
  shows "early (snd (reload first retry now u r)) \<and> adv r (snd (reload first retry now u r)) \<and>
    sharedClosed (snd (reload first retry now u r)) = sharedClosed r"
proof -
  have s: "early (swapTable now u (desiredKeys (cfg r) ks) r) \<and> adv r (swapTable now u (desiredKeys (cfg r) ks) r) \<and>
      sharedClosed (swapTable now u (desiredKeys (cfg r) ks) r) = sharedClosed r"
    if "first = Inr ks \<or> retry = Inr ks" "\<not> tooMany (cfg r) (length (desiredKeys (cfg r) ks))" for ks
    using that f by (intro swapTable_early [OF e] desiredKeys_ok) (auto simp: file_ok_def)
  show ?thesis
    using s e by (auto simp: reload_def Let_def adv_same_heap split: sum.split option.split)
qed

text \<open>Expiry: in full while the table owns its pipelines; afterwards what does not depend on that.\<close>

lemma expire_early:
  assumes e: "early r"
  shows "early (snd (expireInline idle now r)) \<and> adv r (snd (expireInline idle now r)) \<and>
    sharedClosed (snd (expireInline idle now r)) = sharedClosed r"
proof -
  obtain t where t: "rcur r = Some t" using early_rcur [OF e] by blast
  have i: "reg_inv (snd (expireInline idle now r))" "rcur (snd (expireInline idle now r)) \<noteq> None"
    using expireInline_inv [of r idle now] e t by (simp_all add: early_def)
  show ?thesis
  proof (cases "idle \<le> 0 \<or> retiredPids idle now r = []")
    case True
    then show ?thesis using e by (simp add: expireInline_effect [OF t])
  next
    case False
    then show ?thesis
      using early_grow [OF e _ _ i, where ps = "[]" and c = "cfg r" and now = 0] t
      by (simp add: expireInline_effect [OF t])
  qed
qed

lemma expire_agent_inv:
  assumes inv: "agent_inv r"
  shows "agent_inv (snd (expireInline idle now r)) \<and> adv r (snd (expireInline idle now r)) \<and>
    sharedClosed (snd (expireInline idle now r)) = sharedClosed r \<and> demuxDone (snd (expireInline idle now r)) = demuxDone r"
proof -
  let ?dead = "retiredPids idle now r"
  obtain t where t: "rcur r = Some t" and ok: "table_ok (cfg r) (heap r) t"
    using inv core_table by (auto simp: agent_inv_def)
  have "i < length (heap r)" if "i \<in> set ?dead" for i
    using that entries_mem [of "heap r" "pipelines t"] ok
    by (auto simp: retiredPids_def prevEntries_def t table_ok_def)
  then have "core (r\<lparr>rcur := Some (liveTable ?dead t), drains := drains r @ map (drainOf (ShutdownGrace (cfg r)) True) ?dead\<rparr>)"
    using inv liveTable_ok [OF ok t] by (auto simp: agent_inv_def core_def list_all_iff)
  then show ?thesis using inv
    by (simp add: expireInline_effect [OF t] adv_same_heap agent_inv_def balance_def routed_def)
qed

section \<open>The shutdown sequence\<close>

lemma closeShared_early:
  assumes e: "early r" and s: "\<not> sharedClosed r"
  shows "early (closeShared r) \<and> sharedClosed (closeShared r) \<and> adv r (closeShared r)"
proof -
  have c: "\<not> ch_closed (sharedRawCh r)" using e s agent_flag by (simp add: early_def)
  then have "closeShared r = r\<lparr>sharedClosed := True, sharedRawCh := (sharedRawCh r)\<lparr>ch_closed := True\<rparr>\<rparr>"
    using s by (simp add: closeShared_def chClose_def)
  moreover have "agent_inv (r\<lparr>sharedClosed := True, sharedRawCh := (sharedRawCh r)\<lparr>ch_closed := True\<rparr>\<rparr>)"
    using e by (simp add: early_def agent_inv_def core_def balance_def routed_def accounted_def chEnded_def)
  ultimately show ?thesis using e by (simp add: early_def adv_same_heap)
qed

lemma shutdownDrains_effect:
  "rcur r = Some t \<Longrightarrow> shutdownDrains g r = r\<lparr>drains := drains r @ map (drainOf g False) (map snd (pipelines t))\<rparr>"
  by (simp add: shutdownDrains_def spawnDrains_effect comp_def)

lemma shutdownDrains_inv:
  assumes e: "early r"
  shows "agent_inv (shutdownDrains g r) \<and> drains_ok (shutdownDrains g r) \<and> adv r (shutdownDrains g r) \<and>
    set (map dr_pid (drains (shutdownDrains g r))) = {..< length (heap r)}"
proof -
  obtain t where t: "rcur r = Some t" using early_rcur [OF e] by blast
  have o: "distinct (map snd (pipelines t) @ map dr_pid (drains r))"
    "set (map snd (pipelines t) @ map dr_pid (drains r)) = {..< length (heap r)}"
    using e by (simp_all add: early_def reg_inv_def owned_def owners_def prevEntries_def t)
  let ?r = "r\<lparr>drains := drains r @ map (drainOf g False) (map snd (pipelines t))\<rparr>"
  have a: "adv r ?r" by (rule adv_same_heap) simp_all
  have "agent_inv ?r"
  proof -
    have "i < length (heap r)" if "(n, i) \<in> set (pipelines t)" for n i using o(2) that by force
    then have "list_all (\<lambda>d. dr_pid d < length (heap r)) (drains ?r)"
      using agent_pids [of r] e by (auto simp: early_def list_all_iff)
    then show ?thesis
      using e by (simp add: early_def agent_inv_def core_def balance_def routed_def)
  qed
  moreover have "drains_ok ?r"
    using o(1) e agent_pids by (intro drains_ok_adv [OF _ a]) (auto simp: early_def)
  ultimately show ?thesis using o(2) a by (auto simp: shutdownDrains_effect [OF t] comp_def)
qed

section \<open>The goroutines behind the listener\<close>

text \<open>What every step of \<open>inner\<close> keeps.\<close>

definition inner_ok :: "registry \<Rightarrow> registry \<Rightarrow> bool" where
  "inner_ok r r' \<longleftrightarrow> agent_inv r' \<and> cfg r' = cfg r \<and> cap (sharedRawCh r') = cap (sharedRawCh r) \<and>
     sharedClosed r' = sharedClosed r \<and> (demuxDone r \<longrightarrow> demuxDone r') \<and> length (heap r') = length (heap r) \<and>
     map dr_pid (drains r') = map dr_pid (drains r) \<and> (reg_inv r \<longrightarrow> reg_inv r') \<and>
     (drains_ok r \<longrightarrow> drains_ok r' \<and> panicked r' = panicked r)"

lemma inner_ok_still:
  assumes "agent_inv r" and "agent_inv r'" and "still r r'" and "length (heap r') = length (heap r)"
    and "demuxDone r \<longrightarrow> demuxDone r'" and "reg_inv r \<longrightarrow> reg_inv r'"
  shows "inner_ok r r'"
  using assms still_drains_ok [OF assms(3)] by (simp add: inner_ok_def still_def adv_def)

lemma local_step_ok: "agent_inv r \<Longrightarrow> local_step i r r' \<Longrightarrow> inner_ok r r'"
proof -
  assume inv: "agent_inv r" and l: "local_step i r r'"
  then obtain q s where r': "r' = r\<lparr>heap := (heap r)[i := q], processStats := s\<rparr>" and q: "same_id (heap r ! i) q"
    by (auto simp: local_step_def pstep_def)
  have "heap_ext (heap r) (heap r')" using heap_ext_upd [OF q] by (simp add: r')
  then have "reg_inv r \<longrightarrow> reg_inv r'" using reg_inv_frame [of r r'] by (simp add: r')
  then show "inner_ok r r'"
    using l by (intro inner_ok_still [OF inv agent_inv_local [OF inv l] local_step_still [OF l]]) (auto simp: local_step_def)
qed

lemma demux_ok:
  assumes inv: "agent_inv r"
  shows "demuxTake r = Some r' \<Longrightarrow> inner_ok r r'" and "demuxPut r = Some r' \<Longrightarrow> inner_ok r r'"
    and "demuxEnd r = Some r' \<Longrightarrow> inner_ok r r'"
proof -
  assume d: "demuxTake r = Some r'"
  then obtain dg c where c: "chRecv (sharedRawCh r) = Some (dg, c)" and r': "r' = r\<lparr>sharedRawCh := c, demuxHold := Some dg\<rparr>"
    by (auto simp: demuxTake_def split: if_split_asm)
  have "still r r'" using chRecv_Some [OF c] by (simp add: r' still_def adv_def)
  then show "inner_ok r r'" by (intro inner_ok_still [OF inv demuxTake_inv [OF inv d]]) (simp_all add: r')
next
  assume d: "demuxPut r = Some r'"
  then obtain dg where r': "r' = (demuxOne dg r)\<lparr>demuxHold := None\<rparr>" by (auto simp: demuxPut_def)
  have "demuxDone (demuxOne dg r) = demuxDone r" "length (heap (demuxOne dg r)) = length (heap r)"
    by (auto simp: demuxOne_def routingClosed_def split: prod.split option.split tryResult.split bool.split)
  then show "inner_ok r r'"
    using demuxPut_inv [OF inv d] demuxOne_inv [of r dg]
    by (intro inner_ok_still [OF inv _ demuxPut_still [OF inv d]]) (simp_all add: r')
next
  assume d: "demuxEnd r = Some r'"
  then have r': "r' = r\<lparr>demuxRunning := False, demuxDone := True\<rparr>" by (auto simp: demuxEnd_def split: if_split_asm)
  have "still r r'" by (simp add: r' still_def adv_def)
  then show "inner_ok r r'" by (intro inner_ok_still [OF inv demuxEnd_inv [OF inv d]]) (simp_all add: r')
qed

lemma setPhase_pids [simp]: "map dr_pid (drains (setPhase k ph r)) = map dr_pid (drains r)"
  by (cases "k < length (drains r)") (auto simp: setPhase_def intro!: nth_equalityI simp: nth_list_update)

lemma setPhase_frame [simp]:
  "heap (setPhase k ph r) = heap r" "rcur (setPhase k ph r) = rcur r" "cfg (setPhase k ph r) = cfg r"
  "panicked (setPhase k ph r) = panicked r" "sharedRawCh (setPhase k ph r) = sharedRawCh r"
  "sharedClosed (setPhase k ph r) = sharedClosed r" "demuxDone (setPhase k ph r) = demuxDone r"
  "length (drains (setPhase k ph r)) = length (drains r)"
  by (simp_all add: setPhase_def)

lemma phaseOf_setPhase:
  assumes d: "distinct (map dr_pid (drains r))" and k: "k < length (drains r)"
  shows "phaseOf (setPhase k ph r) = (phaseOf r)(dr_pid (drains r ! k) \<mapsto> ph)"
proof
  fix i
  let ?r = "setPhase k ph r"
  have d': "distinct (map dr_pid (drains ?r))" and l: "length (drains ?r) = length (drains r)"
    using d by (simp, simp add: setPhase_def)
  show "phaseOf ?r i = ((phaseOf r)(dr_pid (drains r ! k) \<mapsto> ph)) i"
  proof (cases "i \<in> dr_pid ` set (drains r)")
    case False
    moreover have "dr_pid ` set (drains ?r) = dr_pid ` set (drains r)" by (metis setPhase_pids set_map)
    ultimately have "phaseOf ?r i = None" "phaseOf r i = None" by (simp_all add: phaseOf_None)
    then show ?thesis using False k by (auto simp: image_iff)
  next
    case True
    then obtain j where j: "j < length (drains r)" "i = dr_pid (drains r ! j)" by (auto simp: in_set_conv_nth)
    have e: "dr_pid (drains ?r ! j) = i" using j k by (simp add: setPhase_def nth_list_update)
    have "phaseOf ?r i = Some (dr_phase (drains ?r ! j))" using phaseOf_nth [OF d', of j] j(1) l e by simp
    moreover have "phaseOf r i = Some (dr_phase (drains r ! j))" using phaseOf_nth [OF d j(1)] j(2) by simp
    moreover have "dr_pid (drains r ! k) = i \<longleftrightarrow> j = k"
      using d j k by (auto simp: distinct_conv_nth)
    moreover have "drains ?r ! j = (if j = k then (drains r ! k)\<lparr>dr_phase := ph\<rparr> else drains r ! j)"
      using k by (simp add: setPhase_def nth_list_update)
    ultimately show ?thesis by (cases "j = k") simp_all
  qed
qed

text \<open>A drain goes to phase \<open>ph\<close> while its pipeline becomes \<open>q\<close>.\<close>

lemma drain_move:
  assumes ok: "drains_ok r" and k: "k < length (drains r)" and q: "phase_ok (Some ph) q"
  defines "i \<equiv> dr_pid (drains r ! k)"
  shows "drains_ok (setPhase k ph (updPipe i (\<lambda>_. q) r))"
proof -
  let ?u = "updPipe i (\<lambda>_. q) r"
  have d: "distinct (map dr_pid (drains ?u))" "k < length (drains ?u)" using ok k by (simp_all add: drains_ok_def)
  note ph = phaseOf_setPhase [OF d, of ph]
  have p: "phaseOf ?u = phaseOf r" by (simp add: phaseOf_def)
  have h: "heap (setPhase k ph ?u) = (heap r)[i := q]" by (simp add: setPhase_def updPipe_def)
  have "phase_ok (phaseOf (setPhase k ph ?u) j) (heap (setPhase k ph ?u) ! j)" if "j < length (heap r)" for j
    using ok q that unfolding ph h p by (cases "j = i") (simp_all add: i_def drains_ok_def)
  moreover have "distinct (map dr_pid (drains (setPhase k ph ?u)))" using d by simp
  moreover have "length (heap (setPhase k ph ?u)) = length (heap r)" by (simp add: h)
  ultimately show ?thesis by (simp add: drains_ok_def)
qed

lemma drain_same: "drainClose g p = Some q \<Longrightarrow> same_id p q" "drainBatches p = Some q \<Longrightarrow> same_id p q" "same_id p (drainEnd p)"
  by (auto simp: drainClose_def drainBatches_def drainEnd_def same_id_def Let_def split: option.split_asm if_split_asm)

lemma inner_ok_expired [simp]: "inner_ok r (r'\<lparr>InlineProjectsExpired := n\<rparr>) = inner_ok r r'"
  by (simp add: inner_ok_def)

text \<open>A step of a drain: nothing panics where the phases are right.\<close>

lemma drainStep_ok:
  assumes inv: "agent_inv r" and s: "drainStep k r = Some r'"
  shows "inner_ok r r'"
proof -
  have k: "k < length (drains r)" using s by (auto simp: drainStep_def split: if_split_asm)
  let ?i = "dr_pid (drains r ! k)" and ?ph = "dr_phase (drains r ! k)"
  let ?p = "heap r ! ?i"
  have i: "?i < length (heap r)" by (rule drain_pid [OF inv k])
  have ph: "phase_ok (Some ?ph) ?p" if "drains_ok r"
    using that phaseOf_nth [of r k] k i unfolding drains_ok_def by metis
  have move: "inner_ok r (setPhase k ph (updPipe ?i (\<lambda>_. q) r))"
    if "same_id ?p q" "agent_inv (setPhase k ph (updPipe ?i (\<lambda>_. q) r))" "drains_ok r \<Longrightarrow> phase_ok (Some ph) q" for q ph
  proof -
    let ?r = "setPhase k ph (updPipe ?i (\<lambda>_. q) r)"
    have "heap ?r = (heap r)[?i := q]" by (simp add: updPipe_def)
    then have "reg_inv r \<longrightarrow> reg_inv ?r"
      using reg_inv_frame [of r ?r] heap_ext_upd [OF that(1)] by simp
    moreover have "drains_ok r \<longrightarrow> drains_ok ?r" using drain_move [OF _ k that(3)] by blast
    ultimately show ?thesis using that(2) by (simp add: inner_ok_def)
  qed
  have panic: "inner_ok r (r\<lparr>panicked := True\<rparr>)" if "\<not> drains_ok r"
    using that inv by (simp add: inner_ok_def)
  note a = drainStep_inv [OF inv s]
  show ?thesis
  proof (cases ?ph)
    case Pending
    show ?thesis
    proof (cases "drainClose (dr_grace (drains r ! k)) ?p")
      case None
      then have "\<not> drains_ok r" using ph Pending core_pipe [of r ?i] inv i
        by (auto simp: drainClose_def Let_def chClose_def open_pipe_def agent_inv_def pipe_chan_def split: if_split_asm)
      then show ?thesis using panic s k Pending None by (simp add: drainStep_def Let_def)
    next
      case (Some q)
      then have "phase_ok (Some WaitBatcher) q" if "drains_ok r"
        using ph that Pending by (auto simp: drainClose_def Let_def open_pipe_def split: option.split_asm if_split_asm)
      moreover have "r' = setPhase k WaitBatcher (updPipe ?i (\<lambda>_. q) r)"
        using s k Pending Some by (simp add: drainStep_def Let_def)
      ultimately show ?thesis using move [OF drain_same(1) [OF Some], of WaitBatcher] a by blast
    qed
  next
    case WaitBatcher
    then have bd: "batcherDone ?p" using s k by (auto simp: drainStep_def Let_def split: if_split_asm)
    show ?thesis
    proof (cases "drainBatches ?p")
      case None
      then have "\<not> drains_ok r" using ph WaitBatcher by (auto simp: drainBatches_def chClose_def split: if_split_asm)
      then show ?thesis using panic s k WaitBatcher None bd by (simp add: drainStep_def Let_def)
    next
      case (Some q)
      then have "phase_ok (Some WaitFlusher) q" if "drains_ok r"
        using ph that WaitBatcher by (auto simp: drainBatches_def dest!: chClose_Some)
      moreover have "r' = setPhase k WaitFlusher (updPipe ?i (\<lambda>_. q) r)"
        using s k WaitBatcher Some bd by (simp add: drainStep_def Let_def)
      ultimately show ?thesis using move [OF drain_same(2) [OF Some], of WaitFlusher] a by blast
    qed
  next
    case WaitFlusher
    have "updPipe ?i drainEnd r = updPipe ?i (\<lambda>_. drainEnd ?p) r" by (simp add: updPipe_def)
    moreover have "flushDone ?p" using s k WaitFlusher by (auto simp: drainStep_def Let_def split: if_split_asm)
    moreover from this have "phase_ok (Some Drained) (drainEnd ?p)" if "drains_ok r"
      using ph that WaitFlusher by (simp add: drainEnd_def)
    moreover have "agent_inv (setPhase k Drained (updPipe ?i drainEnd r))"
      using a s k WaitFlusher calculation(2) by (auto simp: drainStep_def Let_def split: if_split_asm)
    ultimately have "inner_ok r (setPhase k Drained (updPipe ?i drainEnd r))"
      using move [of "drainEnd ?p" Drained] drain_same(3) by simp
    then show ?thesis using s k WaitFlusher
      by (auto simp: drainStep_def Let_def split: if_split_asm)
  qed (use s k in \<open>simp add: drainStep_def\<close>)
qed

lemma graceFires_ok: "agent_inv r \<Longrightarrow> graceFires k r = Some r' \<Longrightarrow> inner_ok r r'"
proof -
  assume inv: "agent_inv r" and g: "graceFires k r = Some r'"
  let ?i = "dr_pid (drains r ! k)"
  have r': "r' = updPipe ?i (\<lambda>p. p\<lparr>ctxDone := True\<rparr>) r" using g by (auto simp: graceFires_def split: if_split_asm)
  have "still r r'" unfolding r' by (rule still_updPipe) (simp add: flow_def)
  moreover have "reg_inv r \<longrightarrow> reg_inv r'" unfolding r' by (auto intro: reg_inv_upd simp: same_id_def)
  ultimately show "inner_ok r r'"
    by (intro inner_ok_still [OF inv graceFires_inv [OF inv g]]) (simp_all add: r')
qed

theorem inner_keeps:
  assumes inv: "agent_inv r" and s: "inner a r = Some r'"
  shows "inner_ok r r'"
proof -
  have ch: "list_all pipe_chan (heap r)" using inv by (simp add: agent_inv_def core_def)
  note loc = batcherTake_local batcherPut_local [OF _ ch] batcherTimer_local [OF _ ch] batcherEnd_local [OF _ ch]
    flusherTake_local flusherSend_local flusherEnd_local
  show ?thesis
    by (rule inner.cases [of "(a, r)"])
       (use s in \<open>auto intro: demux_ok [OF inv] drainStep_ok [OF inv] graceFires_ok [OF inv] local_step_ok [OF inv] loc\<close>)
qed

section \<open>The agent\<close>

definition queueCap :: "Config \<Rightarrow> nat" where
  "queueCap c = nat (if QueueSize c \<le> 0 then 2000 else QueueSize c)"

lemma install_early:
  assumes i: "install file now (newRegistry c (newSelfStats u)) = Inr r" and f: "file_ok file"
  shows "early r \<and> cfg r = c \<and> cap (sharedRawCh r) = queueCap c \<and> \<not> sharedClosed r \<and> drains r = []"
proof -
  note ii = install_inv [OF i f]
  obtain t h where r: "r = (newRegistry c (newSelfStats u))\<lparr>heap := h, rcur := Some t, demuxRunning := True\<rparr>"
    using ii(4) by blast
  have new: "cfg r = c" "sharedRawCh r = chMake (queueCap c)" "\<not> sharedClosed r" "drains r = []" "demuxHold r = None"
    "\<not> demuxDone r" "demuxRunning r" "\<not> panicked r" "processStats r = newSelfStats u" "heap r = h"
    by (simp_all add: r newRegistry_def queueCap_def Let_def)
  have fr: "fresh_started c now p" if "p \<in> set h" for p using list_all_fresh [OF ii(2)] that new by simp
  have fl: "list_all (fresh_started c now) h" using ii(2) new by simp
  have "core r"
    using ii(1) new fresh_pipe [OF fr] by (auto simp: core_def reg_inv_def chMake_def list_all_iff)
  moreover have "balance r"
    using fresh_sums [OF fl] by (simp add: balance_def accounted_def new newSelfStats_def routingDrops_def chMake_def)
  moreover have "routed r"
    using fresh_pipe [OF fr] by (simp add: routed_def new chMake_def list_all_iff)
  moreover have "drains_ok r"
    using fresh_pipe [OF fr] by (simp add: drains_ok_def phaseOf_def new open_pipe_def)
  ultimately show ?thesis using ii(1) new by (simp add: early_def agent_inv_def chMake_def)
qed

text \<open>What holds in every reachable state.\<close>

definition life :: "Config \<Rightarrow> sys \<Rightarrow> bool" where
  "life c s \<longleftrightarrow> agent_inv (reg s) \<and> cfg (reg s) = c \<and> cap (sharedRawCh (reg s)) = queueCap c \<and>
     (phase s \<in> {Serving, ListenerDone, Closing} \<longrightarrow> early (reg s)) \<and>
     (sharedClosed (reg s) \<longleftrightarrow> phase s \<notin> {Serving, ListenerDone}) \<and>
     (phase s \<in> {Draining, Exited} \<longrightarrow> demuxDone (reg s))"

lemma boot_life: "boot c os now u = Inr s \<Longrightarrow> life c s \<and> phase s = Serving"
  using install_early loadKeysFile_file_ok
  by (auto simp: boot_def life_def early_def split: sum.split_asm)

lemma inner_ok_early: "inner_ok r r' \<Longrightarrow> early r \<Longrightarrow> early r'"
  by (auto simp: inner_ok_def early_def)

lemma adv_fixed: "adv r r' \<Longrightarrow> cfg r' = cfg r \<and> cap (sharedRawCh r') = cap (sharedRawCh r)"
  by (simp add: adv_def)

lemma bumpSelf_early:
  assumes "early r" and "\<And>s. s_EventsReceived (f s) = s_EventsReceived s" "\<And>s. routingDrops (f s) = routingDrops s"
    "\<And>s. s_EventsSent (f s) = s_EventsSent s" "\<And>s. s_DropsFlushFailed (f s) = s_DropsFlushFailed s"
    "\<And>s. s_DropsShutdown (f s) = s_DropsShutdown s"
  shows "early (bumpSelf f r)"
proof -
  have "agent_inv (bumpSelf f r)"
    using assms(1) listen_ok_bumpSelf [of r f] assms(2-) by (simp add: early_def agent_inv_alt accounted_bumpSelf)
  then show ?thesis
    using early_still [OF assms(1) still_bump(1)] assms(1) by (simp add: early_def)
qed

text \<open>The steps of the listener, the signal loop, the ticker and \<open>main\<close>, one by one.\<close>

lemma exec_inner:
  assumes "exec a s = Some s'" and "inner a (reg s) \<noteq> None"
  shows "phase s \<noteq> Exited \<and> phase s' = phase s \<and> inner a (reg s) = Some (reg s')"
  using assms by (cases "(a, s)" rule: exec.cases) (auto split: if_split_asm)

lemma receive_early:
  assumes e: "early r"
  shows "early (listenOne (dispatch now) bumpSelf b at r) \<and> still r (listenOne (dispatch now) bumpSelf b at r)"
proof -
  have inv: "agent_inv r" "reg_inv r" using e by (simp_all add: early_def)
  note i = listenOne_inv [OF inv, of now b at]
  have s: "still r (listenOne (dispatch now) bumpSelf b at r)"
    by (rule listenOne_still [OF inv(2) early_rcur [OF e] agent_flag [OF inv(1)]])
  show ?thesis using early_still [OF e s] i s by blast
qed

lemma reload_step:
  assumes "exec (Reload os1 os2 now u) s = Some s'" and l: "life c s"
  shows "life c s'"
proof -
  have p: "phase s = Serving \<or> phase s = ListenerDone" and s': "s' = s\<lparr>reg := snd (reload
      (loadKeysFile os1 (KeysFile (cfg (reg s)))) (loadKeysFile os2 (KeysFile (cfg (reg s)))) now u (reg s))\<rparr>"
    using assms(1) by (auto simp: Let_def split: if_split_asm)
  have "early (reg s)" using p l by (auto simp: life_def)
  note r = reload_early [OF this loadKeysFile_file_ok loadKeysFile_file_ok,
      of os1 "KeysFile (cfg (reg s))" os2 "KeysFile (cfg (reg s))" now u]
  have "agent_inv (reg s')" "adv (reg s) (reg s')" "early (reg s')" "sharedClosed (reg s') = sharedClosed (reg s)"
    "phase s' = phase s"
    using r by (simp_all add: s' early_def)
  then show ?thesis using l p adv_fixed [of "reg s" "reg s'"] by (auto simp: life_def)
qed

lemma expire_step:
  assumes "exec (Expire now) s = Some s'" and l: "life c s"
  shows "life c s'"
proof -
  have s': "s' = s\<lparr>reg := snd (expireInline (InlineIdle (cfg (reg s))) now (reg s))\<rparr>"
    using assms(1) by (auto split: if_split_asm)
  have inv: "agent_inv (reg s)" using l by (simp add: life_def)
  note a = expire_agent_inv [OF inv, of "InlineIdle (cfg (reg s))" now]
  have "early (reg s')" if "early (reg s)" using expire_early [OF that] by (simp add: s')
  moreover have "agent_inv (reg s')" "adv (reg s) (reg s')" "sharedClosed (reg s') = sharedClosed (reg s)"
    "demuxDone (reg s') = demuxDone (reg s)" "phase s' = phase s"
    using a by (simp_all add: s')
  ultimately show ?thesis using l adv_fixed [of "reg s" "reg s'"] by (auto simp: life_def)
qed

lemma shutdown_step:
  assumes l: "life c s" and "exec a s = Some s'" and "a = CloseShared \<or> a = DrainAll \<or> a = Exit"
  shows "life c s'"
  using assms(3)
proof (elim disjE)
  assume "a = CloseShared"
  then have p: "phase s = ListenerDone" "s' = s\<lparr>reg := closeShared (reg s), phase := Closing\<rparr>"
    using assms(2) by (auto split: if_split_asm)
  moreover from this have "early (reg s)" "\<not> sharedClosed (reg s)" using l by (simp_all add: life_def)
  ultimately show ?thesis
    using l closeShared_early [of "reg s"] adv_fixed [of "reg s" "closeShared (reg s)"] by (simp add: life_def early_def)
next
  assume "a = DrainAll"
  then have p: "phase s = Closing" "demuxDone (reg s)"
    "s' = s\<lparr>reg := shutdownDrains (ShutdownGrace (cfg (reg s))) (reg s), phase := Draining\<rparr>"
    using assms(2) by (auto split: if_split_asm)
  have e: "early (reg s)" using l p by (simp add: life_def)
  obtain t where t: "rcur (reg s) = Some t" using early_rcur [OF e] by blast
  note d = shutdownDrains_inv [OF e, of "ShutdownGrace (cfg (reg s))"]
  have "sharedClosed (reg s') = sharedClosed (reg s)" "demuxDone (reg s') = demuxDone (reg s)"
    by (simp_all add: p shutdownDrains_effect [OF t])
  then show ?thesis using l p d adv_fixed [of "reg s" "reg s'"] by (simp add: life_def)
next
  assume "a = Exit"
  then have "phase s = Draining" "s' = s\<lparr>phase := Exited\<rparr>" using assms(2) by (auto split: if_split_asm)
  then show ?thesis using l by (simp add: life_def)
qed

lemma listener_step:
  assumes l: "life c s" and "exec a s = Some s'" and "a = Receive b at now \<or> a = ReadFails \<or> a = StopListener fatal"
  shows "life c s'"
proof -
  have p: "phase s = Serving" using assms(2,3) by (auto split: if_split_asm)
  then have e: "early (reg s)" using l by (simp add: life_def)
  have f: "early (bumpSelf f (reg s))" if "f = (\<lambda>c. c\<lparr>s_ReadErrors := s_ReadErrors c + 1\<rparr>) \<or> f = (\<lambda>c. c\<lparr>s_ListenerFatal := True\<rparr>)" for f
    using that by (intro bumpSelf_early [OF e]) (auto simp: routingDrops_def)
  have "still (reg s) (reg s') \<and> early (reg s') \<and> phase s' \<in> {Serving, ListenerDone}"
    using assms(2,3) p receive_early [OF e] f e by auto
  then show ?thesis
    using l p adv_fixed [of "reg s" "reg s'"] by (auto simp: life_def still_def early_def)
qed

lemma life_step:
  assumes l: "life c s" and s: "sysStep a s = Some s'"
  shows "life c s'"
proof -
  have e: "exec a s = Some s'" using s by (simp add: sysStep_def split: if_split_asm)
  show ?thesis
  proof (cases "inner a (reg s)")
    case (Some r')
    then have x: "phase s' = phase s" "inner a (reg s) = Some (reg s')" using exec_inner [OF e] by simp_all
    have i: "inner_ok (reg s) (reg s')" using inner_keeps [OF _ x(2)] l by (simp add: life_def)
    have "early (reg s) \<longrightarrow> early (reg s')" using inner_ok_early [OF i] by blast
    then show ?thesis
      using l i unfolding life_def inner_ok_def x(1) by simp
  next
    case None
    show ?thesis
    proof (cases a)
      case (Receive b at now)
      then show ?thesis using listener_step [OF l e] by blast
    next
      case (StopListener fatal)
      then show ?thesis using listener_step [OF l e] by blast
    next
      case (Reload os1 os2 now u)
      then show ?thesis using reload_step e l by blast
    next
      case (Expire now)
      then show ?thesis using expire_step e l by blast
    next
      case ReadFails
      then show ?thesis using listener_step [OF l e] by blast
    next
      case CloseShared
      then show ?thesis using shutdown_step [OF l e] by blast
    next
      case DrainAll
      then show ?thesis using shutdown_step [OF l e] by blast
    next
      case Exit
      then show ?thesis using shutdown_step [OF l e] by blast
    qed (use e None in \<open>simp_all split: if_split_asm\<close>)
  qed
qed

theorem reachable_life: "reachable c admits s \<Longrightarrow> life c s"
  by (induction rule: reachable.induct) (auto dest: boot_life life_step)

section \<open>Without a late expiry\<close>

definition settled :: "sys \<Rightarrow> bool" where
  "settled s \<longleftrightarrow>
     (phase s \<in> {Draining, Exited} \<longrightarrow> drains_ok (reg s) \<and> \<not> panicked (reg s) \<and>
        set (map dr_pid (drains (reg s))) = {..< length (heap (reg s))}) \<and>
     (phase s = Exited \<longrightarrow> list_all (\<lambda>d. dr_phase d = Drained) (drains (reg s)))"

lemma settled_step:
  assumes l: "life c s" and n: "settled s" and s: "sysStep a s = Some s'" and a: "noLateExpiry (phase s) a"
  shows "settled s'"
proof -
  have e: "exec a s = Some s'" using s by (simp add: sysStep_def split: if_split_asm)
  show ?thesis
  proof (cases "inner a (reg s)")
    case (Some r')
    then have x: "phase s \<noteq> Exited" "phase s' = phase s" "inner a (reg s) = Some (reg s')" using exec_inner [OF e] by simp_all
    have i: "inner_ok (reg s) (reg s')" using inner_keeps [OF _ x(3)] l by (simp add: life_def)
    then have "set (map dr_pid (drains (reg s'))) = set (map dr_pid (drains (reg s)))" by (simp only: inner_ok_def)
    then show ?thesis using n x i by (simp add: settled_def inner_ok_def)
  next
    case None
    show ?thesis
    proof (cases "phase s' \<in> {Draining, Exited}")
      case True
      then consider "a = DrainAll" | "a = Exit"
        using e a None by (cases "(a, s)" rule: exec.cases) (auto simp: Let_def split: if_split_asm)
      then show ?thesis
      proof cases
        case 1
        then have p: "phase s = Closing" "s' = s\<lparr>reg := shutdownDrains (ShutdownGrace (cfg (reg s))) (reg s), phase := Draining\<rparr>"
          using e by (auto split: if_split_asm)
        have e: "early (reg s)" using l p by (simp add: life_def)
        obtain t where t: "rcur (reg s) = Some t" using early_rcur [OF e] by blast
        show ?thesis using e shutdownDrains_inv [OF e, of "ShutdownGrace (cfg (reg s))"]
          by (simp add: settled_def p early_def shutdownDrains_effect [OF t])
      next
        case 2
        then show ?thesis using e n by (auto simp: settled_def split: if_split_asm)
      qed
    qed (simp add: settled_def)
  qed
qed

theorem reachable_settled: "reachable c noLateExpiry s \<Longrightarrow> settled s"
proof (induction rule: reachable.induct)
  case (booted os now u s)
  then show ?case using boot_life by (simp add: settled_def)
next
  case (stepped s a s')
  then show ?case using settled_step reachable_life by blast
qed

lemma settled_no_panic: "life c s \<Longrightarrow> settled s \<Longrightarrow> \<not> panicked (reg s)"
  by (cases "phase s") (simp_all add: life_def settled_def early_def)

text \<open>A drained pipeline is empty.\<close>

definition emptied :: "pipeline \<Rightarrow> bool" where
  "emptied p \<longleftrightarrow> buf (rawCh p) = [] \<and> batcherHold p = None \<and> cur (pl_batcher p) = [] \<and> buf (batchCh p) = [] \<and>
     flusherHold p = None \<and> batcherDone p \<and> flushDone p"

lemma drained_emptied: "pipe_chan p \<Longrightarrow> phase_ok (Some Drained) p \<Longrightarrow> emptied p"
  by (auto simp: emptied_def pipe_chan_def chEnded_def)

lemma exited_emptied:
  assumes l: "life c s" and n: "settled s" and x: "phase s = Exited"
  shows "list_all emptied (heap (reg s)) \<and> buf (sharedRawCh (reg s)) = [] \<and> demuxHold (reg s) = None"
proof -
  let ?r = "reg s"
  have d: "drains_ok ?r" "set (map dr_pid (drains ?r)) = {..< length (heap ?r)}" "list_all (\<lambda>d. dr_phase d = Drained) (drains ?r)"
    using n x by (simp_all add: settled_def)
  have "emptied (heap ?r ! i)" if i: "i < length (heap ?r)" for i
  proof -
    have "i \<in> set (map dr_pid (drains ?r))" using d(2) i by simp
    then obtain k where k: "k < length (drains ?r)" "dr_pid (drains ?r ! k) = i" by (auto simp: in_set_conv_nth)
    then have "phaseOf ?r i = Some Drained"
      using phaseOf_nth [of ?r k] d by (simp add: drains_ok_def list_all_length)
    then have "phase_ok (Some Drained) (heap ?r ! i)" using d(1) i by (metis drains_ok_def)
    then show ?thesis using drained_emptied core_pipe [of ?r i] l i by (simp add: life_def agent_inv_def)
  qed
  moreover have "chEnded (sharedRawCh ?r) \<and> demuxHold ?r = None"
    using l x by (auto simp: life_def agent_inv_def core_def)
  ultimately show ?thesis by (simp add: list_all_length chEnded_def)
qed

end
