(* ===== verification/Shutdown.thy ===== *)
theory Shutdown
  imports Lifecycle
begin

text \<open>
  Shutdown ends: once no more datagrams, reloads and expiries come in, every step of the goroutines and of
  \<open>main\<close> lowers \<open>weight\<close>, and until \<open>main\<close> has returned some step is enabled.
\<close>

section \<open>The weight\<close>

text \<open>A datagram weighs less at every place it moves to: shared queue, demuxer, handoff channel, batcher,
  current batch; a batch weighs less than the events in it.\<close>

definition batchWeight :: "batcher \<Rightarrow> EventBatch list \<Rightarrow> nat" where
  "batchWeight b bs = 3 * length (cur b) + of_bool (armed b) + 2 * length bs"

definition pipeWeight :: "pipeline \<Rightarrow> nat" where
  "pipeWeight p = 6 * length (buf (rawCh p)) + 5 * of_bool (batcherHold p \<noteq> None)
     + batchWeight (pl_batcher p) (buf (batchCh p)) + of_bool (flusherHold p \<noteq> None)
     + of_bool (\<not> batcherDone p) + of_bool (\<not> flushDone p) + of_bool (\<not> ctxDone p)"

fun phaseWeight :: "drainPhase \<Rightarrow> nat" where
  "phaseWeight Pending = 3"
| "phaseWeight WaitBatcher = 2"
| "phaseWeight WaitFlusher = 1"
| "phaseWeight Drained = 0"

definition regWeight :: "registry \<Rightarrow> nat" where
  "regWeight r = 8 * length (buf (sharedRawCh r)) + 7 * of_bool (demuxHold r \<noteq> None) + of_bool (\<not> demuxDone r)
     + (\<Sum>p\<leftarrow>heap r. pipeWeight p) + (\<Sum>d\<leftarrow>drains r. phaseWeight (dr_phase d))"

definition weight :: "sys \<Rightarrow> nat" where
  "weight s = regWeight (reg s) +
     (case phase s of
        Serving \<Rightarrow> 4 + 3 * length (prevEntries (reg s))
      | ListenerDone \<Rightarrow> 3 + 3 * length (prevEntries (reg s))
      | Closing \<Rightarrow> 2 + 3 * length (prevEntries (reg s))
      | Draining \<Rightarrow> 1
      | Exited \<Rightarrow> 0)"

lemma sum_upd:
  fixes f :: "'a \<Rightarrow> nat"
  shows "i < length xs \<Longrightarrow> (\<Sum>x\<leftarrow>xs[i := y]. f x) + f (xs ! i) = (\<Sum>x\<leftarrow>xs. f x) + f y"
proof (induction xs arbitrary: i)
  case (Cons x xs)
  show ?case
  proof (cases i)
    case (Suc j)
    then show ?thesis using Cons.IH [of j] Cons.prems by simp
  qed simp
qed simp

section \<open>The batcher\<close>

definition bWeight :: "bstate \<Rightarrow> nat" where
  "bWeight st = batchWeight (bt st) (sent st)"

lemma flush_weight: "bWeight (flush ft st) \<le> bWeight st"
proof (cases "cur (bt st) = []")
  case False
  then have "length (cur (bt st)) \<ge> 1" by (cases "cur (bt st)") simp_all
  then show ?thesis by (simp add: bWeight_def batchWeight_def flush_bt flush_sent)
qed (simp add: flush_def)

lemma disarm_weight: "bWeight (disarm st) + of_bool (armed (bt st)) = bWeight st"
  by (simp add: bWeight_def batchWeight_def)

lemma armed_flush [simp]: "armed (bt (flush ft st)) = armed (bt st)"
  by (simp add: flush_bt)

lemma disarm_flush_weight: "bWeight (disarm (flush ft st)) + of_bool (armed (bt st)) \<le> bWeight st"
  using flush_weight [of ft st] disarm_weight [of "flush ft st"] by simp

lemma onDatagram_weight: "bWeight (onDatagram f1 f2 now dg st) \<le> bWeight st + 4"
proof -
  obtain ev r where v: "validateEvent (dg_bytes dg) (b_maxEventBytes (bt st)) now = (ev, r)" by force
  have pre: "bWeight (preFlush f1 e (bumpReceived st)) \<le> bWeight st" for e
    using disarm_flush_weight [of f1 "bumpReceived st"] by (auto simp: preFlush_def bWeight_def)
  have app: "bWeight (appendEvent e dg x) \<le> bWeight x + 4" for e x
    by (simp add: bWeight_def batchWeight_def appendEvent_bt)
  have post: "bWeight (postFlush f2 x) \<le> bWeight x" for x
    using disarm_flush_weight [of f2 x] by (auto simp: postFlush_def)
  show ?thesis
  proof (cases r)
    case validateOK
    have "bWeight (onDatagram f1 f2 now dg st) \<le> bWeight (preFlush f1 (the ev) (bumpReceived st)) + 4"
      using order_trans [OF post app] by (simp add: onDatagram_def v validateOK)
    then show ?thesis using pre [of "the ev"] by linarith
  qed (simp_all add: onDatagram_def v bWeight_def)
qed

lemma onTimer_weight: "armed (bt st) \<Longrightarrow> bWeight (onTimer ft st) < bWeight st"
  using disarm_flush_weight [of ft st] by (simp add: onTimer_def)

lemma onClosed_weight: "bWeight (onClosed ft st) \<le> bWeight st"
  by (simp add: onClosed_def flush_weight)

section \<open>Steps on one pipeline\<close>

lemma pipe_lower:
  assumes "i < length (heap r)" and "pipeWeight q < pipeWeight (heap r ! i)"
  shows "regWeight (r\<lparr>heap := (heap r)[i := q], processStats := s\<rparr>) < regWeight r"
  using sum_upd [OF assms(1), of pipeWeight q] assms(2) by (simp add: regWeight_def)

lemma updPipe_lower:
  "i < length (heap r) \<Longrightarrow> pipeWeight (f (heap r ! i)) < pipeWeight (heap r ! i) \<Longrightarrow> regWeight (updPipe i f r) < regWeight r"
  using sum_upd [of i "heap r" pipeWeight "f (heap r ! i)"] by (simp add: regWeight_def updPipe_def)

lemma wrote_weight:
  "pipeWeight (wrote p st hold done) = 6 * length (buf (rawCh p)) + 5 * of_bool (hold \<noteq> None) + bWeight st
     + of_bool (flusherHold p \<noteq> None) + of_bool (\<not> done) + of_bool (\<not> flushDone p) + of_bool (\<not> ctxDone p)"
  by (simp add: wrote_def pipeWeight_def bWeight_def)

lemma pipeWeight_bstate:
  "pipeWeight (heap r ! i) = 6 * length (buf (rawCh (heap r ! i))) + 5 * of_bool (batcherHold (heap r ! i) \<noteq> None)
     + bWeight (bstateOf i r) + of_bool (flusherHold (heap r ! i) \<noteq> None) + of_bool (\<not> batcherDone (heap r ! i))
     + of_bool (\<not> flushDone (heap r ! i)) + of_bool (\<not> ctxDone (heap r ! i))"
  by (simp add: pipeWeight_def bWeight_def bstateOf_def)

lemma batcher_lower:
  assumes ch: "list_all pipe_chan (heap r)"
  shows "batcherTake i r = Some r' \<Longrightarrow> regWeight r' < regWeight r"
    and "batcherPut i f1 f2 now r = Some r' \<Longrightarrow> regWeight r' < regWeight r"
    and "batcherTimer i ft r = Some r' \<Longrightarrow> regWeight r' < regWeight r"
    and "batcherEnd i ft r = Some r' \<Longrightarrow> regWeight r' < regWeight r"
proof -
  let ?p = "heap r ! i"
  have c: "pipe_chan ?p" if "i < length (heap r)" using ch that by (simp add: list_all_length)
  show "regWeight r' < regWeight r" if "batcherTake i r = Some r'"
  proof -
    obtain dg d where i: "i < length (heap r)" "batcherHold ?p = None" and d: "chRecv (rawCh ?p) = Some (dg, d)"
      and r': "r' = updPipe i (\<lambda>p. p\<lparr>rawCh := d, batcherHold := Some dg\<rparr>) r"
      using \<open>batcherTake i r = Some r'\<close> by (auto simp: batcherTake_def alive_def split: if_split_asm option.split_asm)
    show ?thesis unfolding r' using i chRecv_Some [OF d] by (intro updPipe_lower) (simp_all add: pipeWeight_def)
  qed
  show "regWeight r' < regWeight r" if "batcherPut i f1 f2 now r = Some r'"
  proof -
    obtain dg r1 where i: "i < length (heap r)" "\<not> batcherDone ?p" "batcherHold ?p = Some dg"
      and r1: "runBatcher i {f1, f2} (onDatagram f1 f2 now dg (bstateOf i r)) r = Some r1"
      and r': "r' = updPipe i (\<lambda>p. p\<lparr>batcherHold := None\<rparr>) r1"
      using \<open>batcherPut i f1 f2 now r = Some r'\<close> by (auto simp: batcherPut_def alive_def split: if_split_asm option.split_asm)
    show ?thesis
      unfolding r' runBatcher_Some(1) [OF r1 c [OF i(1)] i(2)] putBstate_wrote(2) [OF i(1,2)]
      using i onDatagram_weight [of f1 f2 now dg "bstateOf i r"]
      by (intro pipe_lower) (simp_all add: wrote_weight pipeWeight_bstate)
  qed
  show "regWeight r' < regWeight r" if "batcherTimer i ft r = Some r'"
  proof -
    have i: "i < length (heap r)" "\<not> batcherDone ?p" "batcherHold ?p = None" "armed (bt (bstateOf i r))"
      and r1: "runBatcher i {ft} (onTimer ft (bstateOf i r)) r = Some r'"
      using \<open>batcherTimer i ft r = Some r'\<close> by (auto simp: batcherTimer_def alive_def bstateOf_def split: if_split_asm)
    show ?thesis
      unfolding runBatcher_Some(1) [OF r1 c [OF i(1)] i(2)] putBstate_wrote(1) [OF i(1,2)]
      using i onTimer_weight [OF i(4), of ft] by (intro pipe_lower) (simp_all add: wrote_weight pipeWeight_bstate)
  qed
  show "regWeight r' < regWeight r" if "batcherEnd i ft r = Some r'"
  proof -
    obtain r1 where i: "i < length (heap r)" "\<not> batcherDone ?p" "batcherHold ?p = None"
      and r1: "runBatcher i {ft} (onClosed ft (bstateOf i r)) r = Some r1"
      and r': "r' = updPipe i (\<lambda>p. p\<lparr>batcherDone := True\<rparr>) r1"
      using \<open>batcherEnd i ft r = Some r'\<close> by (auto simp: batcherEnd_def alive_def split: if_split_asm)
    show ?thesis
      unfolding r' runBatcher_Some(1) [OF r1 c [OF i(1)] i(2)] putBstate_wrote(3) [OF i(1,2)]
      using i onClosed_weight [of ft "bstateOf i r"] by (intro pipe_lower) (simp_all add: wrote_weight pipeWeight_bstate)
  qed
qed

lemma flusher_lower:
  "flusherTake i r = Some r' \<Longrightarrow> regWeight r' < regWeight r"
  "flusherSend i w http now r = Some r' \<Longrightarrow> regWeight r' < regWeight r"
  "flusherEnd i r = Some r' \<Longrightarrow> regWeight r' < regWeight r"
proof -
  let ?p = "heap r ! i"
  show "regWeight r' < regWeight r" if "flusherTake i r = Some r'"
  proof -
    obtain b c where i: "i < length (heap r)" "flusherHold ?p = None" and c: "chRecv (batchCh ?p) = Some (b, c)"
      and r': "r' = updPipe i (\<lambda>p. p\<lparr>batchCh := c, flusherHold := Some b\<rparr>) r"
      using \<open>flusherTake i r = Some r'\<close> by (auto simp: flusherTake_def split: if_split_asm option.split_asm)
    show ?thesis unfolding r' using i chRecv_Some [OF c] by (intro updPipe_lower) (simp_all add: pipeWeight_def batchWeight_def)
  qed
  show "regWeight r' < regWeight r" if "flusherSend i w http now r = Some r'"
  proof -
    obtain b s ps where i: "i < length (heap r)" "flusherHold ?p = Some b"
      and r': "r' = (updPipe i (\<lambda>p. p\<lparr>pl_stats := ps, flusherHold := None\<rparr>) r)\<lparr>processStats := s\<rparr>"
      using \<open>flusherSend i w http now r = Some r'\<close> by (auto simp: flusherSend_def Let_def split: if_split_asm option.split_asm prod.split_asm)
    have "regWeight (updPipe i (\<lambda>p. p\<lparr>pl_stats := ps, flusherHold := None\<rparr>) r) < regWeight r"
      using i by (intro updPipe_lower) (simp_all add: pipeWeight_def)
    then show ?thesis by (simp add: r' regWeight_def)
  qed
  show "regWeight r' < regWeight r" if "flusherEnd i r = Some r'"
  proof -
    have i: "i < length (heap r)" "\<not> flushDone ?p" and r': "r' = updPipe i (\<lambda>p. p\<lparr>flushDone := True\<rparr>) r"
      using that by (auto simp: flusherEnd_def split: if_split_asm)
    show ?thesis unfolding r' using i by (intro updPipe_lower) (simp_all add: pipeWeight_def)
  qed
qed

section \<open>The demuxer and the drains\<close>

lemma trySend_weight:
  assumes "trySend dg p = Delivered q"
  shows "pipeWeight q = pipeWeight p + 6"
proof -
  from assms obtain c where c: "chTrySend dg (rawCh p) = Sent c" and q: "q = p\<lparr>rawCh := c\<rparr>"
    by (auto simp: trySend_def split: if_split_asm sendRes.split_asm)
  show ?thesis using chTrySend_Sent [OF c] by (simp add: q pipeWeight_def)
qed

lemma bumpPipe_weight [simp]: "regWeight (bumpPipe i f r) = regWeight r"
proof (cases "i < length (heap r)")
  case True
  then show ?thesis
    using sum_upd [OF True, of pipeWeight "(heap r ! i)\<lparr>pl_stats := f (pl_stats (heap r ! i))\<rparr>"]
    by (simp add: regWeight_def bumpPipe_def updPipe_def pipeWeight_def)
qed (simp add: bumpPipe_def updPipe_def list_update_beyond)

lemma regWeight_simps [simp]:
  "regWeight (bumpSelf f r) = regWeight r" "regWeight (r\<lparr>panicked := b\<rparr>) = regWeight r"
  "regWeight (r\<lparr>InlineProjectsExpired := n\<rparr>) = regWeight r" "regWeight (r\<lparr>processStats := s\<rparr>) = regWeight r"
  by (simp_all add: regWeight_def bumpSelf_def)

lemma routingClosed_weight [simp]: "regWeight (routingClosed i r) = regWeight r"
  by (simp add: routingClosed_def)

lemma demuxOne_weight:
  assumes "agent_inv r"
  shows "regWeight (demuxOne dg r) \<le> regWeight r + 6" and "demuxHold (demuxOne dg r) = demuxHold r"
proof -
  obtain p ok where l: "lookup (dg_project dg) r = (p, ok)" by force
  have c: "core r" using assms by (simp add: agent_inv_def)
  have "regWeight (updPipe i (\<lambda>_. q) r) \<le> regWeight r + 6"
    if "p = Some i" "trySend dg (heap r ! i) = Delivered q" for i q
  proof -
    have i: "i < length (heap r)" using core_lookup(2) [OF c l that(1)] by simp
    show ?thesis using sum_upd [OF i, of pipeWeight q] trySend_weight [OF that(2)] by (simp add: regWeight_def updPipe_def)
  qed
  then show "regWeight (demuxOne dg r) \<le> regWeight r + 6"
    by (auto simp: demuxOne_def l split: option.split bool.split tryResult.split)
  show "demuxHold (demuxOne dg r) = demuxHold r"
    by (auto simp: demuxOne_def routingClosed_def split: prod.split option.split bool.split tryResult.split)
qed

lemma demux_lower:
  assumes "agent_inv r"
  shows "demuxTake r = Some r' \<Longrightarrow> regWeight r' < regWeight r"
    and "demuxPut r = Some r' \<Longrightarrow> regWeight r' < regWeight r"
    and "demuxEnd r = Some r' \<Longrightarrow> regWeight r' < regWeight r"
proof -
  show "regWeight r' < regWeight r" if "demuxTake r = Some r'"
  proof -
    obtain dg c where c: "chRecv (sharedRawCh r) = Some (dg, c)" "demuxHold r = None"
      and r': "r' = r\<lparr>sharedRawCh := c, demuxHold := Some dg\<rparr>"
      using \<open>demuxTake r = Some r'\<close> by (auto simp: demuxTake_def split: if_split_asm)
    show ?thesis using c chRecv_Some [OF c(1)] by (simp add: r' regWeight_def)
  qed
  show "regWeight r' < regWeight r" if "demuxPut r = Some r'"
  proof -
    obtain dg where h: "demuxHold r = Some dg" and r': "r' = (demuxOne dg r)\<lparr>demuxHold := None\<rparr>"
      using \<open>demuxPut r = Some r'\<close> by (auto simp: demuxPut_def)
    have "regWeight r' + 7 = regWeight (demuxOne dg r)"
      using demuxOne_weight(2) [OF assms, of dg] h by (simp add: r' regWeight_def)
    then show ?thesis using demuxOne_weight(1) [OF assms, of dg] by linarith
  qed
  show "regWeight r' < regWeight r" if "demuxEnd r = Some r'"
    using that assms by (auto simp: demuxEnd_def regWeight_def agent_inv_def core_def split: if_split_asm)
qed

lemma setPhase_weight:
  "k < length (drains r) \<Longrightarrow>
     regWeight (setPhase k ph r) + phaseWeight (dr_phase (drains r ! k)) = regWeight r + phaseWeight ph"
  using sum_upd [of k "drains r" "\<lambda>d. phaseWeight (dr_phase d)" "(drains r ! k)\<lparr>dr_phase := ph\<rparr>"]
  by (simp add: regWeight_def setPhase_def)

lemma drain_weight:
  "drainClose g p = Some q \<Longrightarrow> pipeWeight q \<le> pipeWeight p" "drainBatches p = Some q \<Longrightarrow> pipeWeight q \<le> pipeWeight p"
  "pipeWeight (drainEnd p) \<le> pipeWeight p"
proof -
  show "pipeWeight q \<le> pipeWeight p" if "drainClose g p = Some q"
  proof -
    obtain c where c: "chClose (rawCh p) = Some c"
      and q: "q = p\<lparr>pl_closed := True, rawCh := c\<rparr> \<or> q = p\<lparr>pl_closed := True, rawCh := c, ctxDone := True\<rparr>"
      using \<open>drainClose g p = Some q\<close> by (auto simp: drainClose_def Let_def split: option.split_asm if_split_asm)
    show ?thesis using q chClose_Some [OF c] by (elim disjE) (simp_all add: pipeWeight_def)
  qed
  show "pipeWeight q \<le> pipeWeight p" if "drainBatches p = Some q"
  proof -
    obtain c where c: "chClose (batchCh p) = Some c" and q: "q = p\<lparr>batchCh := c\<rparr>"
      using \<open>drainBatches p = Some q\<close> by (auto simp: drainBatches_def)
    show ?thesis using chClose_Some [OF c] by (simp add: q pipeWeight_def)
  qed
  show "pipeWeight (drainEnd p) \<le> pipeWeight p" by (simp add: drainEnd_def pipeWeight_def)
qed

lemma drainStep_lower:
  assumes inv: "agent_inv r" and ok: "drains_ok r" and np: "\<not> panicked r" and s: "drainStep k r = Some r'"
  shows "regWeight r' < regWeight r"
proof -
  have k: "k < length (drains r)" using s by (auto simp: drainStep_def split: if_split_asm)
  let ?i = "dr_pid (drains r ! k)"
  have i: "?i < length (heap r)" by (rule drain_pid [OF inv k])
  have "\<not> panicked r'" using drainStep_ok [OF inv s] ok np by (simp add: inner_ok_def)
  then have nr: "r' \<noteq> r\<lparr>panicked := True\<rparr>" by auto
  have move: "regWeight (setPhase k ph (updPipe ?i (\<lambda>_. q) r)) < regWeight r"
    if "pipeWeight q \<le> pipeWeight (heap r ! ?i)" "phaseWeight ph < phaseWeight (dr_phase (drains r ! k))" for ph q
  proof -
    have "regWeight (updPipe ?i (\<lambda>_. q) r) \<le> regWeight r"
      using sum_upd [OF i, of pipeWeight q] that(1) by (simp add: regWeight_def updPipe_def)
    then show ?thesis using setPhase_weight [of k "updPipe ?i (\<lambda>_. q) r" ph] k that(2) by simp
  qed
  show ?thesis
  proof (cases "dr_phase (drains r ! k)")
    case Pending
    then obtain q where q: "drainClose (dr_grace (drains r ! k)) (heap r ! ?i) = Some q"
      and "r' = setPhase k WaitBatcher (updPipe ?i (\<lambda>_. q) r)"
      using s k nr by (auto simp: drainStep_def Let_def split: option.split_asm)
    then show ?thesis using move [OF drain_weight(1) [OF q], of WaitBatcher] Pending by simp
  next
    case WaitBatcher
    then obtain q where q: "drainBatches (heap r ! ?i) = Some q"
      and "r' = setPhase k WaitFlusher (updPipe ?i (\<lambda>_. q) r)"
      using s k nr by (auto simp: drainStep_def Let_def split: option.split_asm if_split_asm)
    then show ?thesis using move [OF drain_weight(2) [OF q], of WaitFlusher] WaitBatcher by simp
  next
    case WaitFlusher
    have "updPipe ?i drainEnd r = updPipe ?i (\<lambda>_. drainEnd (heap r ! ?i)) r" by (simp add: updPipe_def)
    then have "regWeight (setPhase k Drained (updPipe ?i drainEnd r)) < regWeight r"
      using move [OF drain_weight(3), of Drained] WaitFlusher by simp
    then show ?thesis using s k WaitFlusher by (auto simp: drainStep_def Let_def split: if_split_asm)
  qed (use s k in \<open>simp add: drainStep_def\<close>)
qed

lemma graceFires_lower: "agent_inv r \<Longrightarrow> graceFires k r = Some r' \<Longrightarrow> regWeight r' < regWeight r"
  using drain_pid by (auto simp: graceFires_def pipeWeight_def split: if_split_asm intro!: updPipe_lower)

lemma inner_lower:
  assumes inv: "agent_inv r" and d: "drains_ok r" "\<not> panicked r" and s: "inner a r = Some r'"
  shows "regWeight r' < regWeight r"
proof -
  have ch: "list_all pipe_chan (heap r)" using inv by (simp add: agent_inv_def core_def)
  show ?thesis
    by (rule inner.cases [of "(a, r)"])
       (use s in \<open>auto intro: demux_lower [OF inv] drainStep_lower [OF inv d] graceFires_lower [OF inv]
          batcher_lower [OF ch] flusher_lower\<close>)
qed

section \<open>The agent\<close>

text \<open>The steps that are left once nothing comes in from outside.\<close>

fun winding :: "action \<Rightarrow> bool" where
  "winding (Receive b at now) \<longleftrightarrow> False"
| "winding ReadFails \<longleftrightarrow> False"
| "winding (Reload os1 os2 now u) \<longleftrightarrow> False"
| "winding (Expire now) \<longleftrightarrow> False"
| "winding _ \<longleftrightarrow> True"

lemma winding_admitted: "winding a \<Longrightarrow> noLateExpiry ph a"
  by (cases a) simp_all

lemma inner_rcur:
  assumes inv: "agent_inv r" and s: "inner a r = Some r'"
  shows "rcur r' = rcur r"
proof -
  have ch: "list_all pipe_chan (heap r)" using inv by (simp add: agent_inv_def core_def)
  note loc = batcherTake_local batcherPut_local [OF _ ch] batcherTimer_local [OF _ ch] batcherEnd_local [OF _ ch]
    flusherTake_local flusherSend_local flusherEnd_local
  have l: "local_step i r r' \<Longrightarrow> rcur r' = rcur r" for i by (auto simp: local_step_def)
  have "rcur (demuxOne dg r) = rcur r" for dg
    by (auto simp: demuxOne_def split: prod.split option.split tryResult.split bool.split)
  then have d: "demuxPut r = Some r' \<Longrightarrow> rcur r' = rcur r" by (auto simp: demuxPut_def)
  have dr: "drainStep k r = Some r' \<Longrightarrow> rcur r' = rcur r" for k
    by (auto simp: drainStep_def Let_def split: if_split_asm option.split_asm drainPhase.split_asm)
  have o: "demuxTake r = Some r' \<Longrightarrow> rcur r' = rcur r" "demuxEnd r = Some r' \<Longrightarrow> rcur r' = rcur r"
    "graceFires k r = Some r' \<Longrightarrow> rcur r' = rcur r" for k
    by (auto simp: demuxTake_def demuxEnd_def graceFires_def split: if_split_asm)
  show ?thesis
    by (rule inner.cases [of "(a, r)"]) (use s in \<open>auto intro: d dr o l loc\<close>)
qed

lemma life_drains:
  "life c s \<Longrightarrow> settled s \<Longrightarrow> agent_inv (reg s) \<and> drains_ok (reg s) \<and> \<not> panicked (reg s)"
  by (cases "phase s") (simp_all add: life_def settled_def early_def)

lemma shutdownDrains_weight:
  "regWeight (shutdownDrains g r) = regWeight r + 3 * length (prevEntries r)"
proof (cases "rcur r")
  case (Some t)
  have "(\<Sum>d\<leftarrow>map (drainOf g False) is. phaseWeight (dr_phase d)) = 3 * length is" for "is"
    by (induction "is") (simp_all add: drainOf_def)
  from this [of "map snd (pipelines t)"] show ?thesis
    by (simp add: shutdownDrains_effect [OF Some] regWeight_def prevEntries_def Some)
qed (simp add: shutdownDrains_def prevEntries_def)

lemma winding_lower:
  assumes l: "life c s" and n: "settled s" and w: "winding a" and s: "sysStep a s = Some s'"
  shows "weight s' < weight s"
proof -
  have e: "exec a s = Some s'" using s by (simp add: sysStep_def split: if_split_asm)
  note d = life_drains [OF l n]
  show ?thesis
  proof (cases "inner a (reg s)")
    case (Some r')
    then have x: "phase s' = phase s" "inner a (reg s) = Some (reg s')" using exec_inner [OF e] by simp_all
    have "regWeight (reg s') < regWeight (reg s)" using inner_lower x(2) d by blast
    moreover have "prevEntries (reg s') = prevEntries (reg s)"
      using inner_rcur [OF _ x(2)] d by (simp add: prevEntries_def)
    ultimately show ?thesis unfolding weight_def x(1) by (simp only: add_less_cancel_right)
  next
    case None
    have c: "regWeight (closeShared r) = regWeight r" "prevEntries (closeShared r) = prevEntries r" for r
      by (auto simp: closeShared_def regWeight_def chClose_def prevEntries_def)
    have "a = CloseShared \<or> a = DrainAll \<or> a = Exit \<or> (\<exists>f. a = StopListener f)"
      using w e None by (cases a) (simp_all split: if_split_asm)
    then show ?thesis
      using e by (elim disjE exE) (auto simp: weight_def c shutdownDrains_weight split: if_split_asm)
  qed
qed

section \<open>Progress\<close>

lemma started_pipe: "early r \<or> agent_inv r \<Longrightarrow> i < length (heap r) \<Longrightarrow> pl_started (heap r ! i)"
  using core_pipe by (auto simp: early_def agent_inv_def ident_ok_def)

text \<open>A flusher with a batch, waiting or in hand, can go on.\<close>

lemma flusher_enabled:
  assumes inv: "agent_inv r" and i: "i < length (heap r)"
    and b: "flusherHold (heap r ! i) \<noteq> None \<or> buf (batchCh (heap r ! i)) \<noteq> []"
  shows "\<exists>a r'. winding a \<and> inner a r = Some r'"
proof (cases "flusherHold (heap r ! i)")
  case None
  then obtain x xs where "buf (batchCh (heap r ! i)) = x # xs" using b by (cases "buf (batchCh (heap r ! i))") auto
  then have "\<exists>r'. inner (FlusherTake i) r = Some r'"
    using i None started_pipe [of r i] inv by (simp add: flusherTake_def chRecv_def)
  then show ?thesis by (intro exI [of _ "FlusherTake i"]) simp
next
  case (Some x)
  have "fst (sendLoop m (\<lambda>_. False) (\<lambda>_. Response 200) 0) \<noteq> Cancelled" for m
    by (subst sendLoop.simps) (simp add: postJSON_def)
  then have "\<exists>r'. inner (FlusherSend i (\<lambda>_. False) (\<lambda>_. Response 200) 0) r = Some r'"
    using i Some by (simp add: flusherSend_def Let_def split: prod.split)
  then show ?thesis by (intro exI [of _ "FlusherSend i (\<lambda>_. False) (\<lambda>_. Response 200) 0"]) simp
qed

lemma sent_bound:
  "length (sent (onDatagram f1 f2 now dg st)) \<le> length (sent st) + 2" "length (sent (onClosed ft st)) \<le> length (sent st) + 1"
  by (auto simp: onDatagram_def onClosed_def preFlush_def postFlush_def flush_sent
      split: prod.split validateReason.split)

text \<open>A pipeline whose input is closed can go on until its batcher is done, and then until its flusher is.\<close>

lemma batcher_enabled:
  assumes inv: "agent_inv r" and i: "i < length (heap r)" and c: "pl_closed (heap r ! i)" and b: "\<not> batcherDone (heap r ! i)"
  shows "\<exists>a r'. winding a \<and> inner a r = Some r'"
proof (cases "buf (batchCh (heap r ! i)) = []")
  case True
  let ?p = "heap r ! i"
  have p: "pipe_chan ?p" using core_pipe i inv by (auto simp: agent_inv_def)
  have al: "alive i r" using i b started_pipe [of r i] inv by (simp add: alive_def)
  have run: "\<exists>r'. runBatcher i {HandedOver} st r = Some r'" if "length (sent st) \<le> 8" for st
    using that p b by (simp add: runBatcher_def Let_def pipe_chan_def)
  show ?thesis
  proof (cases "batcherHold ?p")
    case (Some dg)
    have "\<exists>r'. inner (BatcherPut i HandedOver HandedOver 0) r = Some r'"
      using al Some run [of "onDatagram HandedOver HandedOver 0 dg (bstateOf i r)"]
        sent_bound(1) [of HandedOver HandedOver 0 dg "bstateOf i r"] True
      by (simp add: batcherPut_def bstateOf_def)
    then show ?thesis by (intro exI [of _ "BatcherPut i HandedOver HandedOver 0"]) simp
  next
    case None
    show ?thesis
    proof (cases "buf (rawCh ?p)")
      case Nil
      then have "\<exists>r'. inner (BatcherEnd i HandedOver) r = Some r'"
        using al None c p run [of "onClosed HandedOver (bstateOf i r)"] sent_bound(2) [of HandedOver "bstateOf i r"] True
        by (simp add: batcherEnd_def chEnded_def pipe_chan_def bstateOf_def)
      then show ?thesis by (intro exI [of _ "BatcherEnd i HandedOver"]) simp
    next
      case (Cons x xs)
      then have "\<exists>r'. inner (BatcherTake i) r = Some r'"
        using al None by (simp add: batcherTake_def chRecv_def)
      then show ?thesis by (intro exI [of _ "BatcherTake i"]) simp
    qed
  qed
qed (use flusher_enabled [OF inv i] in blast)

lemma flush_enabled:
  assumes inv: "agent_inv r" and i: "i < length (heap r)" and c: "ch_closed (batchCh (heap r ! i))" and b: "\<not> flushDone (heap r ! i)"
  shows "\<exists>a r'. winding a \<and> inner a r = Some r'"
proof (cases "flusherHold (heap r ! i) \<noteq> None \<or> buf (batchCh (heap r ! i)) \<noteq> []")
  case False
  then have "\<exists>r'. inner (FlusherEnd i) r = Some r'"
    using i b c started_pipe [of r i] inv by (simp add: flusherEnd_def chEnded_def)
  then show ?thesis by (intro exI [of _ "FlusherEnd i"]) simp
qed (use flusher_enabled [OF inv i] in blast)

lemma drain_enabled:
  assumes inv: "agent_inv r" and ok: "drains_ok r" and k: "k < length (drains r)" and n: "dr_phase (drains r ! k) \<noteq> Drained"
  shows "\<exists>a r'. winding a \<and> inner a r = Some r'"
proof -
  let ?i = "dr_pid (drains r ! k)"
  have i: "?i < length (heap r)" by (rule drain_pid [OF inv k])
  have ph: "phase_ok (Some (dr_phase (drains r ! k))) (heap r ! ?i)"
    using ok phaseOf_nth [of r k] k i unfolding drains_ok_def by metis
  have go: ?thesis if "drainStep k r \<noteq> None"
    using that by (intro exI [of _ "DrainStep k"]) auto
  show ?thesis
  proof (cases "dr_phase (drains r ! k)")
    case Pending
    then show ?thesis using k by (intro go) (simp add: drainStep_def Let_def split: option.split)
  next
    case WaitBatcher
    show ?thesis
    proof (cases "batcherDone (heap r ! ?i)")
      case True
      then show ?thesis using k WaitBatcher by (intro go) (simp add: drainStep_def Let_def split: option.split)
    qed (use batcher_enabled [OF inv i] ph WaitBatcher in simp)
  next
    case WaitFlusher
    show ?thesis
    proof (cases "flushDone (heap r ! ?i)")
      case True
      then show ?thesis using k WaitFlusher by (intro go) (simp add: drainStep_def Let_def)
    qed (use flush_enabled [OF inv i] ph WaitFlusher in simp)
  qed (use n in simp)
qed

lemma demux_enabled:
  assumes inv: "agent_inv r" and s: "sharedClosed r" and d: "\<not> demuxDone r"
  shows "\<exists>a r'. winding a \<and> inner a r = Some r'"
proof (cases "demuxHold r")
  case (Some dg)
  then show ?thesis by (intro exI [of _ DemuxPut]) (simp add: demuxPut_def)
next
  case None
  have r: "demuxRunning r" "ch_closed (sharedRawCh r)" using inv s d by (simp_all add: agent_inv_def core_def)
  show ?thesis
  proof (cases "buf (sharedRawCh r)")
    case Nil
    then show ?thesis using r None by (intro exI [of _ DemuxEnd]) (simp add: demuxEnd_def chEnded_def)
  next
    case (Cons x xs)
    then show ?thesis using r None by (intro exI [of _ DemuxTake]) (simp add: demuxTake_def chRecv_def)
  qed
qed

lemma winding_enabled:
  assumes l: "life c s" and n: "settled s" and p: "phase s \<noteq> Exited"
  shows "\<exists>a s'. winding a \<and> sysStep a s = Some s'"
proof -
  note d = life_drains [OF l n]
  have lift: ?thesis if "\<exists>a r'. winding a \<and> inner a (reg s) = Some r'"
  proof -
    from that obtain a r' where a: "winding a" "inner a (reg s) = Some r'" by blast
    then have "exec a s = Some (s\<lparr>reg := r'\<rparr>)" using p by (cases "(a, s)" rule: exec.cases) simp_all
    then show ?thesis using a(1) d by (intro exI [of _ a]) (simp add: sysStep_def)
  qed
  show ?thesis
  proof (cases "phase s")
    case Serving
    then show ?thesis using d by (intro exI [of _ "StopListener False"]) (simp add: sysStep_def)
  next
    case ListenerDone
    then show ?thesis using d by (intro exI [of _ CloseShared]) (simp add: sysStep_def)
  next
    case Closing
    show ?thesis
    proof (cases "demuxDone (reg s)")
      case True
      then show ?thesis using Closing d by (intro exI [of _ DrainAll]) (simp add: sysStep_def)
    qed (use Closing l d lift demux_enabled [of "reg s"] in \<open>simp add: life_def\<close>)
  next
    case Draining
    show ?thesis
    proof (cases "list_all (\<lambda>d. dr_phase d = Drained) (drains (reg s))")
      case True
      then show ?thesis using Draining d by (intro exI [of _ Exit]) (simp add: sysStep_def)
    next
      case False
      then show ?thesis using lift drain_enabled [of "reg s"] d by (auto simp: list_all_length)
    qed
  qed (use p in simp)
qed

end
