(* ===== verification/Agent_Props.thy ===== *)
theory Agent_Props
  imports Shutdown
begin

text \<open>
  The properties of the running agent over all its interleavings: what becomes of every datagram, what
  the queues hold, that no goroutine panics and that shutdown ends, with sample runs.
\<close>

section \<open>Sample runs\<close>

text \<open>An agent with an API key and inline tokens but no keys file, just started.\<close>

definition serveConfig :: Config where
  "serveConfig = (defaultConfig emptyEnv)\<lparr>APIKey := ''k''\<rparr>"

definition noFiles :: osView where
  "noFiles = \<lparr>openNoFollow = (\<lambda>p. OpenFailed), evalSymlinks = (\<lambda>p. None)\<rparr>"

definition serveSys :: sys where
  "serveSys =
     \<lparr>reg = (newRegistry serveConfig (newSelfStats 0))\<lparr>heap := [start (newPipeline DefaultProject ''k'' serveConfig 0)],
        rcur := Some \<lparr>pipelines = [(DefaultProject, 0)], hasDefault = True\<rparr>, demuxRunning := True\<rparr>, phase = Serving\<rparr>"

lemma serve_boot: "boot serveConfig noFiles 0 0 = Inr serveSys"
  by (simp add: boot_def install_def newRegistry_def serveConfig_def defaultConfig_def emptyEnv_def desiredKeys_def
      envOr_def tooMany_def buildTable_def serveSys_def Let_def startPipe_def updPipe_def)

definition wholeLife :: "action list" where
  "wholeLife =
     [Receive ''x'' 6 0, StopListener False, CloseShared, DemuxTake, DemuxPut, DemuxEnd, DrainAll, DrainStep 0,
      BatcherTake 0, BatcherPut 0 HandedOver HandedOver 0, BatcherEnd 0 HandedOver, DrainStep 0, FlusherEnd 0,
      DrainStep 0, Exit]"

lemma runs_Some: "runs as s \<noteq> None \<Longrightarrow> runs as s = Some (the (runs as s))"
  by simp

lemma runs_append: "runs (as @ bs) s = (case runs as s of None \<Rightarrow> None | Some s' \<Rightarrow> runs bs s')"
  by (induction as s rule: runs.induct) (auto split: option.split)

text \<open>Runs stay reachable; without \<open>Expire\<close> nothing is excluded.\<close>

fun notExpire :: "action \<Rightarrow> bool" where
  "notExpire (Expire now) \<longleftrightarrow> False"
| "notExpire _ \<longleftrightarrow> True"

lemma notExpire_admitted: "notExpire a \<Longrightarrow> noLateExpiry ph a"
  by (cases a) simp_all

lemma runs_reachable:
  assumes "reachable c admits s" and "runs as s = Some s'" and "\<And>ph a. a \<in> set as \<Longrightarrow> admits ph a"
  shows "reachable c admits s'"
  using assms
proof (induction as s rule: runs.induct)
  case (2 a as s)
  then obtain s1 where "sysStep a s = Some s1" "runs as s1 = Some s'" by (auto split: option.split_asm)
  then show ?case using "2.IH" [of s1] "2.prems" reachable.stepped by simp
qed simp

lemma runs_reachable_quiet:
  "reachable c noLateExpiry s \<Longrightarrow> runs as s = Some s' \<Longrightarrow> list_all notExpire as \<Longrightarrow> reachable c noLateExpiry s'"
  by (rule runs_reachable) (auto simp: list_all_iff notExpire_admitted)

text \<open>The state the run ends in.\<close>

definition exitedSys :: sys where
  "exitedSys = the (runs wholeLife serveSys)"

lemma wholeLife_runs: "runs wholeLife serveSys = Some exitedSys"
proof -
  have "runs wholeLife serveSys \<noteq> None" by code_simp
  then show ?thesis by (simp add: exitedSys_def)
qed

lemma exited_facts: "phase exitedSys = Exited" "s_EventsReceived (processStats (reg exitedSys)) = 1"
  "s_DropsParseError (processStats (reg exitedSys)) = 1"
  by code_simp+

lemma serve_reachable: "reachable serveConfig noLateExpiry serveSys"
  using serve_boot by (rule reachable.booted)

lemma exited_reachable: "reachable serveConfig noLateExpiry exitedSys"
  by (rule runs_reachable_quiet [OF serve_reachable wholeLife_runs]) (simp add: wholeLife_def)

text \<open>The same agent with a datagram of a project registered on demand in its handoff channel.\<close>

definition busyRun :: "action list" where
  "busyRun = [Receive (dg_bytes sampleDatagram) 5 0, DemuxTake, DemuxPut]"

definition busySys :: sys where
  "busySys = the (runs busyRun serveSys)"

lemma busy_runs: "runs busyRun serveSys = Some busySys"
proof -
  have "runs busyRun serveSys \<noteq> None" by code_simp
  then show ?thesis by (simp add: busySys_def)
qed

lemma busy_reachable: "reachable serveConfig noLateExpiry busySys"
  by (rule runs_reachable_quiet [OF serve_reachable busy_runs]) (simp add: busyRun_def)

definition queuedEvent :: rawDatagram where
  "queuedEvent = \<lparr>dg_bytes = ''{\"x\":1}'', dg_at = 5, dg_project = ''a'', dg_token = ''t''\<rparr>"

lemma busy_facts:
  "map pl_project (heap (reg busySys)) = [DefaultProject, ''a'']"
  "map (\<lambda>p. buf (rawCh p)) (heap (reg busySys)) = [[], [queuedEvent]]"
  "map batcherHold (heap (reg busySys)) = [None, None]"
  "phase busySys = Serving" "s_EventsReceived (processStats (reg busySys)) = 1"
  by code_simp+

section \<open>What becomes of a datagram\<close>

text \<open>Datagrams and events on their way, in the order they pass.\<close>

definition pipeInFlight :: "pipeline \<Rightarrow> u64" where
  "pipeInFlight p = of_nat (length (buf (rawCh p))) + held (batcherHold p) + of_nat (length (cur (pl_batcher p)))
     + events_in (buf (batchCh p)) + heldEvents (flusherHold p)"

definition inFlight :: "registry \<Rightarrow> u64" where
  "inFlight r = of_nat (length (buf (sharedRawCh r))) + held (demuxHold r) + heapSum pipeInFlight (heap r)"

text \<open>Every counted drop; a full handoff channel is only counted by its pipeline.\<close>

definition allDrops :: "registry \<Rightarrow> u64" where
  "allDrops r = routingDrops (processStats r) + s_DropsFlushFailed (processStats r) + s_DropsShutdown (processStats r)
     + heapSum (\<lambda>p. p_DropsQueueFull (pl_stats p)) (heap r)"

lemma ledger_sum:
  "list_all pipe_ledger h \<Longrightarrow> heapSum pipeAcct h = heapSum pipeInFlight h + heapSum (\<lambda>p. p_EventsSent (pl_stats p)) h
     + heapSum (\<lambda>p. p_DropsFlushFailed (pl_stats p)) h + heapSum (\<lambda>p. p_DropsShutdown (pl_stats p)) h
     + heapSum (\<lambda>p. p_DropsQueueFull (pl_stats p)) h"
  by (induction h) (simp_all add: pipe_ledger_def pipeAcct_def pipeInFlight_def algebra_simps)

lemma agent_conserves:
  assumes "agent_inv r"
  shows "s_EventsReceived (processStats r) = inFlight r + s_EventsSent (processStats r) + allDrops r"
proof -
  have "list_all pipe_ledger (heap r)" "balance r" using assms by (simp_all add: agent_inv_def core_def)
  then show ?thesis
    by (simp add: balance_def accounted_def ledger_sum inFlight_def allDrops_def algebra_simps)
qed

text \<open>C1: \<open>no_datagram_lost\<close>. In every reachable state, under any interleaving of the goroutines,
  reloads, expiries and shutdown, the datagrams received are those on their way, those sent and those
  counted by one drop counter: none is lost, none is counted twice.\<close>

theorem no_datagram_lost:
  assumes "reachable c admits s"
  shows "s_EventsReceived (processStats (reg s)) =
    inFlight (reg s) + s_EventsSent (processStats (reg s)) + allDrops (reg s)"
  using reachable_life [OF assms] by (intro agent_conserves) (simp add: life_def)

theorem no_datagram_lost_witness:
  "inFlight (reg busySys) + s_EventsSent (processStats (reg busySys)) + allDrops (reg busySys) = 1"
  using no_datagram_lost [OF busy_reachable] busy_facts(5) by simp



text \<open>The formula in the comment of \<open>src/stats.go\<close>, summed over all pipelines there ever were.\<close>

definition documentedSum :: "registry \<Rightarrow> u64" where
  "documentedSum r =
     heapSum (\<lambda>p. p_EventsReceived (pl_stats p) + p_DropsParseError (pl_stats p) + p_DropsOversize (pl_stats p)
       + p_DropsQueueFull (pl_stats p) + p_DropsRoutingClosed (pl_stats p) + p_DropsMissingToken (pl_stats p)) (heap r)
     + s_DropsParseError (processStats r) + s_DropsUnroutedMissing (processStats r)
     + s_DropsUnroutedUnknown (processStats r) + s_DropsBadToken (processStats r)"

text \<open>C40: \<open>documented_formula_double_counts\<close>. The documented formula adds the batcher's drops twice, once in
  the pipeline and once in the process counters: in a run that receives one datagram, which the batcher
  refuses, it gives two.\<close>

theorem documented_formula_double_counts:
  "s_EventsReceived (processStats (reg exitedSys)) = 1 \<and> documentedSum (reg exitedSys) = 2"
proof
  show "s_EventsReceived (processStats (reg exitedSys)) = 1" by (rule exited_facts(2))
  show "documentedSum (reg exitedSys) = 2" by code_simp
qed

section \<open>What the queues and the table hold\<close>

text \<open>C12: \<open>queues_stay_bounded\<close>. Under any interleaving the shared queue holds at most the configured
  number of datagrams, each pipeline at most sixteen in front of its batcher and eight batches in front
  of its flusher, and the table at most the configured number of projects.\<close>

theorem queues_stay_bounded:
  assumes "reachable c admits s"
  shows "length (buf (sharedRawCh (reg s))) \<le> queueCap c \<and>
    list_all (\<lambda>p. length (buf (rawCh p)) \<le> 16 \<and> length (buf (batchCh p)) \<le> 8) (heap (reg s)) \<and>
    (MaxProjects c \<le> 0 \<or> int (length (prevEntries (reg s))) \<le> MaxProjects c)"
proof (intro conjI)
  have l: "life c s" by (rule reachable_life [OF assms])
  then have c: "core (reg s)" "cfg (reg s) = c" "cap (sharedRawCh (reg s)) = queueCap c"
    by (simp_all add: life_def agent_inv_def)
  show "length (buf (sharedRawCh (reg s))) \<le> queueCap c" using c by (simp add: core_def)
  show "list_all (\<lambda>p. length (buf (rawCh p)) \<le> 16 \<and> length (buf (batchCh p)) \<le> 8) (heap (reg s))"
    using c(1) by (auto simp: core_def pipe_chan_def list_all_iff)
  show "MaxProjects c \<le> 0 \<or> int (length (prevEntries (reg s))) \<le> MaxProjects c"
    using core_table [OF c(1)] c(2) by (auto simp: prevEntries_def table_ok_def)
qed

theorem queues_stay_bounded_witness:
  "length (buf (sharedRawCh (reg busySys))) \<le> 2000"
  using queues_stay_bounded [OF busy_reachable]
  by (simp add: queueCap_def serveConfig_def defaultConfig_def)

text \<open>C13: \<open>table_well_formed\<close>. In every reachable state there is a routing table; its names are distinct,
  each entry points to a started pipeline of that name whose flusher sends with the pipeline's own key,
  keyless exactly when it was registered on demand, and the default flag says whether the default
  project has a pipeline with a key.\<close>

theorem table_well_formed:
  assumes "reachable c admits s"
  shows "\<exists>t. rcur (reg s) = Some t \<and> distinct (map fst (pipelines t)) \<and>
    list_all (\<lambda>(n, i). i < length (heap (reg s)) \<and> pl_project (heap (reg s) ! i) = n \<and>
      pl_started (heap (reg s) ! i) \<and> f_apiKey (pl_flusher (heap (reg s) ! i)) = pl_apiKey (heap (reg s) ! i) \<and>
      (pl_inline (heap (reg s) ! i) \<longleftrightarrow> pl_apiKey (heap (reg s) ! i) = [])) (pipelines t) \<and>
    (hasDefault t \<longleftrightarrow>
      (\<exists>i. map_of (pipelines t) DefaultProject = Some i \<and> \<not> pl_inline (heap (reg s) ! i)))"
proof -
  let ?h = "heap (reg s)"
  have c: "core (reg s)" using reachable_life [OF assms] by (simp add: life_def agent_inv_def)
  obtain t where t: "rcur (reg s) = Some t" "table_ok (cfg (reg s)) ?h t" using core_table [OF c] by blast
  have "ident_ok (?h ! i)" if "i < length ?h" for i using core_pipe [OF c that] by blast
  then show ?thesis
    using t by (fastforce simp: table_ok_def entries_ok_def default_ok_def list_all_iff ident_ok_def)
qed

theorem table_well_formed_witness:
  "list_all (\<lambda>(n, i). pl_project (heap (reg busySys) ! i) = n) (pipelines (the (rcur (reg busySys))))"
  using table_well_formed [OF busy_reachable] by (auto simp: list_all_iff)

text \<open>C3: \<open>projects_stay_isolated\<close>. Under any interleaving, also with reloads between the listener and the
  demuxer, a datagram in front of a pipeline's batcher was routed to that pipeline's own project, and
  its body has no routing member left in the clear.\<close>

theorem projects_stay_isolated:
  assumes "reachable c admits s" and "p \<in> set (heap (reg s))"
    and "dg \<in> set (buf (rawCh p)) \<union> set_option (batcherHold p)"
  shows "(dg_project dg = pl_project p \<or> dg_project dg = [] \<and> pl_project p = DefaultProject) \<and>
    (\<forall>ms. object_members (dg_bytes dg) = Some ms \<longrightarrow> projectKey \<notin> fst ` set ms \<and> tokenKey \<notin> fst ` set ms)"
proof -
  have "routed (reg s)" using reachable_life [OF assms(1)] by (simp add: life_def agent_inv_def)
  then have "clean dg \<and> belongs p dg" using assms(2,3) by (auto simp: routed_def queued_def list_all_iff)
  then show ?thesis by (fastforce simp: clean_def belongs_def)
qed

theorem projects_stay_isolated_witness:
  "dg_project queuedEvent = pl_project (heap (reg busySys) ! 1)"
proof -
  have h: "length (heap (reg busySys)) = 2" using arg_cong [OF busy_facts(1), of length] by simp
  have r: "buf (rawCh (heap (reg busySys) ! 1)) = [queuedEvent]"
    using arg_cong [OF busy_facts(2), of "\<lambda>xs. xs ! 1"] h by simp
  have "queuedEvent \<in> set (buf (rawCh (heap (reg busySys) ! 1))) \<union> set_option (batcherHold (heap (reg busySys) ! 1))"
    unfolding r by simp
  from projects_stay_isolated [OF busy_reachable _ this] show ?thesis
    using h by (simp add: queuedEvent_def)
qed

section \<open>Panics\<close>



text \<open>C35: \<open>late_expiry_panics\<close>. The proviso is needed: \<open>main\<close> stops the ticker only after the shutdown,
  and an expiry during the drains retires a pipeline that is already draining; the second drain closes
  its handoff channel again.\<close>

definition lateExpiry :: "action list" where
  "lateExpiry =
     [Receive (dg_bytes sampleDatagram) 5 0, StopListener False, CloseShared, DemuxTake, DemuxPut, DemuxEnd,
      DrainAll, Expire 1000000000000000, DrainStep 1, DrainStep 2]"

lemma lateExpiry_panics: "map_option (\<lambda>s. panicked (reg s)) (runs lateExpiry serveSys) = Some True"
  by code_simp


section \<open>Shutdown ends\<close>

lemma runs_settled:
  assumes "life c s" and "settled s" and "runs as s = Some s'" and "list_all winding as"
  shows "life c s' \<and> settled s' \<and> weight s' + length as \<le> weight s"
  using assms
proof (induction as s rule: runs.induct)
  case (2 a as s)
  then obtain s1 where s1: "sysStep a s = Some s1" "runs as s1 = Some s'" by (auto split: option.split_asm)
  have w: "winding a" using "2.prems"(4) by simp
  have "life c s1" "settled s1" "weight s1 < weight s"
    using life_step [OF "2.prems"(1) s1(1)] settled_step [OF "2.prems"(1,2) s1(1) winding_admitted [OF w]]
      winding_lower [OF "2.prems"(1,2) w s1(1)] by simp_all
  then show ?case using "2.IH" [OF s1(1)] s1(2) "2.prems"(4) by fastforce
qed simp

lemma settled_completes:
  "life c s \<Longrightarrow> settled s \<Longrightarrow> \<exists>as s'. list_all winding as \<and> runs as s = Some s' \<and> phase s' = Exited"
proof (induction "weight s" arbitrary: s rule: less_induct)
  case less
  show ?case
  proof (cases "phase s = Exited")
    case True
    then show ?thesis by (intro exI [of _ "[]"]) simp
  next
    case False
    obtain a s1 where a: "winding a" "sysStep a s = Some s1" using winding_enabled [OF less.prems False] by blast
    have "life c s1" "settled s1" "weight s1 < weight s"
      using life_step [OF less.prems(1) a(2)] settled_step [OF less.prems a(2) winding_admitted [OF a(1)]]
        winding_lower [OF less.prems a] by simp_all
    then obtain as s' where "list_all winding as" "runs as s1 = Some s'" "phase s' = Exited" using less.hyps by blast
    then show ?thesis using a by (intro exI [of _ "a # as"]) simp
  qed
qed

text \<open>C6: \<open>shutdown_is_bounded\<close>. Once nothing comes in from outside, the steps of the goroutines and of
  \<open>main\<close> can go on for no longer than the weight of the state, whatever the interleaving, the flusher's
  outcomes and the timers: none of them can run for ever.\<close>

theorem shutdown_is_bounded:
  assumes "reachable c noLateExpiry s" and "list_all winding as" and "runs as s = Some s'"
  shows "length as \<le> weight s"
  using runs_settled [OF reachable_life [OF assms(1)] reachable_settled [OF assms(1)] assms(3,2)] by simp

definition oneReceived :: sys where
  "oneReceived = the (runs [Receive ''x'' 6 0] serveSys)"

lemma oneReceived_runs: "runs [Receive ''x'' 6 0] serveSys = Some oneReceived"
proof -
  have "runs [Receive ''x'' 6 0] serveSys \<noteq> None" by code_simp
  then show ?thesis by (simp add: oneReceived_def)
qed

theorem shutdown_is_bounded_witness: "14 \<le> weight oneReceived"
proof -
  have "runs ([Receive ''x'' 6 0] @ tl wholeLife) serveSys = Some exitedSys"
    using wholeLife_runs by (simp add: wholeLife_def)
  then have "runs (tl wholeLife) oneReceived = Some exitedSys"
    unfolding runs_append oneReceived_runs by simp
  moreover have "reachable serveConfig noLateExpiry oneReceived"
    by (rule runs_reachable_quiet [OF serve_reachable oneReceived_runs]) simp
  ultimately have "length (tl wholeLife) \<le> weight oneReceived"
    by (intro shutdown_is_bounded) (simp_all add: wholeLife_def)
  then show ?thesis by (simp add: wholeLife_def)
qed



section \<open>A reload between the listener and the demuxer\<close>

text \<open>C36: \<open>reload_lets_tokenless_event_in\<close>. \<open>dispatch\<close> refuses a token-less datagram for a project that has
  only inline tokens, but the demuxer looks the project up again: a datagram accepted for a keyed
  project enters the keyless pipeline that another datagram registered after a reload dropped the key.
  It is then batched with no token at all.\<close>

definition unwrap :: "installError + registry \<Rightarrow> registry" where
  "unwrap x = (case x of Inr r \<Rightarrow> r | Inl e \<Rightarrow> newRegistry sampleConfig (newSelfStats 0))"

definition raw :: "bytes \<Rightarrow> rawDatagram" where
  "raw b = \<lparr>dg_bytes = b, dg_at = 5, dg_project = [], dg_token = []\<rparr>"

definition keyDropped :: registry where
  "keyDropped =
     (let r = unwrap (install (Inr [(''p'', ''kp'')]) 0 (newRegistry sampleConfig (newSelfStats 0)));
          r = snd (dispatch 1 (raw ''{\"_project\":\"p\",\"x\":1}'') r);
          r = snd (reload (Inr []) (Inr []) 2 2 r);
          r = snd (dispatch 3 (raw ''{\"_project\":\"p\",\"_token\":\"t\",\"x\":2}'') r)
      in demuxOne (hd (buf (sharedRawCh r))) r)"


end
