(* ===== verification/Health.thy ===== *)
theory Health
  imports Registry
begin

text \<open>
  What \<open>src/health.go\<close> answers: the two handlers of the health server, as functions from the counters and
  the registry to the response. The server itself (sockets, goroutine, JSON encoding of the snapshot) is
  not modelled.
\<close>

record response =
  statusCode :: int
  contentType :: bytes

definition healthzHandler :: "response \<times> bytes" where
  "healthzHandler = (\<lparr>statusCode = 200, contentType = []\<rparr>, ''ok'')"

text \<open>The process snapshot, completed from the registry when there is one.\<close>

definition statsHandler :: "int \<Rightarrow> selfStats \<Rightarrow> registry option \<Rightarrow> response \<times> statsSnapshot" where
  "statsHandler now s reg =
     (\<lparr>statusCode = 200, contentType = ''application/json''\<rparr>,
      let snap = selfSnapshot now s in
      case reg of
        None \<Rightarrow> snap
      | Some r \<Rightarrow>
          snap\<lparr>st_ByProject := snapshot now r,
               st_KeysReloadFailures := KeysReloadFailures r,
               st_LastKeysReloadUnix := LastKeysReloadUnix r,
               st_InlineProjectsRegistered := InlineProjectsRegistered r,
               st_InlineProjectsExpired := InlineProjectsExpired r,
               st_InlineProjectsLive := inlineLive r\<rparr>)"

text \<open>The two paths that are registered; \<open>None\<close> is the multiplexer's own 404.\<close>

definition healthMux :: "int \<Rightarrow> selfStats \<Rightarrow> registry option \<Rightarrow> bytes \<Rightarrow> (response \<times> (bytes + statsSnapshot)) option" where
  "healthMux now s reg path =
     (if path = ''/healthz'' then Some (map_prod id Inl healthzHandler)
      else if path = ''/stats'' then Some (map_prod id Inr (statsHandler now s reg))
      else None)"

text \<open>No server without an address or when it cannot be bound; the agent goes on without it.\<close>

definition startHealthServer :: "bytes \<Rightarrow> (bytes \<Rightarrow> bool) \<Rightarrow> bool" where
  "startHealthServer addr listenTCP \<longleftrightarrow> addr \<noteq> [] \<and> listenTCP addr"

end
