(* ===== verification/Stats_Props.thy ===== *)
theory Stats_Props
  imports Agent_Props Health
begin

text \<open>
  What an operator can conclude from one \<open>/stats\<close> page of the running agent.
\<close>

text \<open>While no pipeline has been retired, the live table holds every pipeline there is.\<close>

lemma table_covers_heap:
  assumes "reg_inv r" and "drains r = []"
  shows "(\<Sum>(n, i)\<leftarrow>prevEntries r. f (heap r ! i)) = heapSum f (heap r)"
proof -
  have d: "distinct (map snd (prevEntries r))" "set (map snd (prevEntries r)) = {..< length (heap r)}"
    using assms by (simp_all add: reg_inv_def owned_def owners_def)
  have "(\<Sum>(n, i)\<leftarrow>prevEntries r. f (heap r ! i)) = (\<Sum>i\<leftarrow>map snd (prevEntries r). f (heap r ! i))"
    by (simp add: comp_def case_prod_unfold)
  also have "\<dots> = (\<Sum>i \<in> {..< length (heap r)}. f (heap r ! i))"
    using sum_list_distinct_conv_sum_set [OF d(1)] d(2) by metis
  also have "\<dots> = heapSum f (heap r)"
    by (simp add: heapSum_def sum_list_sum_nth atLeast0LessThan)
  finally show ?thesis .
qed

lemma snapshot_entries:
  "rcur r \<noteq> None \<Longrightarrow> snapshot now r = map (\<lambda>(n, i). (n, pipelineSnapshot now (pl_stats (heap r ! i)))) (prevEntries r)"
  by (auto simp: snapshot_def prevEntries_def)

definition dropTotal :: "dropStats \<Rightarrow> u64" where
  "dropTotal d = dropStats.ParseError d + dropStats.QueueFull d + dropStats.Oversize d + dropStats.FlushFailed d + dropStats.Shutdown d + dropStats.RoutingClosed d
     + dropStats.UnroutedMissing d + dropStats.UnroutedUnknown d + dropStats.BadToken d + dropStats.MissingToken d"



end
