(* ===== verification/Races.thy ===== *)
theory Races
  imports Agent_Props
begin

text \<open>
  The interleavings that the atomic registry methods leave out: \<open>reload\<close> holds \<open>reloadMu\<close>,
  \<open>registerInline\<close> and \<open>expireInline\<close> hold \<open>inlineMu\<close>, and all three publish a table built from the one they
  read. Here \<open>reload\<close> is split between building its table and publishing it.
\<close>

section \<open>A reload in two steps\<close>

text \<open>Read the live table, build the new one and start what is new; then publish and drain.\<close>

definition swapBuild :: "int \<Rightarrow> (bytes \<times> bytes) list \<Rightarrow> registry \<Rightarrow> ((bytes \<times> nat) list \<times> routingTable) \<times> registry" where
  "swapBuild now newKeys r =
     (let prev = prevEntries r in
      case buildTable now newKeys prev r of (tbl, r) \<Rightarrow> ((prev, tbl), startNew prev (pipelines tbl) r))"

definition swapStore :: "int \<Rightarrow> (bytes \<times> nat) list \<times> routingTable \<Rightarrow> registry \<Rightarrow> registry" where
  "swapStore nowUnix x r =
     (case x of (prev, tbl) \<Rightarrow>
       (drainStale (pipelines tbl) prev (r\<lparr>rcur := Some tbl\<rparr>))\<lparr>LastKeysReloadUnix := nowUnix\<rparr>)"

text \<open>With nothing in between, this is the reload of \<open>Registry\<close>.\<close>

lemma swapTable_split:
  "swapTable now u ks r = (case swapBuild now ks r of (x, r') \<Rightarrow> swapStore u x r')"
  by (simp add: swapTable_def swapBuild_def swapStore_def Let_def split: prod.split)

section \<open>A registration in between\<close>

text \<open>\<open>swapStore\<close> publishes the table it was given, whatever was published since, and only drains what the
  earlier table held.\<close>

lemma swapStore_effect:
  "swapStore u (prev, tbl) r = r\<lparr>rcur := Some tbl,
     drains := drains r @ map (drainOf (ShutdownGrace (cfg r)) False) (stale (pipelines tbl) prev),
     LastKeysReloadUnix := u\<rparr>"
  by (simp add: swapStore_def drainStale_effect stale_def)

text \<open>C37: \<open>registration_lost_in_reload\<close>. A project registered on demand after a reload has read the table and
  before it publishes its own is lost: whatever the state and the keys, its pipeline runs but is neither
  in the table nor in any drain, so nothing will ever flush or stop it.\<close>

theorem registration_lost_in_reload:
  assumes "swapBuild now ks r0 = ((prev, tbl), r1)" and "reg_inv r0" and "keys_ok (cfg r0) ks"
    and "registerInline now' proj r1 = ((Some i, True), r2)" and "lookup proj r1 = (None, False)" and "proj \<noteq> []"
  shows "i < length (heap (swapStore u (prev, tbl) r2)) \<and> pl_started (heap (swapStore u (prev, tbl) r2) ! i) \<and>
    i \<notin> set (owners (swapStore u (prev, tbl) r2))"
proof -
  have p: "entries_ok (heap r0) (prevEntries r0)" and o: "owned r0"
    using assms(2) reg_inv_entries by (simp_all add: reg_inv_def)
  have d: "distinct (map fst ks)" using assms(3) by (simp add: keys_ok_def)
  obtain tbl' r' where b: "buildTable now ks (prevEntries r0) r0 = (tbl', r')" by force
  note bb = buildTable_builds [OF b p d]
  have e: "prev = prevEntries r0" "tbl = tbl'" "r1 = startNew prev (pipelines tbl) r'"
    using assms(1) b by (auto simp: swapBuild_def Let_def)
  have r1: "length (heap r1) = length (heap r')" "drains r1 = drains r0" "rcur r1 = rcur r0"
    unfolding e startNew_effect by (simp, subst bb(1), simp, subst bb(1), simp)
  have i: "i = length (heap r1)" and r2: "heap r2 = heap r1 @ [inlinePipeline proj (cfg r1) now']" "drains r2 = drains r1"
    using assms(4) unfolding registerInline_new [OF assms(5,6)] by (auto split: if_split_asm)
  have h: "length (heap r0) \<le> length (heap r1)" "entries_ok (heap r') (pipelines tbl)"
    using builds_entries_ok [OF bb(2) p d] r1(1) e(2) by (simp_all add: heap_ext_def)
  have m: "snd ` set es \<subseteq> {..< length h}" if "entries_ok h es" for h es
    using entries_mem [OF that] by auto
  have "snd ` set (pipelines tbl) \<subseteq> {..< i}" using m [OF h(2)] r1(1) i by simp
  moreover have "snd ` set prev \<subseteq> {..< i}" using m [OF p] h(1) e(1) i by auto
  moreover have "dr_pid ` set (drains r0) \<subseteq> {..< i}"
  proof -
    have "dr_pid ` set (drains r0) \<subseteq> {..< length (heap r0)}"
      using o by (simp add: owned_def owners_def) blast
    then show ?thesis using h(1) i by auto
  qed
  ultimately have "i \<notin> snd ` set (pipelines tbl) \<union> dr_pid ` set (drains r0) \<union> snd ` set prev" by blast
  moreover have "set (stale (pipelines tbl) prev) \<subseteq> snd ` set prev" by (auto simp: stale_def)
  ultimately have "i \<notin> set (owners (swapStore u (prev, tbl) r2))"
    using r1(2) r2(2) by (auto simp: swapStore_effect owners_def prevEntries_def comp_def)
  then show ?thesis using i r2(1) by (simp add: swapStore_effect nth_append)
qed

definition racedRegistry :: registry where
  "racedRegistry = snd (swapBuild 1 [(DefaultProject, ''k''), (''q'', ''kq'')] sampleRegistry)"

theorem registration_lost_in_reload_witness:
  "2 \<notin> set (owners (swapStore 9 (fst (swapBuild 1 [(DefaultProject, ''k''), (''q'', ''kq'')] sampleRegistry))
      (snd (registerInline 2 ''a'' racedRegistry))))"
proof -
  let ?ks = "[(DefaultProject, ''k''), (''q'', ''kq'')]"
  obtain prev tbl where x: "fst (swapBuild 1 ?ks sampleRegistry) = (prev, tbl)" by force
  then have b: "swapBuild 1 ?ks sampleRegistry = ((prev, tbl), racedRegistry)"
    by (simp add: racedRegistry_def prod_eq_iff)
  have l: "lookup ''a'' racedRegistry = (None, False)" by code_simp
  have "fst (registerInline 2 ''a'' racedRegistry) = (Some 2, True)" by code_simp
  then have g: "registerInline 2 ''a'' racedRegistry = ((Some 2, True), snd (registerInline 2 ''a'' racedRegistry))"
    by (simp add: prod_eq_iff)
  have "reg_inv sampleRegistry" using sample_in_service by (simp add: in_service_def)
  moreover have "keys_ok (cfg sampleRegistry) ?ks" by (simp add: keys_ok_def tooMany_def DefaultProject_def)
  ultimately show ?thesis
    using registration_lost_in_reload [OF b _ _ g l] unfolding x by simp
qed

section \<open>An expiry in between\<close>

text \<open>C38: \<open>expiry_in_reload_panics\<close>. An expiry between the two steps of a reload retires an idle on-demand
  project that the reload then finds gone from its own table and drains as well: two drains of one
  pipeline, in normal service, and the second to run closes the handoff channel again.\<close>

definition idleInReload :: registry where
  "idleInReload =
     (let r = snd (dispatch 0 sampleDatagram sampleRegistry);
          (x, r) = swapBuild 1 [(DefaultProject, ''k'')] r;
          r = snd (expireInline 900000000000 1000000000000000 r)
      in swapStore 9 x r)"


end
