(* ===== verification/Spec2Isabelle.thy ===== *)
theory Spec2Isabelle
  imports Stats_Props Races
begin

text \<open>
  A model of the metrics agent (\<open>src/\<close>, Go): a daemon that receives JSON events as Unix datagrams, routes
  each to a project, batches them and posts the batches to a gateway.

  \<^bold>\<open>The program.\<close> \<open>main\<close> reads its configuration from the environment, installs a routing table from an
  API key and a keys file, and starts a listener. \<open>listen\<close> hands each datagram to \<open>registry.dispatch\<close>, which
  reads and strips the routing members \<open>_project\<close> and \<open>_token\<close> in one pass over the bytes, registers an
  unknown project on demand when the datagram has a token, and puts the datagram in one bounded shared
  queue. The demuxer goroutine moves it to the handoff channel of its project's pipeline; the pipeline's
  batcher validates, stamps and batches events; its flusher posts batches with retries. A reload swaps the
  table and drains what is gone, a ticker retires idle on-demand projects, and \<open>shutdown\<close> closes the queue,
  waits for the demuxer and drains every pipeline. Every datagram is accounted for by counters.

  \<^bold>\<open>The theories.\<close>
  \<^item> \<open>Prelude\<close>: byte strings, 64-bit counters, the shared hints.
  \<^item> \<open>Scanner\<close>, \<open>Scanner_Spec\<close>: the index-based JSON scanner of \<open>src/routing.go\<close> (\<open>scanValue\<close> and below) and
    its equivalence with functions on suffixes. \<open>Json_Std\<close>, \<open>Json_String\<close>, \<open>Json_Embed\<close>: what the code uses of
    \<open>encoding/json\<close> (validity with its nesting limit, unquoting, a value inside a larger text);
    \<open>Json_String\<close> also has \<open>unquoteJSONString\<close>. \<open>Members\<close>: the members of an object as segments with their
    whitespace, and printing them.
  \<^item> \<open>Extract\<close>: \<open>extractAndStripFields\<close>, the single pass with its cuts and splices. \<open>Extract_Spec\<close> follows the
    loop along the segments; \<open>Extract_Props\<close> shows that the pass is parse, filter, print (\<open>extractRef\<close>), that
    exactly the routing members go, and what becomes of malformed text.
  \<^item> \<open>Timestamp\<close>, \<open>Events\<close>, \<open>Events_Json\<close>, \<open>Batcher\<close>: \<open>src/events.go\<close>. \<open>validateEvent\<close> and the stamp; the batcher's
    state and its \<open>run\<close> loop over datagrams, timer and close; batches are bounded, valid JSON, in order,
    and every event is counted once.
  \<^item> \<open>Config\<close>: \<open>loadConfig\<close> of \<open>src/main.go\<close>, its ranges, and reading back a printed configuration.
  \<^item> \<open>Flusher\<close>: \<open>src/flusher.go\<close>, one post, the retry loop (a function with a measure, as the number of
    attempts is bounded) and the 64-bit backoff.
  \<^item> \<open>Stats\<close>, \<open>Health\<close>: the counters and snapshots of \<open>src/stats.go\<close> and the handlers of \<open>src/health.go\<close>.
  \<^item> \<open>Keys\<close>: opening, checking and decoding the keys file (\<open>openKeysFile\<close>, \<open>loadKeysFile\<close>).
  \<^item> \<open>Channel\<close>: Go's buffered channels; the locale \<open>fifo\<close> is their contract, interpreted on the model.
  \<^item> \<open>Registry\<close>: pipelines and the registry of \<open>src/routing.go\<close>, one definition per method. A \<open>*pipeline\<close> is an
    index into a heap that only grows; a Go map is an association list with distinct keys.
    \<open>Registry_Inv\<close>: tables, pipelines and drains partition the heap, kept by every method. \<open>Router\<close>: the
    refinement of \<open>dispatch\<close> to an abstract router over a plain map, and what a reload does to the routes.
  \<^item> \<open>Listener\<close>: \<open>src/listener.go\<close>; the locale \<open>listen_sink\<close> is the interface the loop uses, \<open>Ledger\<close> shows that
    the registry keeps it (interpretation \<open>agent\<close>) and that \<open>listen\<close>, whatever the operating system answers,
    accounts for what it received.
  \<^item> \<open>System\<close>: the start of \<open>main\<close> with its exit code (\<open>mainStart\<close>, \<open>boot\<close>), the goroutines as atomic steps
    of one state (\<open>inner\<close>), \<open>main\<close>'s phases (\<open>exec\<close>), runs, and the
    inductive \<open>reachable\<close>, relative to which steps are admitted in which phase.
  \<^item> \<open>System_Inv\<close>, \<open>Agent_Inv\<close>, \<open>Drains\<close>, \<open>Lifecycle\<close>: the invariants of the reachable states. \<open>core\<close> is
    well-formedness and the channel bounds, \<open>balance\<close> the counters, \<open>routed\<close> where a datagram may be,
    \<open>drains_ok\<close> which channels are open in which phase of a drain; \<open>life\<close> holds in every reachable state,
    \<open>settled\<close> while no expiry interferes with the shutdown. \<open>local_step\<close>, \<open>still\<close> and \<open>inner_ok\<close> say once what
    the steps of a kind keep.
  \<^item> \<open>Shutdown\<close>: a weight every step lowers once nothing comes in, and that some step is always enabled.
  \<^item> \<open>Agent_Props\<close>: the properties of the agent as a whole, with executed runs; \<open>Stats_Props\<close>: what one
    \<open>/stats\<close> page adds up to. \<open>Races\<close>: a reload split between building and publishing its table, with a
    registration or an expiry in between.

  \<^bold>\<open>What is shown of the whole.\<close> Under any interleaving of the goroutines no datagram is lost or counted
  twice, queues and table keep their bounds, the table is well formed and a datagram reaches only its own
  project, stripped. Without an expiry during the shutdown drains no goroutine panics, \<open>main\<close> can always
  return and cannot be delayed for ever, and when it returns every queue is empty and the counters
  reconcile; until a project is retired, so does every \<open>/stats\<close> page of the serving agent. Runs show that the
  proviso is needed, that a token-less datagram can pass a reload, and that the formula in the comment of
  \<open>src/stats.go\<close> counts a datagram twice. Between the two halves of a reload a registration is always
  lost, and an expiry can close a handoff channel twice.

  \<^bold>\<open>Atomicity.\<close> Each method of the registry is one step, as are the work of a batcher on one datagram (with
  its up to two flushes) and one batch's retry loop; receiving is a step of its own. A snapshot reads all
  counters in one step. A flush hands its batch over while the channel has room and may give it up once
  the context is done.

  \<^bold>\<open>Arguments of the model.\<close> Clock readings, the outcome of each post and each cancelled wait, the answers of
  the operating system for files and sockets, and the environment. Counters are 64-bit words and all
  accounting is modulo \<open>2 ^ 64\<close>; durations are 64-bit where the code computes them.

  \<^bold>\<open>Bounds.\<close> The scanner's loops are recursive functions with measures on the remaining text; the nesting
  caps (256 of the scanner, 10000 of \<open>encoding/json\<close>) are those of the code and the library. No fuel is used.

  \<^bold>\<open>Not modelled.\<close> The jitter of the backoff and the length of timers (only their order matters), logging and
  \<open>sortedKeys\<close>, signal handling, \<open>net/http\<close> and the socket itself, the JSON encoding of \<open>/stats\<close>, and races
  within one registry method other than the reload of \<open>Races\<close>.
\<close>

end
